(* ===== verification/KPrelude.thy ===== *)
theory KPrelude
  imports Main "HOL-Library.Word" "HOL-Library.Monad_Syntax"
begin

text \<open>
  What every component of the development shares: the fixed-width integer types of
  \<^verbatim>\<open>src/include/kernel/types.h\<close>, the outcome of a kernel routine that may call
  \<^verbatim>\<open>panic\<close> (\<^verbatim>\<open>src/kernel/panic.c\<close> never returns), byte-level splitting of words, and
  the generic facts on words, lists and bounded loops that the component proofs use.

  Pointers are 64-bit words with 0 for \<^verbatim>\<open>NULL\<close>. Structures a routine reaches through a
  pointer are kept in a typed store, a function from addresses to the record that models
  the structure, so that aliasing is visible in the model.
\<close>

unbundle bit_operations_syntax

section \<open>Types\<close>

type_synonym u8 = "8 word"
type_synonym u16 = "16 word"
type_synonym u32 = "32 word"
type_synonym u64 = "64 word"
type_synonym ptr = "64 word"

text \<open>Byte-addressed memory.\<close>

type_synonym mem = "u64 \<Rightarrow> u8"

text \<open>The collections the component proofs draw on.\<close>

named_theorems kdefs \<open>definitions that evaluation of a closed instance unfolds\<close>
named_theorems kinv \<open>preservation of the component invariants\<close>

text \<open>
  A routine that may panic returns \<open>Panic msg\<close> when it does: \<^verbatim>\<open>panic()\<close> halts the machine
  and control never comes back to the caller.
\<close>

datatype 'a outcome = Panic string | Ret 'a

primrec obind :: "'a outcome \<Rightarrow> ('a \<Rightarrow> 'b outcome) \<Rightarrow> 'b outcome" where
  "obind (Panic msg) f = Panic msg"
| "obind (Ret x) f = f x"

lemma obind_Ret_iff [simp]:
  "obind m f = Ret y \<longleftrightarrow> (\<exists>x. m = Ret x \<and> f x = Ret y)"
  by (cases m) auto

lemma obind_Panic_iff:
  "obind m f = Panic msg \<longleftrightarrow> m = Panic msg \<or> (\<exists>x. m = Ret x \<and> f x = Panic msg)"
  by (cases m) auto

text \<open>A routine that may also fail to come back has a result of type \<open>'a outcome option\<close>, \<open>None\<close> when it does not.\<close>

definition rbind :: "'a outcome option \<Rightarrow> ('a \<Rightarrow> 'b outcome option) \<Rightarrow> 'b outcome option" where
  "rbind m f = (case m of None \<Rightarrow> None | Some (Panic msg) \<Rightarrow> Some (Panic msg) | Some (Ret x) \<Rightarrow> f x)"

lemma rbind_simps [simp]: "rbind None f = None" "rbind (Some (Panic msg)) f = Some (Panic msg)" "rbind (Some (Ret x)) f = f x"
  by (simp_all add: rbind_def)

section \<open>Words\<close>

lemma unat_ucast_up:
  fixes x :: "'a::len word"
  assumes "LENGTH('a) \<le> LENGTH('b::len)"
  shows "unat (ucast x :: 'b word) = unat x"
proof -
  have "unat x < 2 ^ LENGTH('a)" by (rule unsigned_less)
  also have "\<dots> \<le> 2 ^ LENGTH('b)" using assms by (rule power_increasing) simp
  finally show ?thesis by (simp add: unsigned_ucast_eq take_bit_nat_eq_self)
qed

text \<open>
  A loop counter \<open>i < n\<close> of fixed width can be incremented without wrapping; this is what
  makes the measure \<open>unat n - unat i\<close> of the C loop \<^verbatim>\<open>for (; i < n; i++)\<close> decrease.
\<close>

lemma unat_Suc_less:
  fixes i n :: "'a::len word"
  assumes "i < n"
  shows "unat (i + 1) = Suc (unat i)"
proof -
  have "unat i < unat n" using assms by (simp add: word_less_nat_alt)
  moreover have "unat n < 2 ^ LENGTH('a)" by (rule unsigned_less)
  ultimately have "unat i + 1 < 2 ^ LENGTH('a)" by linarith
  then have "unat i + unat (1::'a word) < 2 ^ LENGTH('a)" by simp
  then show ?thesis by (subst unat_add_lem [THEN iffD1]) simp_all
qed

lemma word_loop_measure [termination_simp]:
  fixes i n :: "'a::len word"
  assumes "i < n"
  shows "unat n - unat (i + 1) < unat n - unat i"
  using assms by (simp add: unat_Suc_less word_less_nat_alt)

lemma word_le_Suc:
  fixes i n :: "'a::len word"
  assumes "i < n"
  shows "i + 1 \<le> n"
  using assms by (simp add: word_le_nat_alt word_less_nat_alt unat_Suc_less)

text \<open>A narrowing conversion is a ring homomorphism; a widening one loses nothing.\<close>

lemma ucast_add_down:
  fixes a b :: "'a::len word"
  assumes "LENGTH('b::len) \<le> LENGTH('a)"
  shows "(ucast (a + b) :: 'b word) = ucast a + ucast b"
proof -
  have "take_bit LENGTH('b) (x + y)
        = take_bit LENGTH('b) (take_bit LENGTH('a) x + take_bit LENGTH('a) y)" for x y :: int
  proof -
    have "take_bit LENGTH('b) (take_bit LENGTH('a) x + take_bit LENGTH('a) y)
          = take_bit LENGTH('b) (take_bit LENGTH('b) (take_bit LENGTH('a) x)
              + take_bit LENGTH('b) (take_bit LENGTH('a) y))"
      by (simp only: take_bit_add)
    also have "\<dots> = take_bit LENGTH('b) (x + y)"
      using assms by (simp add: take_bit_add)
    finally show ?thesis by (rule sym)
  qed
  then show ?thesis by transfer (simp add: assms)
qed

lemma ucast_diff_down:
  fixes a b :: "'a::len word"
  assumes "LENGTH('b::len) \<le> LENGTH('a)"
  shows "(ucast (a - b) :: 'b word) = ucast a - ucast b"
proof -
  have "take_bit LENGTH('b) (x - y)
        = take_bit LENGTH('b) (take_bit LENGTH('a) x - take_bit LENGTH('a) y)" for x y :: int
  proof -
    have "take_bit LENGTH('b) (take_bit LENGTH('a) x - take_bit LENGTH('a) y)
          = take_bit LENGTH('b) (take_bit LENGTH('b) (take_bit LENGTH('a) x)
              - take_bit LENGTH('b) (take_bit LENGTH('a) y))"
      by (simp only: take_bit_diff)
    also have "\<dots> = take_bit LENGTH('b) (x - y)"
      using assms by (simp add: take_bit_diff)
    finally show ?thesis by (rule sym)
  qed
  then show ?thesis by transfer (simp add: assms)
qed

lemma ucast_mult_down:
  fixes a b :: "'a::len word"
  assumes "LENGTH('b::len) \<le> LENGTH('a)"
  shows "(ucast (a * b) :: 'b word) = ucast a * ucast b"
proof -
  have "take_bit LENGTH('b) (x * y)
        = take_bit LENGTH('b) (take_bit LENGTH('a) x * take_bit LENGTH('a) y)" for x y :: int
  proof -
    have "take_bit LENGTH('b) (take_bit LENGTH('a) x * take_bit LENGTH('a) y)
          = take_bit LENGTH('b) (take_bit LENGTH('b) (take_bit LENGTH('a) x)
              * take_bit LENGTH('b) (take_bit LENGTH('a) y))"
      by (simp only: take_bit_mult)
    also have "\<dots> = take_bit LENGTH('b) (x * y)"
      using assms by (simp add: take_bit_mult)
    finally show ?thesis by (rule sym)
  qed
  then show ?thesis by transfer (simp add: assms)
qed

lemma ucast_ucast_mid:
  fixes x :: "'a::len word"
  assumes "LENGTH('a) \<le> LENGTH('b::len)"
  shows "ucast (ucast x :: 'b word) = (ucast x :: 'c::len word)"
proof -
  have "ucast (ucast x :: 'b word) = (of_nat (unat (ucast x :: 'b word)) :: 'c word)" by simp
  also have "\<dots> = ucast x" using assms by (simp add: unat_ucast_up del: of_nat_unat) simp
  finally show ?thesis .
qed

lemma u8_below_cases:
  assumes "n < (of_nat k :: u8)" and "k < 256"
  shows "n \<in> set (map of_nat [0..<k])"
proof -
  have "unat n < k" using assms by (simp add: word_less_nat_alt unat_of_nat)
  moreover have "n = of_nat (unat n)" by simp
  ultimately show ?thesis by (metis atLeastLessThan_iff image_eqI list.set_map set_upt zero_le)
qed

lemma ucast_u8_u64:
  fixes x :: u32
  assumes "unat x < 256"
  shows "ucast (ucast x :: u8) = (of_nat (unat x) :: u64)"
proof -
  have "unat (ucast x :: u8) = unat x"
    using assms by (simp add: unsigned_ucast_eq take_bit_nat_eq_self)
  moreover have "ucast (ucast x :: u8) = (of_nat (unat (ucast x :: u8)) :: u64)" by simp
  ultimately show ?thesis by simp
qed

lemma sint_small: "y < 2 ^ 31 \<Longrightarrow> sint (y :: u32) = int (unat y)"
  by (subst sint_uint, subst signed_take_bit_int_eq_self)
     (simp_all add: word_less_def order_trans [of _ 0])

end
