(* ===== verification/KTime.thy ===== *)
theory KTime
  imports KPrelude
begin

text \<open>
  Calendar time: the BCD and Unix-time conversions of \<^verbatim>\<open>src/kernel/time/bcd2utime.c\<close>, the
  CMOS clock readers of \<^verbatim>\<open>src/kernel/time/rtc.c\<close> and \<^verbatim>\<open>src/kernel/time/rdcmos.c\<close>, and the
  software clock of \<^verbatim>\<open>src/kernel/time/clock.c\<close>.

  The CMOS register file is hardware: it is the parameter \<open>cmos\<close>, the value a read of each
  register returns while one conversion runs. An access outside the month table is a value
  \<open>None\<close>, since the C code reads past the array there.
\<close>

section \<open>Data\<close>

record datetime_t =
  dt_year :: u32
  dt_month :: u8
  dt_day :: u8
  dt_hour :: u8
  dt_minute :: u8
  dt_second :: u8

record ClockTime =
  hh :: u8
  mm :: u8
  ss :: u8
  epoch :: u32

section \<open>Conversions\<close>

definition bcd_to_bin :: "u8 \<Rightarrow> u8" where
  "bcd_to_bin bcd = (bcd AND 0x0F) + drop_bit 4 bcd * 10"

definition bin_to_bcd :: "u8 \<Rightarrow> u8" where
  "bin_to_bcd bin = push_bit 4 (bin div 10) OR (bin mod 10)"

definition is_leap :: "u32 \<Rightarrow> bool" where
  "is_leap year \<longleftrightarrow> year mod 400 = 0 \<or> (year mod 4 = 0 \<and> year mod 100 \<noteq> 0)"

definition month_days :: "u8 list" where
  "month_days = [31,28,31,30,31,30,31,31,30,31,30,31]"

definition days_in_month :: "u32 \<Rightarrow> u8 \<Rightarrow> u8 option" where
  "days_in_month year month =
     (if month = 2 \<and> is_leap year then Some 29
      else if 1 \<le> month \<and> unat month \<le> length month_days then Some (month_days ! (unat month - 1))
      else None)"

abbreviation year_days :: "u32 \<Rightarrow> u32" where
  "year_days y \<equiv> (if is_leap y then 366 else 365)"

function unix_years :: "u32 \<Rightarrow> u32 \<Rightarrow> u64 \<Rightarrow> u64" where
  "unix_years y year days =
     (if y < year then unix_years (y + 1) year (days + ucast (year_days y)) else days)"
  by pat_completeness auto
termination
  by (relation "measure (\<lambda>(y, year, days). unat year - unat y)") (auto intro: word_loop_measure)

function unix_months :: "u8 \<Rightarrow> u8 \<Rightarrow> u32 \<Rightarrow> u64 \<Rightarrow> u64 option" where
  "unix_months m month year days =
     (if m < month
      then (case days_in_month year m of
              None \<Rightarrow> None
            | Some d \<Rightarrow> unix_months (m + 1) month year (days + ucast d))
      else Some days)"
  by pat_completeness auto
termination
  by (relation "measure (\<lambda>(m, month, year, days). unat month - unat m)") (auto intro: word_loop_measure)

definition time_to_unix :: "datetime_t \<Rightarrow> u64 option" where
  "time_to_unix t =
     (case unix_months 1 (dt_month t) (dt_year t) (unix_years 1970 (dt_year t) 0) of
        None \<Rightarrow> None
      | Some days \<Rightarrow>
          (let days = days + (ucast (dt_day t) - 1)
           in Some (days * 86400 + ucast (dt_hour t) * 3600 + ucast (dt_minute t) * 60
                    + ucast (dt_second t))))"

function split_years :: "u32 \<Rightarrow> u32 \<Rightarrow> u32 \<times> u32" where
  "split_years days year =
     (if days \<ge> year_days year then split_years (days - year_days year) (year + 1)
      else (days, year))"
  by pat_completeness auto
termination
proof (relation "measure (\<lambda>(days, year). unat days)", simp)
  fix days year :: u32
  assume "year_days year \<le> days"
  then show "((days - year_days year, year + 1), days, year) \<in> measure (\<lambda>(days, year). unat days)"
    by (auto simp: unat_sub word_le_nat_alt split: if_splits)
qed

function split_months :: "datetime_t \<Rightarrow> u32 \<Rightarrow> u32 \<Rightarrow> datetime_t option" where
  "split_months t year days =
     (if dt_month t \<le> 12
      then (case days_in_month year (dt_month t) of
              None \<Rightarrow> None
            | Some dim \<Rightarrow>
                if days < ucast dim then Some (t\<lparr>dt_day := ucast (days + 1)\<rparr>)
                else split_months (t\<lparr>dt_month := dt_month t + 1\<rparr>) year (days - ucast dim))
      else Some t)"
  by pat_completeness auto
termination
  by (relation "measure (\<lambda>(t, year, days). 13 - unat (dt_month t))")
     (auto simp: word_le_nat_alt unat_word_ariths)

definition unix_to_time :: "u64 \<Rightarrow> datetime_t \<Rightarrow> datetime_t option" where
  "unix_to_time ut t =
     (let days = (ucast (ut div 86400) :: u32);
          rem = (ucast (ut mod 86400) :: u32);
          t = t\<lparr>dt_hour := ucast (rem div 3600),
                dt_minute := ucast ((rem mod 3600) div 60),
                dt_second := ucast (rem mod 60)\<rparr>;
          (days, year) = split_years days 1970
      in split_months (t\<lparr>dt_year := year, dt_month := 1\<rparr>) year days)"

declare unix_years.simps [simp del] unix_months.simps [simp del]
  split_years.simps [simp del] split_months.simps [simp del]

section \<open>The CMOS clock\<close>

definition rtc_read_time :: "(u8 \<Rightarrow> u8) \<Rightarrow> datetime_t \<Rightarrow> datetime_t" where
  "rtc_read_time cmos t =
     (let b = cmos 0x0B;
          conv = (\<lambda>x. if b AND 0x04 = 0 then bcd_to_bin x else x);
          cent = conv (cmos 0x32)
      in t\<lparr>dt_second := conv (cmos 0x00), dt_minute := conv (cmos 0x02), dt_hour := conv (cmos 0x04),
           dt_day := conv (cmos 0x07), dt_month := conv (cmos 0x08),
           dt_year := ucast (conv (cmos 0x09)) + (if cent \<noteq> 0 then ucast cent * 100 else 2000)\<rparr>)"

definition read_rtc_time :: "(u8 \<Rightarrow> u8) \<Rightarrow> u32 \<times> u32 \<times> u32" where
  "read_rtc_time cmos =
     (let ss0 = cmos 0x00; mm0 = cmos 0x02; hh0 = cmos 0x04; regB = cmos 0x0B;
          is_pm = hh0 AND 0x80;
          (ss1, mm1, hh1) =
            (if regB AND 0x04 = 0
             then (bcd_to_bin ss0, bcd_to_bin mm0, bcd_to_bin (hh0 AND 0x7F))
             else (ss0, mm0, hh0 AND 0x7F));
          hh2 = (if regB AND 0x02 = 0 \<and> is_pm \<noteq> 0
                 then ucast ((ucast hh1 + 12 :: u32) mod 24) else hh1 :: u8);
          hh3 = (ucast ((ucast hh2 + 7 + 24 :: u32) mod 24) :: u8)
      in (ucast hh3, ucast mm1, ucast ss1))"

definition read_rtc_date :: "(u8 \<Rightarrow> u8) \<Rightarrow> u32 \<times> u32 \<times> u32" where
  "read_rtc_date cmos =
     (let regB = cmos 0x0B;
          conv = (\<lambda>x. if regB AND 0x04 = 0 then bcd_to_bin x else x);
          day = conv (cmos 0x07); month = conv (cmos 0x08);
          year = conv (cmos 0x09); century = conv (cmos 0x32)
      in (if century \<ge> 19 then ucast century * 100 + ucast year else 2000 + ucast year,
          ucast month, ucast day))"

section \<open>The software clock\<close>

definition is_leap_year :: "u32 \<Rightarrow> bool" where
  "is_leap_year y \<longleftrightarrow>
     (let year = sint y
      in year mod 4 = 0 \<and> (year mod 100 \<noteq> 0 \<or> year mod 400 = 0))"

function epoch_years :: "u32 \<Rightarrow> u32 \<Rightarrow> u32 \<Rightarrow> u32" where
  "epoch_years y year ep =
     (if y < year then epoch_years (y + 1) year (ep + (if is_leap_year y then 366 else 365)) else ep)"
  by pat_completeness auto
termination
  by (relation "measure (\<lambda>(y, year, ep). unat year - unat y)") (auto intro: word_loop_measure)

function epoch_months :: "u32 \<Rightarrow> u32 \<Rightarrow> u32 \<Rightarrow> u32 \<Rightarrow> u32 option" where
  "epoch_months m month year ep =
     (if m < month
      then (if 1 \<le> m \<and> unat m \<le> length month_days
            then epoch_months (m + 1) month year
                   (ep + ucast (month_days ! (unat m - 1))
                       + (if m = 2 \<and> is_leap_year year then 1 else 0))
            else None)
      else Some ep)"
  by pat_completeness auto
termination
  by (relation "measure (\<lambda>(m, month, year, ep). unat month - unat m)") (auto intro: word_loop_measure)

declare epoch_years.simps [simp del] epoch_months.simps [simp del]

definition rtc_to_epoch :: "u32 \<Rightarrow> u32 \<Rightarrow> u32 \<Rightarrow> u32 \<Rightarrow> u32 \<Rightarrow> u32 \<Rightarrow> u32 option" where
  "rtc_to_epoch year month day hour minute second =
     (case epoch_months 1 month year (epoch_years 1970 year 0) of
        None \<Rightarrow> None
      | Some ep \<Rightarrow>
          Some ((ep + (day - 1)) * 86400 + hour * 3600 + minute * 60 + second))"

definition init_system_clock :: "(u8 \<Rightarrow> u8) \<Rightarrow> ClockTime option" where
  "init_system_clock cmos =
     (let (h, m, s) = read_rtc_time cmos; (year, month, day) = read_rtc_date cmos
      in map_option (\<lambda>ep. \<lparr>hh = ucast h, mm = ucast m, ss = ucast s, epoch = ep\<rparr>)
           (rtc_to_epoch year month day h m s))"

definition clock_tick :: "ClockTime \<Rightarrow> ClockTime" where
  "clock_tick c =
     (let c = c\<lparr>ss := ss c + 1, epoch := epoch c + 1\<rparr>
      in if ss c \<ge> 60 then
           (let c = c\<lparr>ss := 0, mm := mm c + 1\<rparr>
            in if mm c \<ge> 60 then
                 (let c = c\<lparr>mm := 0, hh := hh c + 1\<rparr>
                  in if hh c \<ge> 24 then c\<lparr>hh := 0\<rparr> else c)
               else c)
         else c)"

definition format_clock :: "ClockTime \<Rightarrow> u8 list" where
  "format_clock t =
     [48 + hh t div 10, 48 + hh t mod 10, 58,
      48 + mm t div 10, 48 + mm t mod 10, 58,
      48 + ss t div 10, 48 + ss t mod 10, 0]"

section \<open>Facts\<close>

subsection \<open>Years and months\<close>

lemma bcd_digits:
  "\<forall>k \<in> set [0..<100]. bcd_to_bin (bin_to_bcd (of_nat k)) = of_nat k"
  by code_simp

lemma year_days_bounds: "365 \<le> unat (year_days y)" "unat (year_days y) \<le> 366"
  by simp_all

lemma split_years_step:
  "days \<ge> year_days year \<Longrightarrow>
     split_years days year = split_years (days - year_days year) (year + 1)"
  "\<not> days \<ge> year_days year \<Longrightarrow> split_years days year = (days, year)"
  by (simp_all add: split_years.simps [of days year])

lemma unix_years_step:
  "y < year \<Longrightarrow> unix_years y year days = unix_years (y + 1) year (days + ucast (year_days y))"
  "\<not> y < year \<Longrightarrow> unix_years y year days = days"
  by (simp_all add: unix_years.simps [of y year])

lemma split_years_bounds:
  assumes "unat year * 365 + unat days < 2 ^ 32 * 365"
  shows "case split_years days year of (d, y) \<Rightarrow>
           d < year_days y \<and> d \<le> days \<and> year \<le> y \<and>
           (\<forall>acc. unix_years year y acc = acc + of_nat (unat days - unat d))"
  using assms
proof (induction days year rule: split_years.induct)
  case (1 days year)
  show ?case
  proof (cases "year_days year \<le> days")
    case False
    then show ?thesis by (simp add: split_years_step unix_years_step not_le)
  next
    case True
    have ge: "unat (year_days year) \<le> unat days" using True by (simp add: word_le_nat_alt)
    have sub: "unat (days - year_days year) = unat days - unat (year_days year)"
      using True by (rule unat_sub)
    have y1: "unat year + 1 < 2 ^ 32" using 1(2) ge year_days_bounds(1) [of year] by linarith
    have suc: "unat (year + 1) = unat year + 1"
      using y1 by (simp add: unat_word_ariths)
    have pre: "unat (year + 1) * 365 + unat (days - year_days year) < 2 ^ 32 * 365"
      unfolding suc sub using 1(2) ge year_days_bounds(1) [of year] by (simp add: algebra_simps)
    obtain d y where dy: "split_years (days - year_days year) (year + 1) = (d, y)"
      by (cases "split_years (days - year_days year) (year + 1)") auto
    from 1(1) [OF True pre] dy
    have IH: "d < year_days y" "d \<le> days - year_days year" "year + 1 \<le> y"
      and IHu: "\<And>acc. unix_years (year + 1) y acc
                 = acc + of_nat (unat (days - year_days year) - unat d)"
      by auto
    have lt: "year < y" using IH(3) suc by (simp add: word_le_nat_alt word_less_nat_alt)
    have dle: "unat d \<le> unat days - unat (year_days year)"
      using IH(2) sub by (simp add: word_le_nat_alt)
    have "unix_years year y acc = acc + of_nat (unat days - unat d)" for acc
    proof -
      have "unix_years year y acc
              = acc + ucast (year_days year) + of_nat (unat days - unat (year_days year) - unat d)"
        by (simp only: unix_years_step(1) [OF lt] IHu sub)
      also have "ucast (year_days year) = (of_nat (unat (year_days year)) :: u64)" by simp
      also have "acc + of_nat (unat (year_days year))
            + of_nat (unat days - unat (year_days year) - unat d)
          = acc + (of_nat (unat (year_days year) + (unat days - unat (year_days year) - unat d)) :: u64)"
        by (simp only: of_nat_add add.assoc)
      also have "unat (year_days year) + (unat days - unat (year_days year) - unat d) = unat days - unat d"
        using ge dle by linarith
      finally show ?thesis .
    qed
    moreover have "d \<le> days" using dle by (simp add: word_le_nat_alt)
    ultimately show ?thesis
      using IH lt dy by (simp add: split_years_step(1) [OF True])
  qed
qed

definition dim :: "u32 \<Rightarrow> nat \<Rightarrow> nat" where
  "dim year k = unat (the (days_in_month year (of_nat k)))"

lemma unat_numeral_8: "unat (2 :: u8) = 2" by simp

lemma days_in_month_table:
  assumes "1 \<le> k" "k \<le> 12"
  shows "days_in_month year (of_nat k) =
           Some (if k = 2 \<and> is_leap year then 29 else month_days ! (k - 1))"
proof -
  have "unat (of_nat k :: u8) = k" using assms by (simp add: unat_of_nat)
  moreover have "(of_nat k :: u8) = 2 \<longleftrightarrow> k = 2"
    using \<open>unat (of_nat k :: u8) = k\<close> by (metis of_nat_numeral unat_numeral_8)
  ultimately show ?thesis
    using assms by (simp add: days_in_month_def month_days_def word_le_nat_alt)
qed

lemma month_days_le: "k < 12 \<Longrightarrow> unat (month_days ! k) \<le> 31"
proof -
  assume "k < 12"
  have "list_all (\<lambda>x. unat x \<le> 31) month_days" by (simp add: month_days_def)
  with \<open>k < 12\<close> show ?thesis by (simp add: list_all_length month_days_def)
qed

lemma days_in_month_Some:
  assumes "1 \<le> m" "m \<le> 12"
  shows "\<exists>d. days_in_month year m = Some d \<and> unat d \<le> 31 \<and> dim year (unat m) = unat d"
proof -
  have k: "1 \<le> unat m" "unat m \<le> 12" using assms by (simp_all add: word_le_nat_alt)
  then show ?thesis
    using days_in_month_table [OF k, of year] month_days_le [of "unat m - 1"]
    by (auto simp: dim_def)
qed

lemma dim_year: "(\<Sum>k = 1..12. dim year k) = unat (year_days year)"
proof -
  have "(\<Sum>k = 1..12. dim year k)
        = (\<Sum>k \<in> set [1..<13]. unat (if k = 2 \<and> is_leap year then 29 else month_days ! (k - 1)))"
    by (intro sum.cong) (auto simp: dim_def days_in_month_table)
  also have "\<dots> = unat (year_days year)"
    by (simp add: month_days_def upt_conv_Cons)
  finally show ?thesis .
qed

lemma split_months_correct:
  assumes "1 \<le> dt_month t" "dt_month t \<le> 12"
    and "unat days < (\<Sum>k = unat (dt_month t)..12. dim year k)"
  shows "\<exists>M d. split_months t year days = Some (t\<lparr>dt_month := M, dt_day := ucast (d + 1)\<rparr>) \<and>
           dt_month t \<le> M \<and> M \<le> 12 \<and> unat d < dim year (unat M) \<and> d \<le> days \<and>
           (\<forall>acc. unix_months (dt_month t) M year acc = Some (acc + of_nat (unat days - unat d)))"
  using assms
proof (induction t year days rule: split_months.induct)
  case (1 t year days)
  obtain x where x: "days_in_month year (dt_month t) = Some x" "unat x \<le> 31"
      "dim year (unat (dt_month t)) = unat x"
    using days_in_month_Some [OF 1(2,3)] by blast
  have ux: "unat (ucast x :: u32) = unat x" by (simp add: unat_ucast_up)
  show ?case
  proof (cases "days < ucast x")
    case True
    have "unat days < unat x" using True ux by (simp add: word_less_nat_alt)
    then show ?thesis
      using True x 1(3)
      by (intro exI [of _ "dt_month t"] exI [of _ days])
         (simp add: split_months.simps [of t] unix_months.simps [of "dt_month t"])
  next
    case False
    let ?t = "t\<lparr>dt_month := dt_month t + 1\<rparr>"
    have m12: "unat (dt_month t) \<le> 12" using 1(3) by (simp add: word_le_nat_alt)
    then have suc: "unat (dt_month t + 1) = Suc (unat (dt_month t))"
      by (simp add: unat_word_ariths)
    have ge: "unat x \<le> unat days" using False ux by (simp add: word_less_nat_alt)
    have sub: "unat (days - ucast x) = unat days - unat x"
      using False ux by (simp add: unat_sub not_less)
    have split: "(\<Sum>k = unat (dt_month t)..12. dim year k)
                 = unat x + (\<Sum>k = Suc (unat (dt_month t))..12. dim year k)"
      using m12 x(3) by (simp add: sum.atLeast_Suc_atMost)
    have lt: "unat days - unat x < (\<Sum>k = Suc (unat (dt_month t))..12. dim year k)"
      using 1(4) split ge by linarith
    have "Suc (unat (dt_month t)) \<le> 12"
    proof (rule ccontr)
      assume "\<not> ?thesis"
      then show False using lt by simp
    qed
    then have le12: "dt_month ?t \<le> 12" and ge1: "1 \<le> dt_month ?t"
      using suc by (simp_all add: word_le_nat_alt)
    have pre: "unat (days - ucast x) < (\<Sum>k = unat (dt_month ?t)..12. dim year k)"
      using lt sub suc by simp
    from 1(1) [OF 1(3) x(1) False ge1 le12 pre]
    obtain M d where
      IH: "split_months ?t year (days - ucast x) = Some (?t\<lparr>dt_month := M, dt_day := ucast (d + 1)\<rparr>)"
      "dt_month t + 1 \<le> M" "M \<le> 12" "unat d < dim year (unat M)" "d \<le> days - ucast x"
      and IHu: "\<And>acc. unix_months (dt_month t + 1) M year acc
                 = Some (acc + of_nat (unat (days - ucast x) - unat d))"
      by auto
    have lt': "dt_month t < M" using IH(2) suc by (simp add: word_le_nat_alt word_less_nat_alt)
    have dle: "unat d \<le> unat days - unat x" using IH(5) sub by (simp add: word_le_nat_alt)
    have "unix_months (dt_month t) M year acc = Some (acc + of_nat (unat days - unat d))" for acc
    proof -
      have "unix_months (dt_month t) M year acc
            = Some (acc + (of_nat (unat x) + of_nat (unat days - unat x - unat d)))"
        using lt' x(1) by (simp add: unix_months.simps [of "dt_month t"] IHu sub add.assoc)
      also have "(of_nat (unat x) + of_nat (unat days - unat x - unat d) :: u64)
                 = of_nat (unat days - unat d)"
        using ge dle by (simp only: of_nat_add [symmetric]) simp
      finally show ?thesis .
    qed
    then show ?thesis
      using IH lt' x(1) False 1(3) dle
      by (intro exI [of _ M] exI [of _ d])
         (auto simp: split_months.simps [of t] word_le_nat_alt word_less_nat_alt)
  qed
qed

lemma div_mod_60:
  "(r::nat) = r div 3600 * 3600 + r mod 3600 div 60 * 60 + r mod 60"
proof -
  have "r mod 60 = r mod 3600 mod 60" by (simp add: mod_mod_cancel)
  then show ?thesis by (metis div_mult_mod_eq add.assoc)
qed

lemma date_split:
  "\<exists>y M (e :: u32). (case split_years days 1970 of (d, y) \<Rightarrow> split_months (t\<lparr>dt_year := y, dt_month := 1\<rparr>) y d)
         = Some (t\<lparr>dt_year := y, dt_month := M, dt_day := ucast (e + 1)\<rparr>) \<and>
       unix_months 1 M y (unix_years 1970 y 0) = Some (of_nat (unat days - unat e)) \<and>
       1 \<le> M \<and> M \<le> 12 \<and> unat e < dim y (unat M) \<and> unat e \<le> unat days"
proof -
  obtain d y where dy: "split_years days 1970 = (d, y)" by (cases "split_years days 1970") auto
  have "unat (1970::u32) * 365 + unat days < 2 ^ 32 * 365"
    using unsigned_less [of days, where ?'a = nat] by simp
  from split_years_bounds [OF this] dy
  have y: "d < year_days y" "d \<le> days"
    and yu: "unix_years 1970 y 0 = of_nat (unat days - unat d)" by auto
  have "unat d < (\<Sum>k = unat (dt_month (t\<lparr>dt_year := y, dt_month := 1\<rparr>))..12. dim y k)"
    using y(1) dim_year [of y] by (simp add: word_less_nat_alt)
  from split_months_correct [OF _ _ this]
  obtain M and e :: u32 where
    m: "split_months (t\<lparr>dt_year := y, dt_month := 1\<rparr>) y d
          = Some (t\<lparr>dt_year := y, dt_month := M, dt_day := ucast (e + 1)\<rparr>)"
      "1 \<le> M" "M \<le> 12" "unat e < dim y (unat M)" "unat e \<le> unat d"
    and mu: "\<And>acc. unix_months 1 M y acc = Some (acc + of_nat (unat d - unat e))"
    by (auto simp: word_le_nat_alt)
  have "unat d \<le> unat days" using y(2) by (simp add: word_le_nat_alt)
  then have "of_nat (unat days - unat d) + of_nat (unat d - unat e) = (of_nat (unat days - unat e) :: u64)"
    using m(5) by (simp only: of_nat_add [symmetric]) simp
  then show ?thesis
    using m mu dy yu \<open>unat d \<le> unat days\<close>
    by (intro exI [of _ y] exI [of _ M] exI [of _ e]) simp
qed

lemma day_field:
  fixes e :: u32 and M :: u8
  assumes "1 \<le> M" "M \<le> 12" "unat e < dim y (unat M)"
  shows "1 \<le> (ucast (e + 1) :: u8)" "unat (ucast (e + 1) :: u8) \<le> dim y (unat M)"
    and "ucast (ucast (e + 1) :: u8) - 1 = (of_nat (unat e) :: u64)"
proof -
  have le: "dim y (unat M) \<le> 31" using days_in_month_Some [OF assms(1,2), of y] by auto
  then have e1: "unat (e + 1) = unat e + 1" using assms(3) by (simp add: unat_word_ariths)
  then have "unat (ucast (e + 1) :: u8) = unat e + 1"
    using le assms(3) by (simp add: unsigned_ucast_eq take_bit_nat_eq_self)
  then show "1 \<le> (ucast (e + 1) :: u8)" "unat (ucast (e + 1) :: u8) \<le> dim y (unat M)"
    using assms(3) by (simp_all add: word_le_nat_alt)
  show "ucast (ucast (e + 1) :: u8) - 1 = (of_nat (unat e) :: u64)"
    using le assms(3) by (subst ucast_u8_u64) (simp_all add: e1)
qed

lemma time_fields:
  fixes rem :: u32
  assumes "unat rem < 86400"
  defines "h \<equiv> ucast (rem div 3600) :: u8" and "m \<equiv> ucast (rem mod 3600 div 60) :: u8"
    and "s \<equiv> ucast (rem mod 60) :: u8"
  shows "h < 24" "m < 60" "s < 60"
    and "(ucast h * 3600 + (ucast m * 60 + ucast s) :: u64) = of_nat (unat rem)"
proof -
  have u: "unat (rem div 3600) < 24" "unat (rem mod 3600 div 60) < 60" "unat (rem mod 60) < 60"
    using assms(1) by (auto simp: unat_div unat_mod less_mult_imp_div_less)
  then have c: "unat h = unat rem div 3600" "unat m = unat rem mod 3600 div 60" "unat s = unat rem mod 60"
    unfolding h_def m_def s_def
    by (simp_all add: unsigned_ucast_eq take_bit_nat_eq_self unat_div unat_mod)
  then show "h < 24" "m < 60" "s < 60"
    using u by (simp_all add: word_less_nat_alt unat_div unat_mod)
  have "(ucast h * 3600 + (ucast m * 60 + ucast s) :: u64)
        = of_nat (unat h * 3600 + (unat m * 60 + unat s))" by simp
  also have "unat h * 3600 + (unat m * 60 + unat s) = unat rem"
    using div_mod_60 [of "unat rem"] c by simp
  finally show "(ucast h * 3600 + (ucast m * 60 + ucast s) :: u64) = of_nat (unat rem)" .
qed

lemma is_leap_year_eq:
  assumes "y < 2 ^ 31"
  shows "is_leap_year y = is_leap y"
proof -
  note s = sint_small [OF assms]
  have m: "(y mod n = 0) = (unat y mod unat n = 0)" for n :: u32
    by (simp add: word_unat_eq_iff unat_mod)
  have i: "(int (unat y) mod int k = 0) = (unat y mod k = 0)" for k
    by (simp only: zmod_int [symmetric] of_nat_eq_0_iff)
  have z: "unat y mod 4 = 0" if "unat y mod 400 = 0"
    using that mod_mod_cancel [of 4 400 "unat y"] by simp
  have l: "is_leap y \<longleftrightarrow> unat y mod 400 = 0 \<or> unat y mod 4 = 0 \<and> unat y mod 100 \<noteq> 0"
    unfolding is_leap_def m by simp
  have r: "is_leap_year y \<longleftrightarrow> unat y mod 4 = 0 \<and> (unat y mod 100 \<noteq> 0 \<or> unat y mod 400 = 0)"
    using i [of 4] i [of 100] i [of 400] unfolding is_leap_year_def Let_def s by simp
  show ?thesis unfolding l r using z by (cases "unat y mod 400 = 0") simp_all
qed

lemma epoch_years_unix:
  assumes "year \<le> 2 ^ 31"
  shows "epoch_years y year (ucast a) = ucast (unix_years y year a)"
  using assms
proof (induction y year a rule: unix_years.induct)
  case (1 y year a)
  show ?case
  proof (cases "y < year")
    case True
    then have "y < 2 ^ 31" using 1(2) by (rule order.strict_trans2)
    then show ?thesis
      using True 1 by (auto simp: epoch_years.simps [of y] unix_years_step is_leap_year_eq ucast_add_down ucast_ucast_mid)
  next
    case False
    then show ?thesis by (simp add: epoch_years.simps [of y] unix_years_step)
  qed
qed

lemma epoch_months_unix:
  assumes "year < 2 ^ 31" "1 \<le> m"
  shows "epoch_months (ucast m) (ucast month) year (ucast a) = map_option ucast (unix_months m month year a)"
  using assms
proof (induction m month year a rule: unix_months.induct)
  case (1 m month year a)
  have lt: "(ucast m :: u32) < ucast month \<longleftrightarrow> m < month"
    by (simp add: word_less_nat_alt unat_ucast_up)
  show ?case
  proof (cases "m < month")
    case False
    then show ?thesis by (simp add: epoch_months.simps [of "ucast m"] unix_months.simps [of m] lt)
  next
    case True
    have suc: "(ucast m + 1 :: u32) = ucast (m + 1)"
      using True by (simp add: word_unat_eq_iff unat_ucast_up unat_Suc_less
          unat_Suc_less [of "ucast m :: u32" "ucast month"] lt)
    have um: "unat (ucast m :: u32) = unat m" by (simp add: unat_ucast_up)
    have two: "(ucast m :: u32) = 2 \<longleftrightarrow> m = 2"
      by (simp add: word_unat_eq_iff unat_ucast_up)
    have ge1: "1 \<le> m + 1" "1 \<le> (ucast m :: u32)" 
      using 1(3) True by (simp_all add: word_le_nat_alt unat_Suc_less unat_ucast_up)
    show ?thesis
    proof (cases "unat m \<le> 12")
      case False
      then have "m \<noteq> 2" by auto
      then show ?thesis using True False
        by (simp add: epoch_months.simps [of "ucast m"] unix_months.simps [of m] lt um
            days_in_month_def month_days_def)
    next
      case le: True
      obtain d where d: "days_in_month year m = Some d"
        using days_in_month_Some [OF 1(3)] le by (auto simp: word_le_nat_alt)
      have feb: "ucast (month_days ! (unat m - 1)) + (if m = 2 \<and> is_leap year then 1 else 0) = (ucast d :: u32)"
        using d le 1(3) by (auto simp: days_in_month_def month_days_def split: if_splits)
      have "epoch_months (ucast m) (ucast month) year (ucast a)
            = epoch_months (ucast (m + 1)) (ucast month) year (ucast (a + ucast d))"
        using True le 1(2) ge1 feb
        by (simp add: epoch_months.simps [of "ucast m"] lt um suc two is_leap_year_eq
            ucast_add_down ucast_ucast_mid add.assoc month_days_def)
      also have "\<dots> = map_option ucast (unix_months (m + 1) month year (a + ucast d))"
        by (rule 1(1) [OF True d 1(2) ge1(1)])
      finally show ?thesis using True d by (simp add: unix_months.simps [of m])
    qed
  qed
qed

subsection \<open>Properties\<close>

definition clock_wf :: "ClockTime \<Rightarrow> bool" where
  "clock_wf c \<longleftrightarrow> hh c < 24 \<and> mm c < 60 \<and> ss c < 60"

definition clock_seconds :: "ClockTime \<Rightarrow> nat" where
  "clock_seconds c = unat (hh c) * 3600 + unat (mm c) * 60 + unat (ss c)"

definition datetime_wf :: "datetime_t \<Rightarrow> bool" where
  "datetime_wf t \<longleftrightarrow> 1 \<le> dt_month t \<and> dt_month t \<le> 12 \<and> 1 \<le> dt_day t \<and>
     unat (dt_day t) \<le> dim (dt_year t) (unat (dt_month t)) \<and>
     dt_hour t < 24 \<and> dt_minute t < 60 \<and> dt_second t < 60"

text \<open>
  C38 (roundtrip). \<^verbatim>\<open>unix_to_time\<close> turns every time stamp whose day number fits the 32-bit day
  counter into a valid calendar date, and \<^verbatim>\<open>time_to_unix\<close> of that date is the time stamp.
\<close>

theorem unix_roundtrip:
  assumes "ut div 86400 < 2 ^ 32"
  shows "\<exists>t'. unix_to_time ut t = Some t' \<and> datetime_wf t' \<and> time_to_unix t' = Some ut"
proof -
  define days rem where "days = (ucast (ut div 86400) :: u32)" and "rem = (ucast (ut mod 86400) :: u32)"
  have ud: "unat days = unat ut div 86400"
    using assms by (simp add: days_def unsigned_ucast_eq take_bit_nat_eq_self word_less_nat_alt unat_div)
  have ur: "unat rem = unat ut mod 86400"
    by (simp add: rem_def unsigned_ucast_eq take_bit_nat_eq_self unat_mod order.strict_trans [OF mod_less_divisor])
  then have r: "unat rem < 86400" by simp
  define t0 where "t0 = t\<lparr>dt_hour := ucast (rem div 3600), dt_minute := ucast (rem mod 3600 div 60),
     dt_second := ucast (rem mod 60)\<rparr>"
  obtain y M and e :: u32 where
    dt: "(case split_years days 1970 of (d, y) \<Rightarrow> split_months (t0\<lparr>dt_year := y, dt_month := 1\<rparr>) y d)
         = Some (t0\<lparr>dt_year := y, dt_month := M, dt_day := ucast (e + 1)\<rparr>)"
    and bk: "unix_months 1 M y (unix_years 1970 y 0) = Some (of_nat (unat days - unat e))"
    and wf: "1 \<le> M" "M \<le> 12" "unat e < dim y (unat M)" and e: "unat e \<le> unat days"
    using date_split [of t0 days] by blast
  note day = day_field [OF wf] and tod = time_fields [OF r]
  define t' where "t' = t0\<lparr>dt_year := y, dt_month := M, dt_day := ucast (e + 1)\<rparr>"
  have fields: "dt_year t' = y" "dt_month t' = M" "dt_day t' = ucast (e + 1)"
    "dt_hour t' = ucast (rem div 3600)" "dt_minute t' = ucast (rem mod 3600 div 60)"
    "dt_second t' = ucast (rem mod 60)" by (simp_all add: t'_def t0_def)
  have "unix_to_time ut t = Some t'"
    using dt by (simp add: unix_to_time_def t'_def t0_def flip: days_def rem_def)
  moreover have "datetime_wf t'"
    using wf day(1,2) tod(1-3) by (simp add: datetime_wf_def fields)
  moreover {
  have "time_to_unix t' = Some (of_nat ((unat days - unat e + unat e) * 86400 + unat rem))"
    by (simp only: time_to_unix_def fields bk option.case Let_def day(3) tod(4) add.assoc
        of_nat_add of_nat_mult of_nat_numeral)
  also have "(unat days - unat e + unat e) * 86400 + unat rem = unat ut"
    using e ud ur by simp
  finally have "time_to_unix t' = Some ut" by simp
  }
  ultimately show ?thesis by blast
qed

theorem unix_roundtrip_witness:
  "(951782400 :: u64) div 86400 < 2 ^ 32 \<and>
   (\<exists>t'. unix_to_time 951782400 \<lparr>dt_year = 0, dt_month = 0, dt_day = 0, dt_hour = 0, dt_minute = 0,
      dt_second = 0\<rparr> = Some t' \<and> datetime_wf t' \<and> time_to_unix t' = Some 951782400)"
  using unix_roundtrip [of 951782400] by simp

text \<open>
  C39 (functional). One tick of the software clock keeps it a valid time of day and moves it, and
  the epoch counter, on by exactly one second, with midnight following 23:59:59.
\<close>

theorem clock_tick_seconds:
  assumes "clock_wf c"
  shows "clock_wf (clock_tick c) \<and> clock_seconds (clock_tick c) = (clock_seconds c + 1) mod 86400 \<and>
         epoch (clock_tick c) = epoch c + 1"
proof -
  have wf: "unat (hh c) < 24" "unat (mm c) < 60" "unat (ss c) < 60"
    using assms by (simp_all add: clock_wf_def word_less_nat_alt)
  have s: "unat (hh c + 1) = unat (hh c) + 1" "unat (mm c + 1) = unat (mm c) + 1"
     "unat (ss c + 1) = unat (ss c) + 1"
    using wf by (simp_all add: unat_word_ariths)
  show ?thesis
  proof (cases "unat (hh c) = 23 \<and> unat (mm c) = 59 \<and> unat (ss c) = 59")
    case True
    then show ?thesis
      using s by (simp add: clock_tick_def clock_wf_def clock_seconds_def Let_def word_less_nat_alt word_le_nat_alt)
  next
    case False
    then have "clock_seconds c + 1 < 86400" using wf by (auto simp: clock_seconds_def)
    then show ?thesis
      using False wf s
      by (auto simp: clock_tick_def clock_wf_def clock_seconds_def Let_def word_less_nat_alt word_le_nat_alt)
  qed
qed

theorem clock_tick_seconds_witness:
  "clock_wf \<lparr>hh = 23, mm = 59, ss = 59, epoch = 7\<rparr> \<and>
   clock_seconds (clock_tick \<lparr>hh = 23, mm = 59, ss = 59, epoch = 7\<rparr>) = 0"
proof -
  have wf: "clock_wf \<lparr>hh = 23, mm = 59, ss = 59, epoch = 7\<rparr>" by (simp add: clock_wf_def)
  show ?thesis using wf clock_tick_seconds [OF wf] by (simp add: clock_seconds_def)
qed

text \<open>
  C40 (equivalence). The two date conversions of the kernel agree: for every date before the year
  \<open>2 ^ 31\<close>, the 32-bit epoch of \<^verbatim>\<open>clock.c\<close> is the 64-bit Unix time of \<^verbatim>\<open>bcd2utime.c\<close> cut to 32
  bits, and both read past the month table on the same inputs.
\<close>

theorem rtc_to_epoch_unix:
  assumes "dt_year t < 2 ^ 31"
  shows "rtc_to_epoch (dt_year t) (ucast (dt_month t)) (ucast (dt_day t)) (ucast (dt_hour t))
           (ucast (dt_minute t)) (ucast (dt_second t))
         = map_option ucast (time_to_unix t)"
proof -
  have y: "epoch_years 1970 (dt_year t) 0 = ucast (unix_years 1970 (dt_year t) 0)"
    using epoch_years_unix [of "dt_year t" 1970 0] assms by simp
  have m: "epoch_months 1 (ucast (dt_month t)) (dt_year t) (ucast (unix_years 1970 (dt_year t) 0))
           = map_option ucast (unix_months 1 (dt_month t) (dt_year t) (unix_years 1970 (dt_year t) 0))"
    using epoch_months_unix [of "dt_year t" 1] assms by simp
  have e: "(ucast ((d + (ucast dd - 1)) * 86400 + ucast h * 3600 + ucast mi * 60 + ucast sc) :: u32)
           = (ucast d + (ucast dd - 1)) * 86400 + ucast h * 3600 + ucast mi * 60 + ucast sc"
    for d :: u64 and dd h mi sc :: u8
    by (simp add: ucast_add_down ucast_mult_down ucast_diff_down ucast_ucast_mid)
  show ?thesis
    unfolding rtc_to_epoch_def time_to_unix_def y m
    by (cases "unix_months 1 (dt_month t) (dt_year t) (unix_years 1970 (dt_year t) 0)")
       (simp_all only: option.case option.map e Let_def)
qed

theorem rtc_to_epoch_unix_witness:
  "rtc_to_epoch 1970 2 1 0 0 5 = map_option ucast (time_to_unix \<lparr>dt_year = 1970, dt_month = 2, dt_day = 1,
     dt_hour = 0, dt_minute = 0, dt_second = 5\<rparr>)"
  using rtc_to_epoch_unix [of "\<lparr>dt_year = 1970, dt_month = 2, dt_day = 1,
     dt_hour = 0, dt_minute = 0, dt_second = 5\<rparr>"] by simp

text \<open>
  Every value below 100 survives the conversion to BCD and back.
\<close>

lemma bcd_roundtrip: "n < 100 \<Longrightarrow> bcd_to_bin (bin_to_bcd n) = n"
  using u8_below_cases [of n 100] bcd_digits by auto

text \<open>
  In 12-hour mode the hour register holds 1 to 12 with bit 7 for the afternoon. Noon (12 with
  the bit set) is read as hour 0 before the time-zone shift, twelve hours early.
\<close>

lemma rtc_noon_is_midnight:
  assumes "cmos 0x04 = 0x92" "cmos 0x0B = 0"
  shows "fst (read_rtc_time cmos) = 7"
  using assms by (simp add: read_rtc_time_def bcd_to_bin_def Let_def)

end
