(* ===== verification/KPmm.thy ===== *)
theory KPmm
  imports KPrelude
begin

text \<open>
  The physical page allocator, \<^verbatim>\<open>src/kernel/mm/pmm.c\<close> and \<^verbatim>\<open>src/include/mm/pmm.h\<close>: a bitmap with
  one bit per 4 KiB page and a count of the pages in use.

  The record \<open>pmm_t\<close> is the C structure with the bitmap array it points to: \<open>bitmap\<close> is the
  pointer, \<open>bits\<close> the bytes. Byte and bit indices are natural numbers, since the code keeps
  them below \<open>2 ^ 32\<close>; the page address is computed at the width the code uses, 32 bits for
  the product \<^verbatim>\<open>page_idx * PAGE_SIZE\<close> and 64 bits for the sum. The zeroing of the pages of
  a range writes to the memory \<open>mem\<close>. Console output is left out; so is the loop of
  \<^verbatim>\<open>pmm_free_range\<close> that only prints a warning. The field \<open>bitmap_size\<close> is never written by the code.

  The lemmas show that the byte-wise loops compute what a scan page by page computes, that the count
  of used pages is the number of set bits after every operation, and that the allocator keeps the
  contract \<open>page_allocator\<close>. The 32-bit product makes pages \<open>2 ^ 20\<close> apart share an address
  (\<open>page_addr_alias\<close>), so the address facts assume at most \<open>2 ^ 20\<close> pages.
\<close>

section \<open>Data\<close>

record pmm_t =
  bitmap :: ptr
  bits :: "nat \<Rightarrow> u8"
  base_addr :: u64
  total_pages :: u32
  used_pages :: u32
  bitmap_size :: u64

record memory_region_t =
  mr_base_addr :: u64
  mr_length :: u64
  mr_type :: u32

abbreviation PAGE_SIZE :: "'a::len word" where
  "PAGE_SIZE \<equiv> 4096"

abbreviation (input) MULTIBOOT2_MMAP_AVAILABLE :: u32 where
  "MULTIBOOT2_MMAP_AVAILABLE \<equiv> 1"

section \<open>Bits of the map\<close>

text \<open>The test \<^verbatim>\<open>bitmap[byte] & (1 << bit)\<close> and the two updates of one bit.\<close>

definition bit_test :: "pmm_t \<Rightarrow> nat \<Rightarrow> nat \<Rightarrow> bool" where
  "bit_test p byte b \<longleftrightarrow> bits p byte AND push_bit b 1 \<noteq> 0"

definition bit_on :: "pmm_t \<Rightarrow> nat \<Rightarrow> nat \<Rightarrow> pmm_t" where
  "bit_on p byte b = p\<lparr>bits := (bits p)(byte := bits p byte OR push_bit b 1)\<rparr>"

definition bit_off :: "pmm_t \<Rightarrow> nat \<Rightarrow> nat \<Rightarrow> pmm_t" where
  "bit_off p byte b = p\<lparr>bits := (bits p)(byte := bits p byte AND NOT (push_bit b 1))\<rparr>"

definition bitmap_bytes :: "pmm_t \<Rightarrow> nat" where
  "bitmap_bytes p = unat ((total_pages p + 7) div 8)"

definition page_addr :: "pmm_t \<Rightarrow> nat \<Rightarrow> ptr" where
  "page_addr p page_idx = base_addr p + ucast (of_nat page_idx * PAGE_SIZE :: u32)"

section \<open>One page\<close>

fun alloc_bits :: "nat list \<Rightarrow> nat \<Rightarrow> pmm_t \<Rightarrow> nat option \<times> pmm_t" where
  "alloc_bits [] byte p = (None, p)"
| "alloc_bits (b # bs) byte p =
     (if \<not> bit_test p byte b then
        (let p = bit_on p byte b; page_idx = byte * 8 + b
         in if page_idx < unat (total_pages p)
            then (Some page_idx, p\<lparr>used_pages := used_pages p + 1\<rparr>)
            else alloc_bits bs byte p)
      else alloc_bits bs byte p)"

fun alloc_bytes :: "nat list \<Rightarrow> pmm_t \<Rightarrow> nat option \<times> pmm_t" where
  "alloc_bytes [] p = (None, p)"
| "alloc_bytes (byte # rest) p =
     (let empty = bits p byte = 0;
          p = (if empty then p\<lparr>bits := (bits p)(byte := 1)\<rparr> else p)
      in if empty \<and> byte * 8 < unat (total_pages p)
         then (Some (byte * 8), p\<lparr>used_pages := used_pages p + 1\<rparr>)
         else if bits p byte \<noteq> 0xFF
         then (case alloc_bits [0..<8] byte p of
                 (Some i, p) \<Rightarrow> (Some i, p)
               | (None, p) \<Rightarrow> alloc_bytes rest p)
         else alloc_bytes rest p)"

definition pmm_alloc_page :: "pmm_t \<Rightarrow> ptr \<times> pmm_t" where
  "pmm_alloc_page p =
     (if bitmap p = 0 then (0, p)
      else case alloc_bytes [0..<bitmap_bytes p] p of
             (Some i, p') \<Rightarrow> (page_addr p' i, p')
           | (None, p') \<Rightarrow> (0, p'))"

definition pmm_free_page :: "pmm_t \<Rightarrow> ptr \<Rightarrow> pmm_t" where
  "pmm_free_page p addr =
     (if bitmap p = 0 \<or> addr = 0 then p
      else let page_addr = addr AND NOT (PAGE_SIZE - 1)
      in if page_addr < base_addr p then p
         else let page_idx = (ucast ((page_addr - base_addr p) div PAGE_SIZE) :: u32)
         in if page_idx \<ge> total_pages p then p
            else let byte_idx = unat (page_idx div 8); b = unat (page_idx mod 8)
            in if bit_test p byte_idx b
               then (bit_off p byte_idx b)\<lparr>used_pages := used_pages p - 1\<rparr>
               else p)"

section \<open>Ranges of pages\<close>

text \<open>The search keeps the length of the current free run and where it started.\<close>

datatype search = Found nat | Run nat nat

fun find_bits :: "nat list \<Rightarrow> nat \<Rightarrow> nat \<Rightarrow> pmm_t \<Rightarrow> nat \<Rightarrow> nat \<Rightarrow> search" where
  "find_bits [] byte count p continuous start = Run continuous start"
| "find_bits (b # bs) byte count p continuous start =
     (let page_idx = byte * 8 + b
      in if page_idx \<ge> unat (total_pages p) then Run continuous start
         else if \<not> bit_test p byte b then
           (let start = (if continuous = 0 then page_idx else start); continuous = continuous + 1
            in if continuous = count then Found start
               else find_bits bs byte count p continuous start)
         else find_bits bs byte count p 0 start)"

fun find_bytes :: "nat list \<Rightarrow> nat \<Rightarrow> pmm_t \<Rightarrow> nat \<Rightarrow> nat \<Rightarrow> nat option" where
  "find_bytes [] count p continuous start = None"
| "find_bytes (byte # rest) count p continuous start =
     (if bits p byte = 0xFF then find_bytes rest count p 0 start
      else case find_bits [0..<8] byte count p continuous start of
             Found s \<Rightarrow> Some s
           | Run c s \<Rightarrow> find_bytes rest count p c s)"

definition pmm_find_continuous_pages :: "pmm_t \<Rightarrow> u32 \<Rightarrow> u32" where
  "pmm_find_continuous_pages p count =
     (if count = 0 \<or> count > total_pages p then - 1
      else case find_bytes [0..<bitmap_bytes p] (unat count) p 0 0 of
             Some s \<Rightarrow> of_nat s
           | None \<Rightarrow> - 1)"

fun mark_pages :: "nat list \<Rightarrow> nat \<Rightarrow> bool \<Rightarrow> pmm_t \<Rightarrow> pmm_t" where
  "mark_pages [] start_page used p = p"
| "mark_pages (i # rest) start_page used p =
     (let page_idx = start_page + i; byte_idx = page_idx div 8; b = page_idx mod 8
      in if page_idx \<ge> unat (total_pages p) then p
         else mark_pages rest start_page used
           (if used then
              (if \<not> bit_test p byte_idx b
               then (bit_on p byte_idx b)\<lparr>used_pages := used_pages p + 1\<rparr> else p)
            else
              (if bit_test p byte_idx b
               then (bit_off p byte_idx b)\<lparr>used_pages := used_pages p - 1\<rparr> else p)))"

definition pmm_mark_range :: "pmm_t \<Rightarrow> u32 \<Rightarrow> u32 \<Rightarrow> bool \<Rightarrow> pmm_t" where
  "pmm_mark_range p start_page count used = mark_pages [0..<unat count] (unat start_page) used p"

text \<open>\<^verbatim>\<open>memset(addr, 0, page_count * PAGE_SIZE)\<close>, the product computed in 32 bits.\<close>

definition zero_pages :: "mem \<Rightarrow> u64 \<Rightarrow> u32 \<Rightarrow> mem" where
  "zero_pages mem addr page_count =
     (\<lambda>a. if a - addr < ucast (page_count * PAGE_SIZE) then 0 else mem a)"

definition pmm_alloc_range :: "pmm_t \<Rightarrow> mem \<Rightarrow> u32 \<Rightarrow> ptr \<times> pmm_t \<times> mem" where
  "pmm_alloc_range p mem page_count =
     (if page_count = 0 then (0, p, mem)
      else let start_page = pmm_find_continuous_pages p page_count
      in if start_page = - 1 then (0, p, mem)
         else let p = pmm_mark_range p start_page page_count True;
                  addr = base_addr p + ucast (start_page * PAGE_SIZE)
         in (addr, p, zero_pages mem addr page_count))"

definition pmm_free_range :: "pmm_t \<Rightarrow> ptr \<Rightarrow> u32 \<Rightarrow> pmm_t" where
  "pmm_free_range p addr page_count =
     (if addr = 0 \<or> page_count = 0 then p
      else let page_addr = addr AND NOT (PAGE_SIZE - 1)
      in if page_addr < base_addr p then p
         else let start_page = (ucast ((page_addr - base_addr p) div PAGE_SIZE) :: u32)
         in if start_page \<ge> total_pages p then p
            else pmm_mark_range p start_page page_count False)"

text \<open>The aligned search also remembers whether the current run began at an aligned page.\<close>

datatype asearch = AFound nat | ARun nat nat bool

fun afind_bits :: "nat list \<Rightarrow> nat \<Rightarrow> nat \<Rightarrow> nat \<Rightarrow> pmm_t \<Rightarrow> nat \<Rightarrow> nat \<Rightarrow> bool \<Rightarrow> asearch" where
  "afind_bits [] byte count align p continuous start ina = ARun continuous start ina"
| "afind_bits (b # bs) byte count align p continuous start ina =
     (let page_idx = byte * 8 + b
      in if page_idx \<ge> unat (total_pages p) then ARun continuous start ina
         else if \<not> ina \<and> page_idx mod align \<noteq> 0
         then afind_bits bs byte count align p continuous start ina
         else if \<not> bit_test p byte b then
           (let (start, ina) = (if continuous = 0 then (page_idx, True) else (start, ina));
                continuous = continuous + 1
            in if continuous = count then AFound start
               else afind_bits bs byte count align p continuous start ina)
         else afind_bits bs byte count align p 0 start False)"

fun afind_bytes :: "nat list \<Rightarrow> nat \<Rightarrow> nat \<Rightarrow> pmm_t \<Rightarrow> nat \<Rightarrow> nat \<Rightarrow> bool \<Rightarrow> nat option" where
  "afind_bytes [] count align p continuous start ina = None"
| "afind_bytes (byte # rest) count align p continuous start ina =
     (if bits p byte = 0xFF then afind_bytes rest count align p 0 start False
      else case afind_bits [0..<8] byte count align p continuous start ina of
             AFound s \<Rightarrow> Some s
           | ARun c s i \<Rightarrow> afind_bytes rest count align p c s i)"

definition pmm_alloc_aligned_range :: "pmm_t \<Rightarrow> mem \<Rightarrow> u32 \<Rightarrow> u32 \<Rightarrow> ptr \<times> pmm_t \<times> mem" where
  "pmm_alloc_aligned_range p mem page_count alignment_pages =
     (if page_count = 0 \<or> alignment_pages = 0 then (0, p, mem)
      else if alignment_pages AND (alignment_pages - 1) \<noteq> 0 then (0, p, mem)
      else case afind_bytes [0..<bitmap_bytes p] (unat page_count) (unat alignment_pages) p 0 0 False of
             None \<Rightarrow> (0, p, mem)
           | Some s \<Rightarrow>
               (let start_page = (of_nat s :: u32);
                    p = pmm_mark_range p start_page page_count True;
                    addr = base_addr p + ucast (start_page * PAGE_SIZE)
                in (addr, p, zero_pages mem addr page_count)))"

definition pmm_get_free_pages :: "pmm_t \<Rightarrow> u32" where
  "pmm_get_free_pages p = total_pages p - used_pages p"

definition pmm_get_used_pages :: "pmm_t \<Rightarrow> u32" where
  "pmm_get_used_pages p = used_pages p"

section \<open>Initialisation\<close>

text \<open>
  A loop \<^verbatim>\<open>for (addr = start; addr < end; addr += PAGE_SIZE)\<close> over 64-bit addresses. It does not
  end when \<open>addr\<close> wraps below \<open>end\<close>; then the model has no value.
\<close>

partial_function (option) page_loop :: "(u64 \<Rightarrow> pmm_t \<Rightarrow> pmm_t) \<Rightarrow> u64 \<Rightarrow> u64 \<Rightarrow> pmm_t \<Rightarrow> pmm_t option" where
  "page_loop f addr end p =
     (if addr < end then page_loop f (addr + PAGE_SIZE) end (f addr p) else Some p)"

definition scan_regions :: "memory_region_t list \<Rightarrow> u64 \<times> u64" where
  "scan_regions regions =
     fold (\<lambda>r (lowest, highest).
         if mr_type r = MULTIBOOT2_MMAP_AVAILABLE then
           (if mr_base_addr r < lowest then mr_base_addr r else lowest,
            if mr_base_addr r + mr_length r > highest then mr_base_addr r + mr_length r else highest)
         else (lowest, highest))
       regions (- 1, 0)"

definition align_bounds :: "u64 \<times> u64 \<Rightarrow> u64 \<times> u64" where
  "align_bounds lh =
     (case lh of (lowest, highest) \<Rightarrow>
       (if lowest AND (PAGE_SIZE - 1) \<noteq> 0 then (lowest + PAGE_SIZE - 1) AND NOT (PAGE_SIZE - 1) else lowest,
        if highest AND (PAGE_SIZE - 1) \<noteq> 0 then highest AND NOT (PAGE_SIZE - 1) else highest))"

definition init_free_page :: "u64 \<Rightarrow> u64 \<Rightarrow> u64 \<Rightarrow> pmm_t \<Rightarrow> pmm_t" where
  "init_free_page lowest highest addr p =
     (if addr \<ge> lowest \<and> addr < highest then
        (let page_idx = (ucast ((addr - base_addr p) div PAGE_SIZE) :: u32)
         in if page_idx < total_pages p
            then (bit_off p (unat (page_idx div 8)) (unat (page_idx mod 8)))
                   \<lparr>used_pages := used_pages p - 1\<rparr>
            else p)
      else p)"

definition init_reserve_page :: "u64 \<Rightarrow> u64 \<Rightarrow> u64 \<Rightarrow> pmm_t \<Rightarrow> pmm_t" where
  "init_reserve_page lowest highest addr p =
     (if addr \<ge> lowest \<and> addr < highest then
        (let page_idx = (ucast ((addr - base_addr p) div PAGE_SIZE) :: u32);
             byte_idx = unat (page_idx div 8); b = unat (page_idx mod 8)
         in if page_idx < total_pages p
            then (if \<not> bit_test p byte_idx b
                  then (bit_on p byte_idx b)\<lparr>used_pages := used_pages p + 1\<rparr> else p)
            else p)
      else p)"

fun init_free_regions :: "memory_region_t list \<Rightarrow> u64 \<Rightarrow> u64 \<Rightarrow> pmm_t \<Rightarrow> pmm_t option" where
  "init_free_regions [] lowest highest p = Some p"
| "init_free_regions (r # rs) lowest highest p =
     (if mr_type r = MULTIBOOT2_MMAP_AVAILABLE then
        (let start = (mr_base_addr r + PAGE_SIZE - 1) AND NOT (PAGE_SIZE - 1);
             end = (mr_base_addr r + mr_length r) AND NOT (PAGE_SIZE - 1)
         in case page_loop (init_free_page lowest highest) start end p of
              None \<Rightarrow> None
            | Some p \<Rightarrow> init_free_regions rs lowest highest p)
      else init_free_regions rs lowest highest p)"

text \<open>
  \<open>regions\<close> is the memory map the boot loader passed, \<open>kstart\<close> and \<open>kend\<close> are the linker symbols
  of the kernel image, \<open>mb2_size\<close> the word at \<open>mb2_addr\<close>, \<open>bm\<close> the address of the static bitmap.
\<close>

definition pmm_init ::
  "memory_region_t list \<Rightarrow> u64 \<Rightarrow> u64 \<Rightarrow> u64 \<Rightarrow> u32 \<Rightarrow> ptr \<Rightarrow> pmm_t \<Rightarrow> pmm_t option" where
  "pmm_init regions kstart kend mb2_addr mb2_size bm p =
     (let (lowest, highest) = align_bounds (scan_regions regions);
          total = (ucast ((highest - lowest) div PAGE_SIZE) :: u32);
          p = p\<lparr>bitmap := bm, base_addr := lowest, total_pages := total\<rparr>;
          p = p\<lparr>bits := (\<lambda>i. if i < bitmap_bytes p then 0xFF else bits p i), used_pages := total\<rparr>;
          reserve = init_reserve_page lowest highest;
          mb2_start = mb2_addr AND NOT (PAGE_SIZE - 1);
          mb2_end = (mb2_addr + ucast mb2_size + PAGE_SIZE - 1) AND NOT (PAGE_SIZE - 1)
      in do {
           p \<leftarrow> init_free_regions regions lowest highest p;
           p \<leftarrow> page_loop reserve 0 0x100000 p;
           p \<leftarrow> page_loop reserve kstart kend p;
           p \<leftarrow> page_loop reserve mb2_start mb2_end p;
           page_loop reserve bm (bm + of_nat (bitmap_bytes p)) p
         })"


definition page_used :: "pmm_t \<Rightarrow> nat \<Rightarrow> bool" where
  "page_used p i \<longleftrightarrow> bit (bits p (i div 8)) (i mod 8)"

abbreviation npages :: "pmm_t \<Rightarrow> nat" where
  "npages p \<equiv> unat (total_pages p)"

definition used_set :: "pmm_t \<Rightarrow> nat set" where
  "used_set p = {i. i < npages p \<and> page_used p i}"

definition pmm_inv :: "pmm_t \<Rightarrow> bool" where
  "pmm_inv p \<longleftrightarrow> bitmap p \<noteq> 0 \<and> npages p + 7 < 2 ^ 32 \<and> unat (used_pages p) = card (used_set p)"

lemma page_bit_eq: "b < 8 \<Longrightarrow> i = byte * 8 + b \<longleftrightarrow> i div 8 = byte \<and> i mod 8 = (b::nat)"
  by auto

lemma bit_u8_pow [simp]: "b < 8 \<Longrightarrow> bit (2 ^ b :: u8) n \<longleftrightarrow> n = b"
  by (auto simp: bit_exp_iff)

lemma bit_test_used [simp]: "b < 8 \<Longrightarrow> bit_test p byte b = page_used p (byte * 8 + b)"
  by (simp add: bit_test_def page_used_def bit_iff_and_push_bit_not_eq_0)

lemma bit_fields [simp]:
  "bitmap (bit_on p byte b) = bitmap p" "base_addr (bit_on p byte b) = base_addr p"
  "total_pages (bit_on p byte b) = total_pages p" "used_pages (bit_on p byte b) = used_pages p"
  "bitmap (bit_off p byte b) = bitmap p" "base_addr (bit_off p byte b) = base_addr p"
  "total_pages (bit_off p byte b) = total_pages p" "used_pages (bit_off p byte b) = used_pages p"
  by (simp_all add: bit_on_def bit_off_def)

lemma page_used_upd [simp]:
  "page_used (p\<lparr>used_pages := n\<rparr>) = page_used p"
  by (simp add: page_used_def fun_eq_iff)

lemma page_used_on [simp]:
  assumes "b < 8"
  shows "page_used (bit_on p byte b) i \<longleftrightarrow> page_used p i \<or> i = byte * 8 + b"
  using assms by (auto simp: page_used_def bit_on_def bit_or_iff page_bit_eq)

lemma page_used_off [simp]:
  assumes "b < 8"
  shows "page_used (bit_off p byte b) i \<longleftrightarrow> page_used p i \<and> i \<noteq> byte * 8 + b"
  using assms
  by (auto simp: page_used_def bit_off_def bit_and_iff bit_not_iff page_bit_eq)

lemma byte_full:
  assumes "bits p byte = 0xFF" "b < 8"
  shows "page_used p (byte * 8 + b)"
proof -
  have "(0xFF :: u8) = - 1" by simp
  with assms have "bits p byte = - 1" by (simp only:)
  with assms show ?thesis by (simp add: page_used_def bit_minus_1_iff)
qed

lemma byte_empty:
  assumes "bits p byte = 0"
  shows "\<not> page_used p (byte * 8)" "p\<lparr>bits := (bits p)(byte := 1)\<rparr> = bit_on p byte 0"
  using assms by (simp_all add: page_used_def bit_on_def)

lemma bitmap_bytes_eq:
  assumes "npages p + 7 < 2 ^ 32"
  shows "bitmap_bytes p = (npages p + 7) div 8"
  using assms by (simp add: bitmap_bytes_def unat_div unat_word_ariths)

lemma alloc_bits_Some:
  assumes "alloc_bits [b0..<8] byte p = (Some i, p')" "b0 \<le> 8"
  shows "byte * 8 + b0 \<le> i \<and> i < byte * 8 + 8 \<and> i < npages p \<and> \<not> page_used p i \<and>
         (\<forall>j. byte * 8 + b0 \<le> j \<and> j < i \<longrightarrow> page_used p j) \<and>
         p' = (bit_on p byte (i - byte * 8))\<lparr>used_pages := used_pages p + 1\<rparr>"
  using assms
proof (induction "8 - b0" arbitrary: b0 p)
  case 0
  then show ?case by simp
next
  case (Suc n)
  then have b: "b0 < 8" and upt: "[b0..<8] = b0 # [Suc b0..<8]" by (simp_all add: upt_conv_Cons)
  let ?i = "byte * 8 + b0"
  show ?case
  proof (cases "page_used p ?i")
    case True
    then have "alloc_bits [Suc b0..<8] byte p = (Some i, p')"
      using Suc.prems(1) b by (simp add: upt)
    from Suc.hyps(1) [OF _ this] Suc.hyps(2) b
    have *: "?i < i \<and> i < byte * 8 + 8 \<and> i < npages p \<and> \<not> page_used p i \<and>
        (\<forall>j. ?i < j \<and> j < i \<longrightarrow> page_used p j) \<and>
        p' = (bit_on p byte (i - byte * 8))\<lparr>used_pages := used_pages p + 1\<rparr>"
      by (auto simp: Suc_le_eq)
    moreover from * True have "\<forall>j. ?i \<le> j \<and> j < i \<longrightarrow> page_used p j" by (metis le_neq_implies_less)
    ultimately show ?thesis by simp
  next
    case False
    show ?thesis
    proof (cases "?i < npages p")
      case True
      then show ?thesis using False Suc.prems(1) b by (auto simp: upt Let_def)
    next
      case ge: False
      then have a: "alloc_bits [Suc b0..<8] byte (bit_on p byte b0) = (Some i, p')"
        using False Suc.prems(1) b by (simp add: upt Let_def)
      have "n = 8 - Suc b0" "Suc b0 \<le> 8" using Suc.hyps(2) b by simp_all
      from Suc.hyps(1) [OF this(1) a this(2)] ge show ?thesis by simp
    qed
  qed
qed

definition same_pages :: "pmm_t \<Rightarrow> pmm_t \<Rightarrow> bool" where
  "same_pages p q \<longleftrightarrow> bitmap q = bitmap p \<and> base_addr q = base_addr p \<and> total_pages q = total_pages p \<and>
     used_pages q = used_pages p \<and> (\<forall>j < npages p. page_used q j = page_used p j)"

lemma alloc_bits_None:
  assumes "alloc_bits [b0..<8] byte p = (None, p')" "b0 \<le> 8"
  shows "same_pages p p' \<and> (\<forall>j < npages p. byte * 8 + b0 \<le> j \<and> j < byte * 8 + 8 \<longrightarrow> page_used p j)"
  using assms
proof (induction "8 - b0" arbitrary: b0 p)
  case 0
  then show ?case by (auto simp: same_pages_def)
next
  case (Suc n)
  then have b: "b0 < 8" and upt: "[b0..<8] = b0 # [Suc b0..<8]" by (simp_all add: upt_conv_Cons)
  let ?i = "byte * 8 + b0"
  have step: "\<And>q. alloc_bits [Suc b0..<8] byte q = (None, p') \<Longrightarrow>
      same_pages q p' \<and> (\<forall>j < npages q. ?i + 1 \<le> j \<and> j < byte * 8 + 8 \<longrightarrow> page_used q j)"
    using Suc.hyps(1) [of "Suc b0"] Suc.hyps(2) b by auto
  show ?case
  proof (cases "page_used p ?i")
    case True
    with step [of p] Suc.prems(1) b show ?thesis
      by (auto simp: upt le_less Suc_le_eq)
  next
    case False
    with Suc.prems(1) b have ge: "npages p \<le> ?i"
      and "alloc_bits [Suc b0..<8] byte (bit_on p byte b0) = (None, p')"
      by (auto simp: upt Let_def split: if_splits)
    with step b show ?thesis by (fastforce simp: same_pages_def)
  qed
qed


lemma same_pages_refl [simp]: "same_pages p p"
  by (simp add: same_pages_def)

lemma same_pages_trans: "same_pages p q \<Longrightarrow> same_pages q r \<Longrightarrow> same_pages p r"
  by (simp add: same_pages_def)

lemma same_pages_on: "b < 8 \<Longrightarrow> npages p \<le> byte * 8 + b \<Longrightarrow> same_pages p (bit_on p byte b)"
  by (auto simp: same_pages_def)

text \<open>What a call of the page scan from byte \<open>k\<close> on returns.\<close>

definition took_page :: "pmm_t \<Rightarrow> nat \<Rightarrow> pmm_t \<Rightarrow> bool" where
  "took_page p i p' \<longleftrightarrow> i < npages p \<and> \<not> page_used p i \<and>
     bitmap p' = bitmap p \<and> base_addr p' = base_addr p \<and> total_pages p' = total_pages p \<and>
     used_pages p' = used_pages p + 1 \<and> (\<forall>j < npages p. page_used p' j \<longleftrightarrow> page_used p j \<or> j = i)"

lemma took_page_trans: "same_pages p q \<Longrightarrow> took_page q i p' \<Longrightarrow> took_page p i p'"
  unfolding took_page_def same_pages_def by auto

lemma took_page_on:
  assumes "b < 8" "byte * 8 + b < npages p" "\<not> page_used p (byte * 8 + b)"
  shows "took_page p (byte * 8 + b) ((bit_on p byte b)\<lparr>used_pages := used_pages p + 1\<rparr>)"
  using assms by (simp add: took_page_def)

lemma div8_iff: "j div 8 = k \<longleftrightarrow> k * 8 \<le> j \<and> j < k * 8 + (8::nat)"
  by auto

lemma alloc_bits_took:
  assumes "alloc_bits [0..<8] k p = (Some i, p')"
  shows "took_page p i p'" "i div 8 = k" "\<forall>j. k * 8 \<le> j \<and> j < i \<longrightarrow> page_used p j"
proof -
  note * = alloc_bits_Some [OF assms, simplified]
  then have b: "i - k * 8 < 8" "i = k * 8 + (i - k * 8)" by auto
  with * took_page_on [of "i - k * 8" k p] show "took_page p i p'" by simp
  show "i div 8 = k" using * by (simp add: div8_iff)
  show "\<forall>j. k * 8 \<le> j \<and> j < i \<longrightarrow> page_used p j" using * by blast
qed

lemma alloc_bits_kept:
  assumes "alloc_bits [0..<8] k p = (None, p')"
  shows "same_pages p p'" "\<forall>j < npages p. j div 8 = k \<longrightarrow> page_used p j"
  using alloc_bits_None [OF assms] by (simp_all add: div8_iff)

inductive byte_result :: "nat \<Rightarrow> pmm_t \<Rightarrow> nat option \<Rightarrow> pmm_t \<Rightarrow> bool" for k p where
  hit: "took_page p i p' \<Longrightarrow> i div 8 = k \<Longrightarrow> \<forall>j. k * 8 \<le> j \<and> j < i \<longrightarrow> page_used p j \<Longrightarrow>
    byte_result k p (Some i) p'"
| miss: "same_pages p p' \<Longrightarrow> \<forall>j < npages p. j div 8 = k \<longrightarrow> page_used p j \<Longrightarrow> byte_result k p None p'"

lemma byte_result_same:
  assumes "same_pages p q" "byte_result k q r p'"
  shows "byte_result k p r p'"
  using assms(2)
proof cases
  case (hit i)
  then have "\<forall>j. k * 8 \<le> j \<and> j < i \<longrightarrow> page_used p j"
    using assms(1) by (auto simp: same_pages_def took_page_def)
  with hit took_page_trans [OF assms(1)] show ?thesis by (auto intro: byte_result.hit)
next
  case miss
  then show ?thesis using assms(1) same_pages_trans [OF assms(1)]
    by (auto intro!: byte_result.miss simp: same_pages_def)
qed

lemma alloc_bits_result: "alloc_bits [0..<8] k p = (r, p') \<Longrightarrow> byte_result k p r p'"
  by (cases r) (simp_all add: byte_result.hit alloc_bits_took byte_result.miss alloc_bits_kept)

lemma alloc_bytes_step:
  "\<exists>r q. byte_result k p r q \<and>
     alloc_bytes (k # ks) p = (case r of Some i \<Rightarrow> (Some i, q) | None \<Rightarrow> alloc_bytes ks q)"
proof -
  have bits_case: "\<exists>r q'. byte_result k p r q' \<and>
      (case alloc_bits [0..<8] k q of (Some i, p) \<Rightarrow> (Some i, p) | (None, p) \<Rightarrow> alloc_bytes ks p)
        = (case r of Some i \<Rightarrow> (Some i, q') | None \<Rightarrow> alloc_bytes ks q')"
    if "same_pages p q" for q
  proof (cases "alloc_bits [0..<8] k q")
    case (Pair r q')
    from byte_result_same [OF that alloc_bits_result [OF this]] Pair
    show ?thesis by (intro exI [of _ r] exI [of _ q']) (simp split: option.split)
  qed
  consider (zero) "bits p k = 0" "k * 8 < npages p" | (tail) "bits p k = 0" "npages p \<le> k * 8"
    | (full) "bits p k = 0xFF" | (some) "bits p k \<noteq> 0" "bits p k \<noteq> 0xFF"
    by (cases "bits p k = 0"; cases "k * 8 < npages p"; cases "bits p k = 0xFF") simp_all
  then show ?thesis
  proof cases
    case zero
    have "byte_result k p (Some (k * 8)) ((bit_on p k 0)\<lparr>used_pages := used_pages p + 1\<rparr>)"
      using zero byte_empty(1) [of p k] took_page_on [of 0 k p] by (intro byte_result.hit) auto
    moreover have "alloc_bytes (k # ks) p = (Some (k * 8), (bit_on p k 0)\<lparr>used_pages := used_pages p + 1\<rparr>)"
      using zero by (simp add: Let_def byte_empty(2))
    ultimately show ?thesis by (metis option.simps(5))
  next
    case tail
    have "bits (bit_on p k 0) k \<noteq> 0xFF" using tail(1) by (simp add: bit_on_def)
    with tail bits_case [OF same_pages_on [of 0 p k]] show ?thesis
      by (simp add: Let_def byte_empty(2))
  next
    case full
    have "\<forall>j. j div 8 = k \<longrightarrow> page_used p j"
      using byte_full [OF full] by (metis div_mult_mod_eq mod_less_divisor zero_less_numeral)
    then have "byte_result k p None p" by (simp add: byte_result.miss)
    with full show ?thesis by (intro exI [of _ None] exI [of _ p]) (simp add: Let_def)
  next
    case some
    with bits_case [OF same_pages_refl] show ?thesis by (simp add: Let_def)
  qed
qed


lemma alloc_bytes_spec:
  assumes "alloc_bytes [k..<n] p = (r, p')" "k \<le> n"
  shows "case r of
           Some i \<Rightarrow> took_page p i p' \<and> (\<forall>j. k * 8 \<le> j \<and> j < i \<longrightarrow> page_used p j)
         | None \<Rightarrow> same_pages p p' \<and> (\<forall>j < npages p. k * 8 \<le> j \<and> j < n * 8 \<longrightarrow> page_used p j)"
  using assms
proof (induction "n - k" arbitrary: k p)
  case 0
  then show ?case by auto
next
  case (Suc d)
  then have k: "k < n" and upt: "[k..<n] = k # [Suc k..<n]" by (simp_all add: upt_conv_Cons)
  from alloc_bytes_step [of k p "[Suc k..<n]"] obtain o' q where o: "byte_result k p o' q"
    and eq: "alloc_bytes [k..<n] p = (case o' of Some i \<Rightarrow> (Some i, q) | None \<Rightarrow> alloc_bytes [Suc k..<n] q)"
    unfolding upt by blast
  from o show ?case
  proof cases
    case (hit i)
    with eq Suc.prems(1) show ?thesis by simp
  next
    case miss
    have "alloc_bytes [Suc k..<n] q = (r, p')" using eq Suc.prems(1) miss(1) by simp
    moreover have "d = n - Suc k" "Suc k \<le> n" using Suc.hyps(2) k by simp_all
    ultimately have IH: "case r of
           Some i \<Rightarrow> took_page q i p' \<and> (\<forall>j. Suc k * 8 \<le> j \<and> j < i \<longrightarrow> page_used q j)
         | None \<Rightarrow> same_pages q p' \<and> (\<forall>j < npages q. Suc k * 8 \<le> j \<and> j < n * 8 \<longrightarrow> page_used q j)"
      using Suc.hyps(1) by blast
    have this_byte: "page_used p j" if "j < npages p" "k * 8 \<le> j" "j < Suc k * 8" for j
      using miss that by (simp add: div8_iff)
    show ?thesis
    proof (cases r)
      case None
      with IH miss this_byte show ?thesis
        by (auto simp: same_pages_def) (metis not_less)
    next
      case (Some i)
      with IH miss this_byte show ?thesis
        by (auto simp: same_pages_def took_page_def) (metis not_less order.strict_trans)
    qed
  qed
qed

lemma used_set_took: "took_page p i p' \<Longrightarrow> used_set p' = insert i (used_set p)"
  by (auto simp: took_page_def used_set_def)

lemma used_set_same: "same_pages p q \<Longrightarrow> used_set q = used_set p"
  by (auto simp: same_pages_def used_set_def)

lemma used_set_finite [simp]: "finite (used_set p)" and used_set_bound: "card (used_set p) \<le> npages p"
proof -
  have sub: "used_set p \<subseteq> {..<npages p}" by (auto simp: used_set_def)
  then show "finite (used_set p)" by (rule finite_subset) simp
  from card_mono [OF _ sub] show "card (used_set p) \<le> npages p" by simp
qed

lemma used_set_free_bound:
  assumes "i < npages p" "\<not> page_used p i"
  shows "card (used_set p) < npages p"
proof -
  have "used_set p \<subset> {..<npages p}" using assms by (auto simp: used_set_def)
  from psubset_card_mono [OF _ this] show ?thesis by simp
qed

lemma inv_same: "pmm_inv p \<Longrightarrow> same_pages p q \<Longrightarrow> pmm_inv q"
  using used_set_same by (simp add: pmm_inv_def) (simp add: same_pages_def)

lemma inv_took:
  assumes "pmm_inv p" "took_page p i p'"
  shows "pmm_inv p'"
proof -
  have "i \<notin> used_set p" "card (used_set p) < npages p"
    using assms(2) used_set_free_bound by (auto simp: took_page_def used_set_def)
  with assms used_set_took [OF assms(2)] show ?thesis
    by (auto simp: pmm_inv_def took_page_def unat_word_ariths)
qed

lemma took_page_nth:
  assumes "i < npages p" "\<not> page_used p i"
  shows "took_page p i ((bit_on p (i div 8) (i mod 8))\<lparr>used_pages := used_pages p + 1\<rparr>)"
  using took_page_on [of "i mod 8" "i div 8" p] assms by simp

lemma inv_release:
  assumes "pmm_inv p" "i < npages p" "page_used p i"
    and "p' = (bit_off p (i div 8) (i mod 8))\<lparr>used_pages := used_pages p - 1\<rparr>"
  shows "pmm_inv p'" "used_set p' = used_set p - {i}"
proof -
  show s: "used_set p' = used_set p - {i}" using assms(4) by (auto simp: used_set_def)
  have i: "i \<in> used_set p" using assms by (simp add: used_set_def)
  then have "0 < card (used_set p)" by (auto simp: card_gt_0_iff)
  then have "1 \<le> used_pages p" using assms(1) by (simp add: pmm_inv_def word_le_nat_alt)
  then have "unat (used_pages p - 1) = unat (used_pages p) - 1" by (simp add: unat_sub)
  with assms i s show "pmm_inv p'" by (auto simp: pmm_inv_def)
qed


lemma pmm_alloc_page_cases:
  assumes "pmm_inv p" "pmm_alloc_page p = (a, p')"
  obtains (got) i where "took_page p i p'" "\<forall>j < i. page_used p j" "a = page_addr p i"
  | (none) "same_pages p p'" "used_set p = {..<npages p}" "a = 0"
proof (cases "alloc_bytes [0..<bitmap_bytes p] p")
  case (Pair r q)
  note spec = alloc_bytes_spec [OF Pair, simplified]
  have bm: "bitmap p \<noteq> 0" and bb: "npages p \<le> bitmap_bytes p * 8"
    using assms(1) bitmap_bytes_eq [of p] by (auto simp: pmm_inv_def)
  show ?thesis
  proof (cases r)
    case None
    with Pair assms(2) bm have "a = 0" "p' = q" by (simp_all add: pmm_alloc_page_def)
    with None spec bb none show ?thesis by (force simp: used_set_def)
  next
    case (Some i)
    with Pair assms(2) bm have "a = page_addr q i" "p' = q" by (auto simp: pmm_alloc_page_def)
    moreover from Some spec have "took_page p i q" "\<forall>j < i. page_used p j" by auto
    moreover from this(1) have "page_addr q i = page_addr p i"
      by (simp add: page_addr_def took_page_def)
    ultimately show ?thesis using got by simp
  qed
qed

lemma page_addr_alias: "page_addr p (i + 2 ^ 20) = page_addr p i"
proof -
  have "(of_nat (2 ^ 20 * 4096) :: u32) = 0" unfolding word_of_nat_eq_0_iff by simp
  then have "(of_nat (i + 2 ^ 20) * PAGE_SIZE :: u32) = of_nat i * PAGE_SIZE"
    unfolding of_nat_add distrib_right of_nat_mult by (simp del: of_nat_power)
  then show ?thesis by (simp only: page_addr_def)
qed

lemma page_offset_small:
  assumes "i < 2 ^ 20"
  shows "unat (ucast (of_nat i * PAGE_SIZE :: u32) :: u64) = i * 4096"
  using assms by (simp add: unat_ucast_up unat_word_ariths unat_of_nat)


section \<open>The search for a run\<close>

text \<open>The search page by page, with no bytes: what the nested loops compute.\<close>

fun scan_pages :: "nat list \<Rightarrow> nat \<Rightarrow> nat \<Rightarrow> pmm_t \<Rightarrow> nat \<Rightarrow> nat \<Rightarrow> bool \<Rightarrow> asearch" where
  "scan_pages [] count align p c s ina = ARun c s ina"
| "scan_pages (i # is) count align p c s ina =
     (if \<not> ina \<and> i mod align \<noteq> 0 then scan_pages is count align p c s ina
      else if page_used p i then scan_pages is count align p 0 s False
      else let s' = (if c = 0 then i else s)
        in if c + 1 = count then AFound s' else scan_pages is count align p (c + 1) s' (c = 0 \<or> ina))"

lemma scan_pages_append:
  "scan_pages (xs @ ys) count align p c s ina =
     (case scan_pages xs count align p c s ina of
        AFound t \<Rightarrow> AFound t | ARun c s ina \<Rightarrow> scan_pages ys count align p c s ina)"
  by (induction xs arbitrary: c s ina) (simp_all add: Let_def)

lemma afind_bits_scan:
  assumes "b0 \<le> 8"
  shows "afind_bits [b0..<8] byte count align p c s ina =
     scan_pages [byte * 8 + b0..<min (byte * 8 + 8) (npages p)] count align p c s ina"
  using assms
proof (induction "8 - b0" arbitrary: b0 c s ina)
  case 0
  then show ?case by simp
next
  case (Suc n)
  then have b: "b0 < 8" and upt: "[b0..<8] = b0 # [Suc b0..<8]" by (simp_all add: upt_conv_Cons)
  let ?i = "byte * 8 + b0" and ?e = "min (byte * 8 + 8) (npages p)"
  have IH: "afind_bits [Suc b0..<8] byte count align p c s ina =
     scan_pages [Suc ?i..<?e] count align p c s ina" for c s ina
    using Suc.hyps b by simp
  show ?case
  proof (cases "?i < npages p")
    case True
    with b have "[?i..<?e] = ?i # [Suc ?i..<?e]" by (simp add: upt_conv_Cons)
    with True b IH show ?thesis by (simp add: upt Let_def split: prod.split)
  next
    case False
    with b show ?thesis by (simp add: upt Let_def)
  qed
qed

lemma scan_pages_all_used:
  assumes "\<forall>i \<in> set is. page_used p i" "\<not> ina \<longrightarrow> c = 0" "is \<noteq> [] \<or> \<not> ina"
  shows "scan_pages is count align p c s ina = ARun 0 s False"
  using assms
  by (induction "is" count align p c s ina rule: scan_pages.induct) (auto split: if_splits)

text \<open>Runs of free pages, and the invariant of the scan before page \<open>pos\<close>.\<close>

definition free_run :: "pmm_t \<Rightarrow> nat \<Rightarrow> nat \<Rightarrow> bool" where
  "free_run p s count \<longleftrightarrow> s + count \<le> npages p \<and> (\<forall>j. s \<le> j \<and> j < s + count \<longrightarrow> \<not> page_used p j)"

definition scan_inv :: "pmm_t \<Rightarrow> nat \<Rightarrow> nat \<Rightarrow> nat \<Rightarrow> nat \<Rightarrow> nat \<Rightarrow> bool \<Rightarrow> bool" where
  "scan_inv p count align pos c s ina \<longleftrightarrow>
     c < count \<and> c \<le> pos \<and> (ina \<longleftrightarrow> 0 < c) \<and> (0 < c \<longrightarrow> s = pos - c \<and> s mod align = 0) \<and>
     (\<forall>j. pos - c \<le> j \<and> j < pos \<longrightarrow> \<not> page_used p j)"

definition scan_post :: "pmm_t \<Rightarrow> nat \<Rightarrow> nat \<Rightarrow> nat \<Rightarrow> nat \<Rightarrow> asearch \<Rightarrow> bool" where
  "scan_post p count align from n r \<longleftrightarrow>
     (case r of
        AFound t \<Rightarrow> from \<le> t \<and> t mod align = 0 \<and> t + count \<le> n \<and>
          (\<forall>j. t \<le> j \<and> j < t + count \<longrightarrow> \<not> page_used p j) \<and>
          (\<forall>t'. from \<le> t' \<and> t' < t \<and> t' mod align = 0 \<longrightarrow> (\<exists>j. t' \<le> j \<and> j < t' + count \<and> page_used p j))
      | ARun c s ina \<Rightarrow>
          (\<forall>t'. from \<le> t' \<and> t' + count \<le> n \<and> t' mod align = 0 \<longrightarrow>
                (\<exists>j. t' \<le> j \<and> j < t' + count \<and> page_used p j)))"

lemma scan_post_earlier:
  assumes "scan_post p count align k' n r" "k \<le> k'"
    and "\<And>t. k \<le> t \<Longrightarrow> t < k' \<Longrightarrow> t mod align = 0 \<Longrightarrow> \<exists>j. t \<le> j \<and> j < t + count \<and> page_used p j"
  shows "scan_post p count align k n r"
  using assms unfolding scan_post_def
  by (cases r) (simp_all, (metis le_trans not_le)+)

lemma scan_pages_inv:
  assumes "scan_inv p count align pos c s ina" "pos \<le> n"
  shows "scan_post p count align (pos - c) n (scan_pages [pos..<n] count align p c s ina)"
  using assms
proof (induction "n - pos" arbitrary: pos c s ina)
  case 0
  then show ?case by (auto simp: scan_inv_def scan_post_def)
next
  case (Suc d)
  then have lt: "pos < n" and upt: "[pos..<n] = pos # [Suc pos..<n]" by (simp_all add: upt_conv_Cons)
  have IH: "scan_inv p count align (Suc pos) c s ina \<Longrightarrow>
    scan_post p count align (Suc pos - c) n (scan_pages [Suc pos..<n] count align p c s ina)" for c s ina
    using Suc.hyps lt by simp
  note inv = Suc.prems(1) [unfolded scan_inv_def]
  consider (skip) "\<not> ina" "pos mod align \<noteq> 0" | (used) "\<not> (\<not> ina \<and> 0 < pos mod align)" "page_used p pos"
    | (free) "\<not> (\<not> ina \<and> 0 < pos mod align)" "\<not> page_used p pos" by blast
  then show ?case
  proof cases
    case skip
    with inv have "scan_inv p count align (Suc pos) c s ina" "c = 0" by (auto simp: scan_inv_def)
    moreover have "t \<noteq> pos" if "t mod align = 0" for t using skip(2) that by auto
    ultimately have "scan_post p count align pos n (scan_pages [Suc pos..<n] count align p c s ina)"
      by (intro scan_post_earlier [OF IH, of c s ina pos]) (auto simp: less_Suc_eq)
    with skip \<open>c = 0\<close> show ?thesis by (simp add: upt)
  next
    case used
    with inv have "scan_inv p count align (Suc pos) 0 s False" by (auto simp: scan_inv_def)
    moreover have "\<exists>j. t \<le> j \<and> j < t + count \<and> page_used p j" if "pos - c \<le> t" "t < Suc pos" for t
      using that inv used by (intro exI [of _ pos]) auto
    ultimately show ?thesis
      using scan_post_earlier [OF IH, of 0 s False "pos - c"] used by (auto simp: upt)
  next
    case free
    let ?s = "if c = 0 then pos else s"
    have s: "?s = pos - c" "?s mod align = 0" using inv free by (auto split: if_splits)
    have run: "\<not> page_used p j" if "pos - c \<le> j" "j < Suc pos" for j
      using that inv free by (cases "j = pos") auto
    show ?thesis
    proof (cases "Suc c = count")
      case True
      with inv lt run s have "scan_post p count align (pos - c) n (AFound ?s)"
        unfolding scan_post_def s(1) by auto
      with True free show ?thesis by (auto simp: upt Let_def)
    next
      case False
      with inv s run have "scan_inv p count align (Suc pos) (Suc c) ?s (c = 0 \<or> ina)"
        unfolding scan_inv_def s(1) by auto
      from IH [OF this] free False show ?thesis by (auto simp: upt Let_def)
    qed
  qed
qed


lemma scan_pages_idle:
  assumes "scan_pages is count align p c s ina = ARun c' s' ina'" "\<not> ina \<longrightarrow> c = 0"
  shows "\<not> ina' \<longrightarrow> c' = 0"
  using assms by (induction "is" arbitrary: c s ina) (auto simp: Let_def split: if_splits)

lemma afind_bytes_scan:
  assumes "\<forall>k < n. k * 8 < npages p" "k \<le> n" "\<not> ina \<longrightarrow> c = 0"
  shows "afind_bytes [k..<n] count align p c s ina =
     (case scan_pages [k * 8..<min (n * 8) (npages p)] count align p c s ina of
        AFound t \<Rightarrow> Some t | ARun _ _ _ \<Rightarrow> None)"
  using assms(2,3)
proof (induction "n - k" arbitrary: k c s ina)
  case 0
  then show ?case by simp
next
  case (Suc d)
  then have k: "k < n" and upt: "[k..<n] = k # [Suc k..<n]" by (simp_all add: upt_conv_Cons)
  let ?m = "min (k * 8 + 8) (npages p)" and ?e = "min (n * 8) (npages p)"
  have "k * 8 < npages p" using assms(1) k by blast
  then have le: "k * 8 < ?m" "?m \<le> ?e" using k by auto
  have split: "[k * 8..<?e] = [k * 8..<?m] @ [?m..<?e]"
    using le by (metis le_add_diff_inverse less_imp_le upt_add_eq_append)
  have tail: "[?m..<?e] = [Suc k * 8..<?e]" by (auto simp: min_def add.commute)
  have IH: "\<not> ina \<longrightarrow> c = 0 \<Longrightarrow> afind_bytes [Suc k..<n] count align p c s ina =
     (case scan_pages [?m..<?e] count align p c s ina of AFound t \<Rightarrow> Some t | ARun _ _ _ \<Rightarrow> None)" for c s ina
    unfolding tail using Suc.hyps(1) [of "Suc k"] Suc.hyps(2) k by simp
  show ?case
  proof (cases "bits p k = 0xFF")
    case True
    have "\<forall>i \<in> set [k * 8..<?m]. page_used p i"
    proof
      fix i assume "i \<in> set [k * 8..<?m]"
      then have "i - k * 8 < 8" "i = k * 8 + (i - k * 8)" by auto
      with byte_full [OF True this(1)] show "page_used p i" by simp
    qed
    with scan_pages_all_used [of "[k * 8..<?m]" p ina c count align s] Suc.prems(2) le
    have "scan_pages [k * 8..<?m] count align p c s ina = ARun 0 s False" by simp
    with True IH [of False 0 s] show ?thesis by (simp add: upt split scan_pages_append)
  next
    case False
    show ?thesis
    proof (cases "scan_pages [k * 8..<?m] count align p c s ina")
      case (AFound t)
      with False show ?thesis by (simp add: upt split scan_pages_append afind_bits_scan)
    next
      case (ARun c' s' ina')
      with IH [OF scan_pages_idle [OF ARun Suc.prems(2)]] False show ?thesis
        by (simp add: upt split scan_pages_append afind_bits_scan)
    qed
  qed
qed

lemma afind_bytes_post:
  assumes "npages p + 7 < 2 ^ 32" "0 < count"
  shows "scan_post p count align 0 (npages p)
     (case afind_bytes [0..<bitmap_bytes p] count align p 0 0 False of Some t \<Rightarrow> AFound t | None \<Rightarrow> ARun 0 0 False)"
proof -
  have bb: "bitmap_bytes p = (npages p + 7) div 8" by (rule bitmap_bytes_eq [OF assms(1)])
  have "\<forall>k < bitmap_bytes p. k * 8 < npages p" "min (bitmap_bytes p * 8) (npages p) = npages p"
    unfolding bb by auto
  moreover have "scan_inv p count align 0 0 0 False" using assms(2) by (simp add: scan_inv_def)
  ultimately show ?thesis
    using scan_pages_inv [of p count align 0 0 0 False "npages p"]
    by (auto simp: afind_bytes_scan scan_post_def split: asearch.splits)
qed

text \<open>The unaligned search is the aligned one with alignment 1.\<close>

lemma find_bits_aligned:
  "find_bits bs byte count p c s =
     (case afind_bits bs byte count 1 p c s ina of AFound t \<Rightarrow> Found t | ARun c s _ \<Rightarrow> Run c s)"
  by (induction bs arbitrary: c s ina) (simp_all add: Let_def)

lemma find_bytes_aligned: "find_bytes ks count p c s = afind_bytes ks count 1 p c s ina"
proof (induction ks arbitrary: c s ina)
  case (Cons k ks)
  show ?case
    using Cons find_bits_aligned [of "[0..<8]" k count p c s ina] by (simp split: asearch.split)
qed simp


text \<open>One turn of the loop of \<^verbatim>\<open>pmm_mark_range\<close>.\<close>

definition set_page :: "pmm_t \<Rightarrow> nat \<Rightarrow> bool \<Rightarrow> pmm_t" where
  "set_page p i used =
     (if used then
        (if \<not> page_used p i
         then (bit_on p (i div 8) (i mod 8))\<lparr>used_pages := used_pages p + 1\<rparr> else p)
      else
        (if page_used p i
         then (bit_off p (i div 8) (i mod 8))\<lparr>used_pages := used_pages p - 1\<rparr> else p))"

lemma set_page_fields [simp]:
  "base_addr (set_page p i used) = base_addr p" "total_pages (set_page p i used) = total_pages p"
  by (simp_all add: set_page_def)

lemma inv_set_page:
  assumes "pmm_inv p" "i < npages p"
  shows "pmm_inv (set_page p i used)"
  using assms(1) inv_took [OF assms(1) took_page_nth [OF assms(2)]] inv_release(1) [OF assms(1,2) _ refl]
  by (cases used; cases "page_used p i") (simp_all add: set_page_def)

lemma used_set_page:
  assumes "pmm_inv p" "i < npages p"
  shows "used_set (set_page p i used) = (if used then insert i (used_set p) else used_set p - {i})"
  using assms(2) used_set_took [OF took_page_nth [OF assms(2)]] inv_release(2) [OF assms(1,2) _ refl]
  by (cases used; cases "page_used p i") (simp_all add: set_page_def, auto simp: used_set_def)

definition page_range :: "pmm_t \<Rightarrow> nat \<Rightarrow> nat \<Rightarrow> nat set" where
  "page_range p s e = {s..<e} \<inter> {..<npages p}"

lemma mark_pages_spec:
  assumes "pmm_inv p" "i \<le> n"
  shows "pmm_inv (mark_pages [i..<n] st used p) \<and>
     base_addr (mark_pages [i..<n] st used p) = base_addr p \<and>
     total_pages (mark_pages [i..<n] st used p) = total_pages p \<and>
     used_set (mark_pages [i..<n] st used p) =
       (if used then used_set p \<union> page_range p (st + i) (st + n)
        else used_set p - page_range p (st + i) (st + n))"
  using assms
proof (induction "n - i" arbitrary: i p)
  case 0
  then show ?case by (simp add: page_range_def)
next
  case (Suc d)
  then have lt: "i < n" and upt: "[i..<n] = i # [Suc i..<n]" by (simp_all add: upt_conv_Cons)
  let ?k = "st + i"
  show ?case
  proof (cases "?k < npages p")
    case False
    then have "mark_pages [i..<n] st used p = p" "page_range p (st + i) (st + n) = {}"
      by (auto simp: upt Let_def page_range_def)
    with Suc.prems show ?thesis by simp
  next
    case True
    let ?q = "set_page p ?k used"
    have step: "mark_pages [i..<n] st used p = mark_pages [Suc i..<n] st used ?q"
      using True by (simp add: upt Let_def set_page_def)
    have range: "page_range p (st + i) (st + n) = insert ?k (page_range ?q (st + Suc i) (st + n))"
      using True lt by (auto simp: page_range_def)
    have IH: "d = n - Suc i" "Suc i \<le> n" using Suc.hyps(2) lt by simp_all
    show ?thesis
      using Suc.hyps(1) [OF IH(1) inv_set_page [OF Suc.prems(1) True] IH(2)]
      unfolding step range used_set_page [OF Suc.prems(1) True] by auto
  qed
qed

lemma pmm_mark_range_spec:
  assumes "pmm_inv p"
  shows "pmm_inv (pmm_mark_range p s n used)"
    "base_addr (pmm_mark_range p s n used) = base_addr p"
    "total_pages (pmm_mark_range p s n used) = total_pages p"
    "used_set (pmm_mark_range p s n used) =
       (if used then used_set p \<union> page_range p (unat s) (unat s + unat n)
        else used_set p - page_range p (unat s) (unat s + unat n))"
  using mark_pages_spec [OF assms, of 0 "unat n" "unat s" used]
  by (simp_all add: pmm_mark_range_def)

definition first_run :: "pmm_t \<Rightarrow> nat \<Rightarrow> nat \<Rightarrow> nat \<Rightarrow> bool" where
  "first_run p count align s \<longleftrightarrow>
     free_run p s count \<and> s mod align = 0 \<and> (\<forall>t < s. t mod align = 0 \<longrightarrow> \<not> free_run p t count)"

lemma afind_bytes_Some:
  assumes "npages p + 7 < 2 ^ 32" "0 < count"
    "afind_bytes [0..<bitmap_bytes p] count align p 0 0 False = Some s"
  shows "first_run p count align s"
  using afind_bytes_post [OF assms(1,2), of align] assms(3)
  by (auto simp: scan_post_def first_run_def free_run_def)

lemma afind_bytes_None:
  assumes "npages p + 7 < 2 ^ 32" "0 < count"
    "afind_bytes [0..<bitmap_bytes p] count align p 0 0 False = None"
  shows "t mod align = 0 \<Longrightarrow> \<not> free_run p t count"
  using afind_bytes_post [OF assms(1,2), of align] assms(3)
  by (auto simp: scan_post_def free_run_def)

lemma pmm_find_cases:
  assumes "npages p + 7 < 2 ^ 32" "count \<noteq> 0"
  obtains (found) s where "first_run p (unat count) 1 s" "pmm_find_continuous_pages p count = of_nat s"
      "unat (of_nat s :: u32) = s" "of_nat s \<noteq> (- 1 :: u32)"
  | (none) "\<forall>s. \<not> free_run p s (unat count)" "pmm_find_continuous_pages p count = - 1"
proof (cases "count > total_pages p")
  case True
  then have "npages p < unat count" by (simp add: word_less_nat_alt)
  with True none show ?thesis by (auto simp: free_run_def pmm_find_continuous_pages_def)
next
  case False
  have c: "0 < unat count" using assms(2) by (simp add: unat_gt_0)
  let ?f = "afind_bytes [0..<bitmap_bytes p] (unat count) 1 p 0 0 False"
  have eq: "pmm_find_continuous_pages p count = (case ?f of Some s \<Rightarrow> of_nat s | None \<Rightarrow> - 1)"
    using False assms(2) by (simp add: pmm_find_continuous_pages_def find_bytes_aligned [where ina = False])
  show ?thesis
  proof (cases ?f)
    case None
    with afind_bytes_None [OF assms(1) c None] eq none show ?thesis by simp
  next
    case (Some s)
    note run = afind_bytes_Some [OF assms(1) c Some]
    then have "s + 7 < 2 ^ 32" using assms(1) by (auto simp: first_run_def free_run_def)
    then have s: "unat (of_nat s :: u32) = s" by (simp add: unat_of_nat)
    moreover have "of_nat s \<noteq> (- 1 :: u32)" 
    proof
      assume "of_nat s = (- 1 :: u32)"
      then have "s = unat (- 1 :: u32)" using s by simp
      then show False using \<open>s + 7 < 2 ^ 32\<close>
        by (simp add: unsigned_minus_1_eq_mask mask_eq_exp_minus_1)
    qed
    ultimately show ?thesis using run eq Some found by simp
  qed
qed


lemma and_not_mask: "x AND NOT (mask n) = x - take_bit n (x :: 'a::len word)"
proof -
  have "x AND NOT (mask n) = push_bit n (drop_bit n x)"
    by (rule bit_eqI) (auto simp: bit_simps)
  then show ?thesis using bits_ident [of n x] by (simp add: eq_diff_eq)
qed

lemma unat_and_not_mask: "unat (x AND NOT (mask n) :: 'a::len word) = unat x - unat x mod 2 ^ n"
proof -
  have "unat (take_bit n x) = unat x mod 2 ^ n" unfolding unsigned_take_bit_eq by (rule take_bit_nat_def)
  moreover from this have "take_bit n x \<le> x" by (simp add: word_le_nat_alt)
  ultimately show ?thesis by (simp add: and_not_mask unat_sub)
qed

lemma unat_page_down: "unat (x AND NOT (PAGE_SIZE - 1) :: u64) = unat x - unat x mod 4096"
proof -
  have "(PAGE_SIZE - 1 :: u64) = mask 12" by (simp add: mask_eq_exp_minus_1)
  then show ?thesis by (simp only: unat_and_not_mask) simp
qed

lemma first_run_range: "first_run p count align s \<Longrightarrow> page_range p s (s + count) = {s..<s + count}"
  by (auto simp: first_run_def free_run_def page_range_def)

lemma zero_pages_eq:
  assumes "unat count < 2 ^ 20"
  shows "zero_pages mem a count x = (if unat (x - a) < unat count * 4096 then 0 else mem x)"
proof -
  have "unat (ucast (count * PAGE_SIZE) :: u64) = unat count * 4096"
    using assms by (simp add: unat_ucast_up unat_word_ariths)
  then show ?thesis by (simp add: zero_pages_def word_less_nat_alt)
qed

lemma claim_run:
  assumes "pmm_inv p" "first_run p (unat count) align s" "unat (of_nat s :: u32) = s"
  defines "q \<equiv> pmm_mark_range p (of_nat s) count True"
  shows "pmm_inv q" "used_set q = used_set p \<union> {s..<s + unat count}"
    "base_addr q + ucast (of_nat s * PAGE_SIZE :: u32) = page_addr p s"
    "base_addr q = base_addr p" "total_pages q = total_pages p"
  using pmm_mark_range_spec [OF assms(1), of "of_nat s" count True] first_run_range [OF assms(2)] assms(3)
  by (simp_all add: q_def page_addr_def)

lemma pmm_alloc_range_cases:
  assumes "pmm_inv p" "count \<noteq> 0"
  obtains (got) s q where "first_run p (unat count) 1 s" "pmm_inv q"
      "used_set q = used_set p \<union> {s..<s + unat count}" "base_addr q = base_addr p" "total_pages q = total_pages p"
      "pmm_alloc_range p mem count = (page_addr p s, q, zero_pages mem (page_addr p s) count)"
  | (none) "\<forall>s. \<not> free_run p s (unat count)" "pmm_alloc_range p mem count = (0, p, mem)"
proof -
  have N: "npages p + 7 < 2 ^ 32" using assms(1) by (simp add: pmm_inv_def)
  from N assms(2) show ?thesis
  proof (cases rule: pmm_find_cases)
    case (found s)
    note c = claim_run [OF assms(1) found(1,3)]
    from got [OF found(1) c(1,2,4,5)] found c(3) assms(2) show ?thesis
      by (simp add: pmm_alloc_range_def Let_def)
  next
    case none
    with that(2) assms(2) show ?thesis by (simp add: pmm_alloc_range_def)
  qed
qed

lemma pmm_alloc_aligned_cases:
  assumes "pmm_inv p" "count \<noteq> 0" "align \<noteq> 0" "align AND (align - 1) = 0"
  obtains (got) s q where "first_run p (unat count) (unat align) s" "pmm_inv q"
      "used_set q = used_set p \<union> {s..<s + unat count}"
      "pmm_alloc_aligned_range p mem count align = (page_addr p s, q, zero_pages mem (page_addr p s) count)"
  | (none) "\<forall>s. s mod unat align = 0 \<longrightarrow> \<not> free_run p s (unat count)"
      "pmm_alloc_aligned_range p mem count align = (0, p, mem)"
proof (cases "afind_bytes [0..<bitmap_bytes p] (unat count) (unat align) p 0 0 False")
  have c: "0 < unat count" "npages p + 7 < 2 ^ 32"
    using assms(1,2) by (simp_all add: unat_gt_0 pmm_inv_def)
  {
    case None
    from afind_bytes_None [OF c(2,1) None] none None assms show ?thesis
      by (simp add: pmm_alloc_aligned_range_def)
  next
    case (Some s)
    note run = afind_bytes_Some [OF c(2,1) Some]
    then have "unat (of_nat s :: u32) = s"
      using c(2) by (simp add: unat_of_nat first_run_def free_run_def)
    note q = claim_run [OF assms(1) run this]
    from got [OF run q(1,2)] Some q(3) assms show ?thesis
      by (simp add: pmm_alloc_aligned_range_def Let_def)
  }
qed



text \<open>The addresses of the pages do not overlap and do not wrap.\<close>

definition pmm_addr_ok :: "pmm_t \<Rightarrow> bool" where
  "pmm_addr_ok p \<longleftrightarrow> npages p \<le> 2 ^ 20 \<and> 4096 dvd unat (base_addr p) \<and>
     unat (base_addr p) + npages p * 4096 < 2 ^ 64"

lemma unat_page_addr:
  assumes "pmm_addr_ok p" "i < npages p"
  shows "unat (page_addr p i) = unat (base_addr p) + i * 4096"
proof -
  have "i < 2 ^ 20" using assms by (simp add: pmm_addr_ok_def)
  note off = page_offset_small [OF this]
  have "unat (base_addr p) + npages p * 4096 < 2 ^ 64" using assms(1) by (simp only: pmm_addr_ok_def)
  then have "unat (base_addr p) + i * 4096 < 2 ^ LENGTH(64)" using assms(2) by simp
  with unat_add_lem [of "base_addr p" "ucast (of_nat i * PAGE_SIZE :: u32)"] show ?thesis
    unfolding page_addr_def off by simp
qed

lemma page_addr_inj:
  assumes "pmm_addr_ok p" "i < npages p" "j < npages p" "page_addr p i = page_addr p j"
  shows "i = j"
proof -
  have "unat (base_addr p) + i * 4096 = unat (base_addr p) + j * 4096"
    using unat_page_addr [OF assms(1,2)] unat_page_addr [OF assms(1,3)] assms(4) by (simp only:)
  then show ?thesis by simp
qed

lemma page_index:
  assumes "pmm_addr_ok p" "i < npages p"
  shows "page_addr p i AND NOT (PAGE_SIZE - 1) = page_addr p i"
    "\<not> page_addr p i < base_addr p"
    "ucast ((page_addr p i - base_addr p) div PAGE_SIZE) = (of_nat i :: u32)"
    "unat (of_nat i :: u32) = i"
proof -
  note a = unat_page_addr [OF assms]
  have "4096 dvd unat (page_addr p i)" unfolding a using assms(1) by (simp only: pmm_addr_ok_def dvd_add dvd_triv_right)
  then have "unat (page_addr p i) mod 4096 = 0" by (simp only: dvd_eq_mod_eq_0)
  then show "page_addr p i AND NOT (PAGE_SIZE - 1) = page_addr p i"
    by (simp only: word_unat_eq_iff unat_page_down diff_zero)
  show ge: "\<not> page_addr p i < base_addr p" using a by (simp add: word_less_nat_alt)
  have i: "i < 2 ^ 20" using assms by (simp add: pmm_addr_ok_def)
  then show u: "unat (of_nat i :: u32) = i" by (simp add: unat_of_nat)
  have "unat ((page_addr p i - base_addr p) div PAGE_SIZE) = i"
    using a ge by (simp add: unat_div unat_sub not_less)
  then have "of_nat (unat ((page_addr p i - base_addr p) div PAGE_SIZE)) = (of_nat i :: u32)" by (simp only:)
  then show "ucast ((page_addr p i - base_addr p) div PAGE_SIZE) = (of_nat i :: u32)"
    by (simp only: of_nat_unat)
qed


section \<open>Initialisation, page by page\<close>

text \<open>The pages whose address lies in \<open>[a, e)\<close>, for a page-aligned \<open>a\<close>.\<close>

definition pages_in :: "nat \<Rightarrow> nat \<Rightarrow> nat \<Rightarrow> nat set" where
  "pages_in lo a e = {j. a \<le> lo + j * 4096 \<and> lo + j * 4096 < e}"

lemma pages_in_step:
  assumes "4096 dvd lo" "4096 dvd a" "a < e"
  shows "pages_in lo a e = pages_in lo (a + 4096) e \<union> (if lo \<le> a then {(a - lo) div 4096} else {})"
proof -
  obtain l k where lk: "lo = 4096 * l" "a = 4096 * k" using assms(1,2) by (auto simp: dvd_def)
  show ?thesis using assms(3) unfolding pages_in_def lk by (auto simp: div_mult_self1_is_m simp flip: diff_mult_distrib2)
qed

text \<open>The window of addresses the allocator manages.\<close>

definition window :: "pmm_t \<Rightarrow> u64 \<Rightarrow> u64 \<Rightarrow> bool" where
  "window p lo hi \<longleftrightarrow> base_addr p = lo \<and> 4096 dvd unat lo \<and> unat hi = unat lo + npages p * 4096"

lemma window_set_page [simp]: "window (set_page p i u) lo hi = window p lo hi"
  by (simp add: window_def)

lemma window_index:
  assumes "window p lo hi" "npages p < 2 ^ 32" "4096 dvd unat a"
  shows "lo \<le> a \<and> a < hi \<longleftrightarrow> unat lo \<le> unat a \<and> (unat a - unat lo) div 4096 < npages p"
    "lo \<le> a \<Longrightarrow> a < hi \<Longrightarrow>
       unat (ucast ((a - lo) div PAGE_SIZE) :: u32) = (unat a - unat lo) div 4096"
proof -
  obtain l k where lk: "unat lo = 4096 * l" "unat a = 4096 * k"
    using assms(1,3) by (auto simp: dvd_def window_def)
  have hi: "unat hi = 4096 * (l + npages p)" using assms(1) lk by (simp add: window_def)
  show iff: "lo \<le> a \<and> a < hi \<longleftrightarrow> unat lo \<le> unat a \<and> (unat a - unat lo) div 4096 < npages p"
    unfolding word_le_nat_alt word_less_nat_alt hi lk by (auto simp flip: diff_mult_distrib2)
  assume "lo \<le> a" "a < hi"
  then have "unat ((a - lo) div PAGE_SIZE) = (unat a - unat lo) div 4096" "(unat a - unat lo) div 4096 < npages p"
    using iff by (simp_all add: unat_div unat_sub)
  then show "unat (ucast ((a - lo) div PAGE_SIZE) :: u32) = (unat a - unat lo) div 4096"
    using assms(2) by (simp add: unsigned_ucast_eq take_bit_nat_eq_self)
qed

lemma init_free_page_set:
  assumes "window p lo hi" "npages p < 2 ^ 32" "4096 dvd unat a" "lo \<le> a" "a < hi"
    "page_used p ((unat a - unat lo) div 4096)"
  shows "init_free_page lo hi a p = set_page p ((unat a - unat lo) div 4096) False"
proof -
  note ix = window_index [OF assms(1-3)]
  have "(unat a - unat lo) div 4096 < npages p" using ix(1) assms(4,5) by blast
  with ix(2) [OF assms(4,5)] assms show ?thesis
    by (simp add: init_free_page_def set_page_def window_def Let_def word_less_nat_alt unat_div unat_mod word_le_nat_alt)
qed

lemma init_reserve_page_set:
  assumes "window p lo hi" "npages p < 2 ^ 32" "4096 dvd unat a" "lo \<le> a" "a < hi"
  shows "init_reserve_page lo hi a p = set_page p ((unat a - unat lo) div 4096) True"
proof -
  note ix = window_index [OF assms(1-3)]
  have "(unat a - unat lo) div 4096 < npages p" using ix(1) assms(4,5) by blast
  with ix(2) [OF assms(4,5)] assms show ?thesis
    by (simp add: init_reserve_page_def set_page_def window_def Let_def word_less_nat_alt unat_div unat_mod word_le_nat_alt)
qed


lemma page_loop_next:
  assumes "a < e" "unat e + 4096 \<le> 2 ^ 64"
  shows "unat (a + PAGE_SIZE :: u64) = unat a + 4096"
proof -
  have "unat a + unat (PAGE_SIZE :: u64) < 2 ^ LENGTH(64)" using assms by (simp add: word_less_nat_alt)
  then show ?thesis unfolding unat_add_lem by simp
qed

text \<open>
  A loop body that sets the page of each address in the window to \<open>u\<close>; a page is released only
  where it is in use, so that the count stays exact.
\<close>

definition sets_pages :: "(u64 \<Rightarrow> pmm_t \<Rightarrow> pmm_t) \<Rightarrow> u64 \<Rightarrow> u64 \<Rightarrow> bool \<Rightarrow> bool" where
  "sets_pages f lo hi u \<longleftrightarrow>
     (\<forall>a p. window p lo hi \<longrightarrow> npages p < 2 ^ 32 \<longrightarrow> 4096 dvd unat a \<longrightarrow> lo \<le> a \<longrightarrow> a < hi \<longrightarrow>
        (u \<or> page_used p ((unat a - unat lo) div 4096)) \<longrightarrow> f a p = set_page p ((unat a - unat lo) div 4096) u) \<and>
     (\<forall>a p. \<not> (lo \<le> a \<and> a < hi) \<longrightarrow> f a p = p)"

lemma sets_pages_free: "sets_pages (init_free_page lo hi) lo hi False"
  unfolding sets_pages_def using init_free_page_set by (auto simp: init_free_page_def)

lemma sets_pages_reserve: "sets_pages (init_reserve_page lo hi) lo hi True"
  unfolding sets_pages_def using init_reserve_page_set by (auto simp: init_reserve_page_def)

definition set_pages :: "bool \<Rightarrow> nat set \<Rightarrow> pmm_t \<Rightarrow> nat set" where
  "set_pages u A p = (if u then used_set p \<union> (A \<inter> {..<npages p}) else used_set p - A)"

lemma page_loop_turn:
  assumes "sets_pages f lo hi u" "pmm_inv p" "window p lo hi" "4096 dvd unat a" "a < e"
    and "u \<or> pages_in (unat lo) (unat a) (unat e) \<inter> {..<npages p} \<subseteq> used_set p"
    and nxt: "unat (a + PAGE_SIZE) = unat a + 4096"
  defines "P \<equiv> pages_in (unat lo) (unat a) (unat e)"
    and "P' \<equiv> pages_in (unat lo) (unat (a + PAGE_SIZE)) (unat e)"
  shows "pmm_inv (f a p) \<and> window (f a p) lo hi \<and> total_pages (f a p) = total_pages p \<and>
    (u \<or> P' \<inter> {..<npages p} \<subseteq> used_set (f a p)) \<and> set_pages u P' (f a p) = set_pages u P p"
proof -
  let ?i = "(unat a - unat lo) div 4096"
  have N: "npages p < 2 ^ 32" using assms(2) by (simp add: pmm_inv_def)
  note ix = window_index(1) [OF assms(3) N assms(4)]
  have "4096 dvd unat lo" using assms(3) by (simp add: window_def)
  from pages_in_step [OF this assms(4), of "unat e"] assms(5)
  have step: "P = P' \<union> (if unat lo \<le> unat a then {?i} else {})"
    by (simp add: P_def P'_def nxt word_less_nat_alt)
  show ?thesis
  proof (cases "lo \<le> a \<and> a < hi")
    case win: True
    have "?i * 4096 \<le> unat a - unat lo" by simp
    with win have notin: "?i \<notin> P'" unfolding P'_def nxt pages_in_def by (auto simp: word_le_nat_alt)
    from win ix step assms(6) have "u \<or> page_used p ?i" by (auto simp: used_set_def P_def)
    then have f: "f a p = set_page p ?i u" using assms(1,3,4) N win unfolding sets_pages_def by blast
    from win ix have i: "?i < npages p" "unat lo \<le> unat a" by simp_all
    show ?thesis
      using inv_set_page [OF assms(2) i(1)] assms(3,6) notin i
      unfolding f set_pages_def used_set_page [OF assms(2) i(1)] step P_def [symmetric] by auto
  next
    case False
    then have f: "f a p = p" using assms(1) unfolding sets_pages_def by blast
    from False ix step have "P \<inter> {..<npages p} = P' \<inter> {..<npages p}" by auto
    with assms(2,3,6) show ?thesis unfolding f set_pages_def P_def [symmetric]
      by (auto simp: used_set_def)
  qed
qed

lemma page_loop_set:
  assumes "sets_pages f lo hi u" "pmm_inv p" "window p lo hi" "4096 dvd unat a" "unat e + 4096 \<le> 2 ^ 64"
    and "u \<or> pages_in (unat lo) (unat a) (unat e) \<inter> {..<npages p} \<subseteq> used_set p"
  shows "\<exists>p'. page_loop f a e p = Some p' \<and> pmm_inv p' \<and> window p' lo hi \<and> total_pages p' = total_pages p \<and>
     used_set p' = set_pages u (pages_in (unat lo) (unat a) (unat e)) p"
  using assms(2-4,6)
proof (induction "unat e - unat a" arbitrary: a p rule: less_induct)
  case less
  show ?case
  proof (cases "a < e")
    case False
    then have "pages_in (unat lo) (unat a) (unat e) = {}" by (auto simp: pages_in_def word_less_nat_alt)
    with False less.prems show ?thesis by (simp add: page_loop.simps set_pages_def)
  next
    case True
    note nxt = page_loop_next [OF True assms(5)]
    note turn = page_loop_turn [OF assms(1) less.prems(1-3) True less.prems(4) nxt]
    have "unat e - unat (a + PAGE_SIZE) < unat e - unat a" "4096 dvd unat (a + PAGE_SIZE)"
      unfolding nxt using True less.prems(3) by (simp_all add: word_less_nat_alt)
    from less.hyps [OF this(1) _ _ this(2), of "f a p"] turn True show ?thesis
      by (simp add: page_loop.simps [of f a])
  qed
qed

lemma page_loop_const:
  assumes "\<And>x. unat a \<le> unat x \<Longrightarrow> x < e \<Longrightarrow> f x p = p" "unat e + 4096 \<le> 2 ^ 64"
  shows "page_loop f a e p = Some p"
  using assms(1)
proof (induction "unat e - unat a" arbitrary: a rule: less_induct)
  case less
  show ?case
  proof (cases "a < e")
    case True
    note nxt = page_loop_next [OF True assms(2)]
    have "page_loop f (a + PAGE_SIZE) e p = Some p"
      by (rule less.hyps) (use nxt True less.prems in \<open>auto simp: word_less_nat_alt\<close>)
    with True less.prems [of a] show ?thesis by (simp add: page_loop.simps [of f a])
  qed (simp add: page_loop.simps)
qed


text \<open>Aligned addresses.\<close>

lemma page_down_dvd: "4096 dvd unat (x AND NOT (PAGE_SIZE - 1) :: u64)"
  unfolding unat_page_down by (simp add: dvd_minus_mod)

lemma page_down_room: "unat (x AND NOT (PAGE_SIZE - 1) :: u64) + 4096 \<le> 2 ^ 64"
proof -
  obtain k where k: "unat (x AND NOT (PAGE_SIZE - 1)) = 4096 * k" using page_down_dvd by (auto simp: dvd_def)
  have "unat (x AND NOT (PAGE_SIZE - 1)) < 2 ^ 64" using unsigned_less [of "x AND NOT (PAGE_SIZE - 1)"] by simp
  then show ?thesis unfolding k by simp
qed

lemma page_mask_dvd: "x AND (PAGE_SIZE - 1) = (0 :: u64) \<Longrightarrow> 4096 dvd unat x"
proof -
  assume a: "x AND (PAGE_SIZE - 1) = 0"
  have "(PAGE_SIZE - 1 :: u64) = mask 12" by (simp add: mask_eq_exp_minus_1)
  with a have "take_bit 12 x = 0" by (simp only: take_bit_eq_mask)
  then have "unat (take_bit 12 x) = 0" by simp
  then have "take_bit 12 (unat x) = 0" by (simp only: unsigned_take_bit_eq)
  then show ?thesis by (simp add: take_bit_nat_def mod_0_imp_dvd)
qed

lemma align_bounds_dvd:
  assumes "align_bounds b = (lo, hi)"
  shows "4096 dvd unat lo" "4096 dvd unat hi"
  using assms page_down_dvd page_mask_dvd by (auto simp: align_bounds_def split: prod.splits if_splits)

text \<open>The pages of an available region, and regions that share no page.\<close>

definition region_pages :: "u64 \<Rightarrow> memory_region_t \<Rightarrow> nat set" where
  "region_pages lo r =
     (if mr_type r = MULTIBOOT2_MMAP_AVAILABLE
      then pages_in (unat lo) (unat ((mr_base_addr r + PAGE_SIZE - 1) AND NOT (PAGE_SIZE - 1)))
             (unat ((mr_base_addr r + mr_length r) AND NOT (PAGE_SIZE - 1)))
      else {})"

fun regions_disjoint :: "u64 \<Rightarrow> memory_region_t list \<Rightarrow> bool" where
  "regions_disjoint lo [] \<longleftrightarrow> True"
| "regions_disjoint lo (r # rs) \<longleftrightarrow>
     (\<forall>r' \<in> set rs. region_pages lo r \<inter> region_pages lo r' = {}) \<and> regions_disjoint lo rs"

lemma init_free_regions_set:
  assumes "pmm_inv p" "window p lo hi" "regions_disjoint lo rs"
    "(\<Union>r \<in> set rs. region_pages lo r) \<inter> {..<npages p} \<subseteq> used_set p"
  shows "\<exists>p'. init_free_regions rs lo hi p = Some p' \<and> pmm_inv p' \<and> window p' lo hi \<and>
     total_pages p' = total_pages p \<and> used_set p' = used_set p - (\<Union>r \<in> set rs. region_pages lo r)"
  using assms
proof (induction rs arbitrary: p)
  case Nil
  then show ?case by simp
next
  case (Cons r rs)
  show ?case
  proof (cases "mr_type r = MULTIBOOT2_MMAP_AVAILABLE")
    case False
    with Cons show ?thesis by (simp add: region_pages_def)
  next
    case True
    let ?a = "(mr_base_addr r + PAGE_SIZE - 1) AND NOT (PAGE_SIZE - 1)"
      and ?e = "(mr_base_addr r + mr_length r) AND NOT (PAGE_SIZE - 1)"
    have rp: "pages_in (unat lo) (unat ?a) (unat ?e) = region_pages lo r"
      using True by (simp add: region_pages_def)
    from page_loop_set [OF sets_pages_free Cons.prems(1,2) page_down_dvd page_down_room,
        of "mr_base_addr r + PAGE_SIZE - 1" "mr_base_addr r + mr_length r"] Cons.prems(4)
    obtain q where q: "page_loop (init_free_page lo hi) ?a ?e p = Some q" "pmm_inv q" "window q lo hi"
      "total_pages q = total_pages p" "used_set q = used_set p - region_pages lo r"
      unfolding rp set_pages_def by auto
    have "(\<Union>r \<in> set rs. region_pages lo r) \<inter> {..<npages q} \<subseteq> used_set q"
      using Cons.prems(3,4) unfolding q(4,5) by fastforce
    from Cons.IH [OF q(2,3) _ this] Cons.prems(3) q True show ?thesis by (auto simp: Let_def)
  qed
qed

lemma init_reserve_range:
  assumes "pmm_inv p" "window p lo hi" "4096 dvd unat a" "unat e + 4096 \<le> 2 ^ 64"
  obtains p' where "page_loop (init_reserve_page lo hi) a e p = Some p'" "pmm_inv p'" "window p' lo hi"
    "total_pages p' = total_pages p"
    "used_set p' = used_set p \<union> (pages_in (unat lo) (unat a) (unat e) \<inter> {..<npages p})"
  using page_loop_set [OF sets_pages_reserve assms] by (auto simp: set_pages_def)

lemma page_floor:
  assumes "4096 * l \<le> x" "4096 * k \<le> x"
  shows "4096 * k \<le> 4096 * l + (x - 4096 * l) div 4096 * (4096::nat)"
proof -
  obtain d where d: "x = 4096 * l + d" using assms(1) by (auto simp: le_iff_add)
  have "k \<le> x div 4096" using assms(2) by (simp add: less_eq_div_iff_mult_less_eq)
  then have "k \<le> l + d div 4096" by (simp add: d)
  then show ?thesis by (simp add: d)
qed

lemma init_reserve_inside:
  assumes "pmm_inv p" "window p lo hi" "4096 dvd unat s" "unat s \<le> unat a" "unat b \<le> unat e" "unat b + 4096 \<le> 2 ^ 64"
    "pages_in (unat lo) (unat s) (unat e) \<inter> {..<npages p} \<subseteq> used_set p"
  shows "page_loop (init_reserve_page lo hi) a b p = Some p"
proof (rule page_loop_const [OF _ assms(6)])
  fix x assume x: "unat a \<le> unat x" "x < b"
  show "init_reserve_page lo hi x p = p"
  proof (cases "lo \<le> x \<and> x < hi \<and> ucast ((x - lo) div PAGE_SIZE) < total_pages p")
    case True
    let ?i = "unat (ucast ((x - lo) div PAGE_SIZE) :: u32)"
    have N: "npages p < 2 ^ 32" using assms(1) by (simp add: pmm_inv_def)
    obtain l k where lk: "unat lo = 4096 * l" "unat s = 4096 * k"
      using assms(2,3) by (auto simp: dvd_def window_def)
    have "unat ((x - lo) div PAGE_SIZE) = (unat x - 4096 * l) div 4096"
      using True lk by (simp add: unat_div unat_sub)
    moreover have "(unat x - 4096 * l) div 4096 < npages p"
      using True assms(2) lk
      by (auto simp: window_def word_less_nat_alt word_le_nat_alt div_less_iff_less_mult)
    ultimately have i: "?i = (unat x - 4096 * l) div 4096"
      using N by (simp add: unsigned_ucast_eq take_bit_nat_eq_self)
    have "?i \<in> pages_in (unat lo) (unat s) (unat e)"
      unfolding pages_in_def i lk using True x assms(4,5) lk page_floor [of l "unat x" k]
      by (auto simp: word_less_nat_alt word_le_nat_alt)
    then have "page_used p ?i" using assms(7) True by (auto simp: used_set_def word_less_nat_alt)
    with True assms(2) show ?thesis
      by (simp add: init_reserve_page_def Let_def window_def unat_div unat_mod)
  next
    case False
    with assms(2) show ?thesis by (auto simp: init_reserve_page_def Let_def window_def)
  qed
qed


lemma init_window:
  fixes p :: pmm_t
  assumes "align_bounds b = (lo, hi)" "lo \<le> hi" "unat (hi - lo) div 4096 + 7 < 2 ^ 32" "bm \<noteq> 0"
  defines "n \<equiv> ucast ((hi - lo) div PAGE_SIZE) :: u32"
  defines "q \<equiv> p\<lparr>bitmap := bm, base_addr := lo, total_pages := n\<rparr>"
  defines "r \<equiv> q\<lparr>bits := (\<lambda>i. if i < bitmap_bytes q then 0xFF else bits q i), used_pages := n\<rparr>"
  shows "window r lo hi" "pmm_inv r" "used_set r = {..<npages r}"
proof -
  have t: "unat n = unat (hi - lo) div 4096"
    using assms(3) by (simp add: n_def unsigned_ucast_eq take_bit_nat_eq_self unat_div)
  note d = align_bounds_dvd [OF assms(1)]
  have hl: "unat (hi - lo) = unat hi - unat lo" "unat lo \<le> unat hi"
    using assms(2) by (simp_all add: unat_sub word_le_nat_alt)
  with d have "4096 dvd unat (hi - lo)" by (simp add: dvd_diff_nat)
  then show "window r lo hi" using t d hl by (simp add: window_def r_def q_def)
  have N: "npages q + 7 < 2 ^ 32" using t assms(3) by (simp add: q_def)
  have full: "page_used r i" if "i < npages r" for i
  proof -
    have "i div 8 < bitmap_bytes q" using that unfolding bitmap_bytes_eq [OF N] by (simp add: r_def)
    with byte_full [of r "i div 8" "i mod 8"] show ?thesis by (simp add: r_def)
  qed
  then show u: "used_set r = {..<npages r}" by (auto simp: used_set_def)
  then show "pmm_inv r" using N assms(4) by (simp add: pmm_inv_def) (simp add: r_def q_def)
qed

definition reserved_pages :: "u64 \<Rightarrow> u64 \<Rightarrow> u64 \<Rightarrow> u64 \<Rightarrow> u32 \<Rightarrow> nat set" where
  "reserved_pages lo kstart kend mb2_addr mb2_size =
     pages_in (unat lo) 0 0x100000 \<union> pages_in (unat lo) (unat kstart) (unat kend) \<union>
     pages_in (unat lo) (unat (mb2_addr AND NOT (PAGE_SIZE - 1)))
       (unat ((mb2_addr + ucast mb2_size + PAGE_SIZE - 1) AND NOT (PAGE_SIZE - 1)))"

lemma init_reserve_chain:
  assumes "pmm_inv p" "window p lo hi" "4096 dvd unat kstart" "unat kend + 4096 \<le> 2 ^ 64"
    and "kstart \<le> bm" "unat bm + bitmap_bytes p \<le> unat kend"
  defines "reserve \<equiv> init_reserve_page lo hi"
  shows "\<exists>p'. do {
           p \<leftarrow> page_loop reserve 0 0x100000 p;
           p \<leftarrow> page_loop reserve kstart kend p;
           p \<leftarrow> page_loop reserve (mb2_addr AND NOT (PAGE_SIZE - 1))
                  ((mb2_addr + ucast mb2_size + PAGE_SIZE - 1) AND NOT (PAGE_SIZE - 1)) p;
           page_loop reserve bm (bm + of_nat (bitmap_bytes p)) p
         } = Some p' \<and> pmm_inv p' \<and> window p' lo hi \<and> total_pages p' = total_pages p \<and>
         used_set p' = used_set p \<union> (reserved_pages lo kstart kend mb2_addr mb2_size \<inter> {..<npages p})"
proof -
  have zero: "4096 dvd unat (0::u64)" "unat (0x100000::u64) + 4096 \<le> 2 ^ 64" by simp_all
  obtain p2 where p2: "page_loop reserve 0 0x100000 p = Some p2" "pmm_inv p2" "window p2 lo hi"
      "total_pages p2 = total_pages p" "used_set p2 = used_set p \<union> (pages_in (unat lo) 0 0x100000 \<inter> {..<npages p})"
    using init_reserve_range [OF assms(1,2) zero] unfolding reserve_def by auto
  obtain p3 where p3: "page_loop reserve kstart kend p2 = Some p3" "pmm_inv p3" "window p3 lo hi"
      "total_pages p3 = total_pages p2"
      "used_set p3 = used_set p2 \<union> (pages_in (unat lo) (unat kstart) (unat kend) \<inter> {..<npages p2})"
    using init_reserve_range [OF p2(2,3) assms(3,4)] unfolding reserve_def .
  obtain p4 where p4: "page_loop reserve (mb2_addr AND NOT (PAGE_SIZE - 1))
        ((mb2_addr + ucast mb2_size + PAGE_SIZE - 1) AND NOT (PAGE_SIZE - 1)) p3 = Some p4" "pmm_inv p4" "window p4 lo hi"
      "total_pages p4 = total_pages p3"
      "used_set p4 = used_set p3 \<union> (pages_in (unat lo) (unat (mb2_addr AND NOT (PAGE_SIZE - 1)))
         (unat ((mb2_addr + ucast mb2_size + PAGE_SIZE - 1) AND NOT (PAGE_SIZE - 1))) \<inter> {..<npages p3})"
    using init_reserve_range [OF p3(2,3) page_down_dvd page_down_room] unfolding reserve_def .
  have bb: "bitmap_bytes p4 = bitmap_bytes p" using p4(4) p3(4) p2(4) by (simp add: bitmap_bytes_def)
  have small: "unat bm + bitmap_bytes p < 2 ^ 64" using assms(4,6) by simp
  then have nb: "unat (of_nat (bitmap_bytes p) :: u64) = bitmap_bytes p" by (simp add: unat_of_nat)
  with small have be: "unat (bm + of_nat (bitmap_bytes p)) = unat bm + bitmap_bytes p"
    using unat_add_lem [of bm "of_nat (bitmap_bytes p)"] by simp
  have "page_loop reserve bm (bm + of_nat (bitmap_bytes p4)) p4 = Some p4"
    unfolding reserve_def bb
  proof (rule init_reserve_inside [OF p4(2,3) assms(3)])
    show "unat kstart \<le> unat bm" using assms(5) by (simp add: word_le_nat_alt)
    show "unat (bm + of_nat (bitmap_bytes p)) \<le> unat kend" using be assms(6) by simp
    then show "unat (bm + of_nat (bitmap_bytes p)) + 4096 \<le> 2 ^ 64" using assms(4) by simp
    show "pages_in (unat lo) (unat kstart) (unat kend) \<inter> {..<npages p4} \<subseteq> used_set p4"
      unfolding p4(4,5) p3(4,5) p2(4) by auto
  qed
  moreover have "used_set p4 = used_set p \<union> (reserved_pages lo kstart kend mb2_addr mb2_size \<inter> {..<npages p})"
    unfolding p4(5) p3(4,5) p2(4,5) reserved_pages_def by auto
  ultimately show ?thesis using p2(1,4) p3(1,4) p4(1-4) by (simp cong: option.case_cong)
qed


section \<open>The contract of a page allocator\<close>

text \<open>
  A history of the clients of an allocator: \<open>H\<close> is the set of pages handed out and not given back. A client frees
  only pages it holds.
\<close>

inductive page_history ::
  "('s \<Rightarrow> ptr \<times> 's) \<Rightarrow> ('s \<Rightarrow> ptr \<Rightarrow> 's) \<Rightarrow> 's \<Rightarrow> 's \<Rightarrow> ptr set \<Rightarrow> bool"
  for alloc free s where
  h_start: "page_history alloc free s s {}"
| h_alloc: "\<lbrakk>page_history alloc free s t H; alloc t = (a, t'); a \<noteq> 0\<rbrakk> \<Longrightarrow>
    page_history alloc free s t' (insert a H)"
| h_fail: "\<lbrakk>page_history alloc free s t H; alloc t = (0, t')\<rbrakk> \<Longrightarrow> page_history alloc free s t' H"
| h_free: "\<lbrakk>page_history alloc free s t H; a \<in> H\<rbrakk> \<Longrightarrow> page_history alloc free s (free t a) (H - {a})"

locale page_allocator =
  fixes alloc :: "'s \<Rightarrow> ptr \<times> 's"
    and free :: "'s \<Rightarrow> ptr \<Rightarrow> 's"
    and taken :: "'s \<Rightarrow> ptr set"
    and good :: "'s \<Rightarrow> bool"
  assumes alloc_fresh:
      "\<lbrakk>good s; alloc s = (a, s'); a \<noteq> 0\<rbrakk> \<Longrightarrow> good s' \<and> a \<notin> taken s \<and> taken s' = insert a (taken s)"
    and alloc_null: "\<lbrakk>good s; alloc s = (0, s')\<rbrakk> \<Longrightarrow> good s' \<and> taken s' = taken s"
    and free_taken: "\<lbrakk>good s; a \<in> taken s; a \<noteq> 0\<rbrakk> \<Longrightarrow> good (free s a) \<and> taken (free s a) = taken s - {a}"
begin

lemma history_inv:
  assumes "page_history alloc free s t H" "good s"
  shows "good t \<and> 0 \<notin> H \<and> H \<subseteq> taken t \<and> taken s \<subseteq> taken t \<and> H \<inter> taken s = {}"
  using assms(1)
proof induction
  case h_start
  then show ?case using assms(2) by simp
next
  case (h_alloc t H a t')
  with alloc_fresh [of t a t'] show ?case by auto
next
  case (h_fail t H t')
  with alloc_null [of t t'] show ?case by simp
next
  case (h_free t H a)
  then have "a \<noteq> 0" "a \<in> taken t" by auto
  with free_taken [of t a] h_free show ?case by auto
qed

lemma history_fresh:
  assumes "page_history alloc free s t H" "good s" "alloc t = (a, t')" "a \<noteq> 0"
  shows "a \<notin> H \<and> a \<notin> taken s"
  using history_inv [OF assms(1,2)] alloc_fresh [of t a t'] assms(3,4) by auto

end

text \<open>The physical memory manager keeps the contract, as long as its page addresses do not wrap.\<close>

definition taken_pages :: "pmm_t \<Rightarrow> ptr set" where
  "taken_pages p = page_addr p ` used_set p"

definition pmm_good :: "pmm_t \<Rightarrow> bool" where
  "pmm_good p \<longleftrightarrow> pmm_inv p \<and> pmm_addr_ok p \<and> (base_addr p = 0 \<longrightarrow> 0 \<in> used_set p)"

lemma page_addr_cong: "base_addr q = base_addr p \<Longrightarrow> page_addr q = page_addr p"
  by (simp add: page_addr_def fun_eq_iff)

lemma page_addr_zero:
  assumes "pmm_good p" "i < npages p" "page_addr p i = 0"
  shows "i \<in> used_set p"
proof -
  have "pmm_addr_ok p" using assms(1) by (simp add: pmm_good_def)
  from unat_page_addr [OF this assms(2)] assms(3) have "unat (base_addr p) = 0" "i = 0" by simp_all
  then show ?thesis using assms(1) by (simp add: pmm_good_def unat_eq_zero)
qed

lemma taken_pages_minus:
  assumes "pmm_addr_ok p" "i \<in> used_set p" "used_set q = used_set p - {i}" "base_addr q = base_addr p"
  shows "taken_pages q = taken_pages p - {page_addr p i}"
  using assms page_addr_inj [OF assms(1)]
  unfolding taken_pages_def page_addr_cong [OF assms(4)] by (auto simp: used_set_def)

lemma pmm_free_page_set:
  assumes "pmm_inv p" "pmm_addr_ok p" "i < npages p" "0 < page_addr p i"
  shows "pmm_free_page p (page_addr p i) = set_page p i False"
  using page_index [OF assms(2,3)] assms
  by (auto simp: pmm_free_page_def Let_def word_le_nat_alt set_page_def pmm_inv_def unat_div unat_mod)

interpretation pm: page_allocator pmm_alloc_page pmm_free_page taken_pages pmm_good
proof
  fix p a p'
  assume g: "pmm_good p" and a: "pmm_alloc_page p = (a, p')" and nz: "a \<noteq> 0"
  have inv: "pmm_inv p" "pmm_addr_ok p" using g by (simp_all add: pmm_good_def)
  from inv(1) a show "pmm_good p' \<and> a \<notin> taken_pages p \<and> taken_pages p' = insert a (taken_pages p)"
  proof (cases rule: pmm_alloc_page_cases)
    case (got i)
    note took = got(1) [unfolded took_page_def]
    have "page_addr p' = page_addr p" by (rule page_addr_cong) (use took in simp)
    moreover have "i \<notin> used_set p" "a \<notin> taken_pages p"
      using took got(3) page_addr_inj [OF inv(2)] by (auto simp: used_set_def taken_pages_def)
    ultimately show ?thesis
      using g took inv_took [OF inv(1) got(1)] used_set_took [OF got(1)] got(3)
      by (simp add: pmm_good_def pmm_addr_ok_def taken_pages_def)
  qed (use nz in simp)
next
  fix p p'
  assume g: "pmm_good p" and a: "pmm_alloc_page p = (0, p')"
  have inv: "pmm_inv p" "pmm_addr_ok p" using g by (simp_all add: pmm_good_def)
  from inv(1) a show "pmm_good p' \<and> taken_pages p' = taken_pages p"
  proof (cases rule: pmm_alloc_page_cases)
    case (got i)
    then have False using page_addr_zero [OF g, of i] by (simp add: took_page_def used_set_def)
    then show ?thesis ..
  next
    case none
    have f: "base_addr p' = base_addr p" "total_pages p' = total_pages p" using none(1) by (simp_all add: same_pages_def)
    with g inv_same [OF inv(1) none(1)] used_set_same [OF none(1)] show ?thesis
      by (simp add: pmm_good_def pmm_addr_ok_def taken_pages_def page_addr_cong [OF f(1)])
  qed
next
  fix p a
  assume g: "pmm_good p" and t: "a \<in> taken_pages p" and nz: "a \<noteq> 0"
  have inv: "pmm_inv p" "pmm_addr_ok p" using g by (simp_all add: pmm_good_def)
  from t obtain i where i: "i \<in> used_set p" "a = page_addr p i" by (auto simp: taken_pages_def)
  then have n: "i < npages p" "0 < page_addr p i" using nz by (simp_all add: used_set_def word_neq_0_conv)
  note f = pmm_free_page_set [OF inv n]
  have "i \<noteq> 0" if "base_addr p = 0" by (rule notI) (use n(2) that in \<open>simp add: page_addr_def\<close>)
  then show "pmm_good (pmm_free_page p a) \<and> taken_pages (pmm_free_page p a) = taken_pages p - {a}"
    using g inv_set_page [OF inv(1) n(1)] used_set_page [OF inv(1) n(1), of False]
      taken_pages_minus [OF inv(2) i(1), of "set_page p i False"]
    unfolding i(2) f by (simp add: pmm_good_def pmm_addr_ok_def)
qed



section \<open>Properties\<close>

text \<open>A small allocator the witnesses run on: twenty pages, the pages 0, 1 and 4 in use.\<close>

definition sample_pmm :: pmm_t where
  "sample_pmm = \<lparr>bitmap = 0x50000, bits = (\<lambda>i. if i = 0 then 0x13 else 0), base_addr = 0x1000,
     total_pages = 20, used_pages = 3, bitmap_size = 0\<rparr>"

lemma free_run_code [code]:
  "free_run p s count \<longleftrightarrow> s + count \<le> npages p \<and> list_all (\<lambda>j. \<not> page_used p j) [s..<s + count]"
  by (auto simp: free_run_def list_all_iff)

lemma used_set_code [code]: "used_set p = set (filter (page_used p) [0..<npages p])"
  by (auto simp: used_set_def)

lemma sample_used: "used_set sample_pmm = {0, 1, 4}"
  by code_simp

lemma sample_inv: "pmm_inv sample_pmm" "pmm_addr_ok sample_pmm"
  by (simp_all add: pmm_inv_def sample_used) (simp_all add: pmm_addr_ok_def sample_pmm_def)

lemma sample_good: "pmm_good sample_pmm"
  using sample_inv by (simp add: pmm_good_def sample_used)













text \<open>
  C12 (invariant). \<^verbatim>\<open>pmm_init\<close> returns, establishes the invariant, and leaves free exactly the whole pages of the
  available regions that lie outside the first megabyte, the kernel image and the boot information.
\<close>

theorem pmm_init_correct:
  assumes "align_bounds (scan_regions regions) = (lo, hi)" "lo \<le> hi"
    and "unat (hi - lo) div 4096 + 7 < 2 ^ 32" "bm \<noteq> 0" "regions_disjoint lo regions"
    and "4096 dvd unat kstart" "unat kend + 4096 \<le> 2 ^ 64"
    and "kstart \<le> bm" "unat bm + (unat (hi - lo) div 4096 + 7) div 8 \<le> unat kend"
  shows "\<exists>p'. pmm_init regions kstart kend mb2_addr mb2_size bm p = Some p' \<and> pmm_inv p' \<and>
     base_addr p' = lo \<and> npages p' = unat (hi - lo) div 4096 \<and>
     (\<forall>j < npages p'. page_used p' j \<longleftrightarrow>
        j \<in> reserved_pages lo kstart kend mb2_addr mb2_size \<or>
        (\<forall>r \<in> set regions. j \<notin> region_pages lo r))"
proof -
  define q where "q = p\<lparr>bitmap := bm, base_addr := lo, total_pages := ucast ((hi - lo) div PAGE_SIZE)\<rparr>"
  define r where "r = q\<lparr>bits := (\<lambda>i. if i < bitmap_bytes q then 0xFF else bits q i),
      used_pages := ucast ((hi - lo) div PAGE_SIZE)\<rparr>"
  note w = init_window [OF assms(1-4), where p = p, folded q_def, folded r_def]
  have N: "npages r = unat (hi - lo) div 4096"
    using assms(3) by (simp add: r_def q_def unsigned_ucast_eq take_bit_nat_eq_self unat_div)
  obtain p1 where p1: "init_free_regions regions lo hi r = Some p1" "pmm_inv p1" "window p1 lo hi"
      "total_pages p1 = total_pages r" "used_set p1 = {..<npages r} - (\<Union>r \<in> set regions. region_pages lo r)"
    using init_free_regions_set [OF w(2,1) assms(5)] unfolding w(3) by auto
  have bb: "bitmap_bytes p1 = (unat (hi - lo) div 4096 + 7) div 8"
    using bitmap_bytes_eq [of p1] p1(2,4) N by (simp add: pmm_inv_def)
  have "pmm_init regions kstart kend mb2_addr mb2_size bm p =
      do { p \<leftarrow> page_loop (init_reserve_page lo hi) 0 0x100000 p1;
           p \<leftarrow> page_loop (init_reserve_page lo hi) kstart kend p;
           p \<leftarrow> page_loop (init_reserve_page lo hi) (mb2_addr AND NOT (PAGE_SIZE - 1))
                  ((mb2_addr + ucast mb2_size + PAGE_SIZE - 1) AND NOT (PAGE_SIZE - 1)) p;
           page_loop (init_reserve_page lo hi) bm (bm + of_nat (bitmap_bytes p)) p }"
    unfolding pmm_init_def assms(1) Let_def prod.case q_def [symmetric] r_def [symmetric] p1(1) by simp
  moreover note init_reserve_chain [OF p1(2,3) assms(6-8), of mb2_addr mb2_size]
  ultimately obtain p' where "pmm_init regions kstart kend mb2_addr mb2_size bm p = Some p'" "pmm_inv p'" "window p' lo hi"
      "total_pages p' = total_pages p1"
      "used_set p' = used_set p1 \<union> (reserved_pages lo kstart kend mb2_addr mb2_size \<inter> {..<npages p1})"
    using assms(9) unfolding bb by auto
  with p1(4,5) N show ?thesis by (auto simp: window_def used_set_def set_eq_iff)
qed


text \<open>Four megabytes with a hole below the first megabyte, a kernel of 512 KiB, boot information at \<open>0x9000\<close>.\<close>

definition sample_regions :: "memory_region_t list" where
  "sample_regions = [\<lparr>mr_base_addr = 0, mr_length = 0x9F000, mr_type = 1\<rparr>,
     \<lparr>mr_base_addr = 0x9F000, mr_length = 0x61000, mr_type = 2\<rparr>,
     \<lparr>mr_base_addr = 0x100000, mr_length = 0x300000, mr_type = 1\<rparr>]"

lemma sample_bounds: "align_bounds (scan_regions sample_regions) = (0, 0x400000)"
  by code_simp

lemma sample_disjoint: "regions_disjoint 0 sample_regions"
  by (simp add: sample_regions_def region_pages_def unat_page_down pages_in_def unat_word_ariths disjoint_iff)

theorem pmm_init_correct_witness:
  "\<exists>p'. pmm_init sample_regions 0x100000 0x180000 0x9000 100 0x150000 sample_pmm = Some p' \<and> pmm_inv p' \<and>
     npages p' = 1024 \<and> page_used p' 256 \<and> \<not> page_used p' 600"
proof -
  have "\<exists>p'. pmm_init sample_regions 0x100000 0x180000 0x9000 100 0x150000 sample_pmm = Some p' \<and> pmm_inv p' \<and>
     base_addr p' = 0 \<and> npages p' = unat (0x400000 - 0 :: u64) div 4096 \<and>
     (\<forall>j < npages p'. page_used p' j \<longleftrightarrow>
        j \<in> reserved_pages 0 0x100000 0x180000 0x9000 100 \<or>
        (\<forall>r \<in> set sample_regions. j \<notin> region_pages 0 r))"
    by (rule pmm_init_correct [OF sample_bounds _ _ _ sample_disjoint]) (simp_all add: word_le_nat_alt)
  moreover have "256 \<in> reserved_pages 0 0x100000 0x180000 0x9000 100"
    "600 \<notin> reserved_pages 0 0x100000 0x180000 0x9000 100" "\<exists>r \<in> set sample_regions. 600 \<in> region_pages 0 r"
    by (simp_all add: reserved_pages_def pages_in_def unat_page_down unat_word_ariths sample_regions_def region_pages_def)
  ultimately show ?thesis by auto
qed

end
