(* ===== verification/KPaging.thy ===== *)
theory KPaging
  imports KPmm
begin

text \<open>
  The page tables, \<^verbatim>\<open>src/kernel/paging.c\<close> and \<^verbatim>\<open>src/include/kernel/paging.h\<close>: mapping and unmapping of
  4 KiB pages in a four-level table, the address space of a user task and its release.

  \<open>pg_mem\<close> holds the 64-bit entries of the tables by their address, as the C code reads them
  through \<^verbatim>\<open>u64 *\<close> pointers (the kernel is identity mapped, so physical and virtual addresses of tables
  coincide). \<open>cr3\<close> is the register the processor walks from. Out of memory ends in \<open>Panic\<close>. The
  loops over an address range have no value when the address wraps and they never end.

  The lemmas show that \<^verbatim>\<open>paging_map_page\<close> changes what the processor's table walk finds for one page and
  for no other, over table trees in which every table is a page of its own that the page allocator
  has handed out. They rest on the contract of the allocator in \<open>KPmm\<close>.
\<close>

section \<open>Entries and indices\<close>

abbreviation (input) PTE_PRESENT :: u64 where "PTE_PRESENT \<equiv> 1"
abbreviation (input) PTE_WRITABLE :: u64 where "PTE_WRITABLE \<equiv> 2"
abbreviation (input) PTE_USER :: u64 where "PTE_USER \<equiv> 4"
abbreviation (input) PTE_HUGE :: u64 where "PTE_HUGE \<equiv> 0x80"
abbreviation (input) PAGE_MASK :: u64 where "PAGE_MASK \<equiv> 0xFFFFFFFFF000"
abbreviation (input) HUGE_PAGE_MASK :: u64 where "HUGE_PAGE_MASK \<equiv> 0xFFFFFFFFFFE00000"

definition PML4_INDEX :: "u64 \<Rightarrow> u64" where "PML4_INDEX va = drop_bit 39 va AND 0x1FF"
definition PDPT_INDEX :: "u64 \<Rightarrow> u64" where "PDPT_INDEX va = drop_bit 30 va AND 0x1FF"
definition PD_INDEX :: "u64 \<Rightarrow> u64" where "PD_INDEX va = drop_bit 21 va AND 0x1FF"
definition PT_INDEX :: "u64 \<Rightarrow> u64" where "PT_INDEX va = drop_bit 12 va AND 0x1FF"

definition phys_to_virt_ptr :: "ptr \<Rightarrow> ptr" where "phys_to_virt_ptr phys = phys"
definition virt_to_phys_ptr :: "ptr \<Rightarrow> ptr" where "virt_to_phys_ptr virt = virt"

record paging_t =
  pg_mem :: "u64 \<Rightarrow> u64"
  pg_pmm :: pmm_t
  kernel_pml4 :: ptr
  total_phys_pages :: u64
  paging_initialized :: bool
  cr3 :: u64

definition pt_entry :: "(u64 \<Rightarrow> u64) \<Rightarrow> ptr \<Rightarrow> u64 \<Rightarrow> u64" where
  "pt_entry mem table index = mem (table + 8 * index)"

definition set_pt_entry :: "paging_t \<Rightarrow> ptr \<Rightarrow> u64 \<Rightarrow> u64 \<Rightarrow> paging_t" where
  "set_pt_entry s table index v = s\<lparr>pg_mem := (pg_mem s)(table + 8 * index := v)\<rparr>"

definition pte_present :: "u64 \<Rightarrow> bool" where "pte_present e \<longleftrightarrow> e AND PTE_PRESENT \<noteq> 0"
definition pte_huge :: "u64 \<Rightarrow> bool" where "pte_huge e \<longleftrightarrow> e AND PTE_HUGE \<noteq> 0"

text \<open>\<^verbatim>\<open>memset(table, 0, PAGE_SIZE)\<close> on the entries.\<close>

definition clear_table :: "paging_t \<Rightarrow> ptr \<Rightarrow> paging_t" where
  "clear_table s table = s\<lparr>pg_mem := (\<lambda>a. if a - table < PAGE_SIZE then 0 else pg_mem s a)\<rparr>"

section \<open>Operations\<close>

definition get_next_level :: "paging_t \<Rightarrow> ptr \<Rightarrow> u64 \<Rightarrow> u64 \<Rightarrow> bool \<Rightarrow> (ptr \<times> paging_t) outcome" where
  "get_next_level s table index flags allocate =
     (let e = pt_entry (pg_mem s) table index
      in if \<not> pte_present e then
           (if \<not> allocate then Ret (0, s)
            else let (new_table, pmm) = pmm_alloc_page (pg_pmm s);
                     s = s\<lparr>pg_pmm := pmm\<rparr>
            in if new_table = 0 then Panic ''PAGING: Failed to allocate page table''
               else let s = clear_table s new_table;
                        phys_addr = virt_to_phys_ptr new_table
               in Ret (new_table, set_pt_entry s table index (phys_addr OR flags OR PTE_PRESENT OR PTE_WRITABLE)))
         else Ret (phys_to_virt_ptr (e AND PAGE_MASK), s))"

definition paging_init :: "u64 \<Rightarrow> paging_t \<Rightarrow> paging_t" where
  "paging_init total_phys_mem s =
     (if paging_initialized s then s
      else s\<lparr>total_phys_pages := total_phys_mem div PAGE_SIZE,
             kernel_pml4 := phys_to_virt_ptr (cr3 s AND PAGE_MASK),
             paging_initialized := True\<rparr>)"

definition paging_get_kernel_cr3 :: "paging_t \<Rightarrow> ptr" where
  "paging_get_kernel_cr3 s = kernel_pml4 s"

definition paging_switch :: "ptr \<Rightarrow> paging_t \<Rightarrow> paging_t" where
  "paging_switch pml4 s = (if pml4 = 0 then s else s\<lparr>cr3 := virt_to_phys_ptr pml4\<rparr>)"

definition paging_map_page :: "paging_t \<Rightarrow> ptr \<Rightarrow> u64 \<Rightarrow> u64 \<Rightarrow> u64 \<Rightarrow> (int \<times> paging_t) outcome" where
  "paging_map_page s pml4 virt_addr phys_addr flags =
     (if pml4 = 0 then Ret (- 1, s)
      else let flags = flags OR PTE_PRESENT OR PTE_WRITABLE in
      obind (get_next_level s pml4 (PML4_INDEX virt_addr) flags True) (\<lambda>(pdpt, s).
      if pdpt = 0 then Ret (- 1, s) else
      obind (get_next_level s pdpt (PDPT_INDEX virt_addr) flags True) (\<lambda>(pdir, s).
      if pdir = 0 then Ret (- 1, s) else
      obind (get_next_level s pdir (PD_INDEX virt_addr) flags True) (\<lambda>(ptbl, s).
      if ptbl = 0 then Ret (- 1, s) else
      Ret (0, set_pt_entry s ptbl (PT_INDEX virt_addr) ((phys_addr AND PAGE_MASK) OR flags))))))"

partial_function (option) map_loop ::
  "paging_t \<Rightarrow> ptr \<Rightarrow> u64 \<Rightarrow> u64 \<Rightarrow> u64 \<Rightarrow> u64 \<Rightarrow> (int \<times> paging_t) outcome option" where
  "map_loop s pml4 virt phys end flags =
     (if virt < end then
        (case paging_map_page s pml4 virt phys flags of
           Panic msg \<Rightarrow> Some (Panic msg)
         | Ret (r, s) \<Rightarrow>
             if r \<noteq> 0 then Some (Ret (- 1, s))
             else map_loop s pml4 (virt + PAGE_SIZE) (phys + PAGE_SIZE) end flags)
      else Some (Ret (0, s)))"

definition paging_map_range ::
  "paging_t \<Rightarrow> ptr \<Rightarrow> u64 \<Rightarrow> u64 \<Rightarrow> u64 \<Rightarrow> u64 \<Rightarrow> (int \<times> paging_t) outcome option" where
  "paging_map_range s pml4 virt_start phys_start len flags =
     (if pml4 = 0 \<or> len = 0 then Some (Ret (- 1, s))
      else map_loop s pml4 (virt_start AND NOT (PAGE_SIZE - 1)) (phys_start AND NOT (PAGE_SIZE - 1))
             (virt_start + len) flags)"

definition paging_unmap_page :: "paging_t \<Rightarrow> ptr \<Rightarrow> u64 \<Rightarrow> paging_t outcome" where
  "paging_unmap_page s pml4 virt_addr =
     (if pml4 = 0 then Ret s
      else
      obind (get_next_level s pml4 (PML4_INDEX virt_addr) 0 False) (\<lambda>(pdpt, s).
      if pdpt = 0 then Ret s else
      obind (get_next_level s pdpt (PDPT_INDEX virt_addr) 0 False) (\<lambda>(pdir, s).
      if pdir = 0 then Ret s else
      obind (get_next_level s pdir (PD_INDEX virt_addr) 0 False) (\<lambda>(ptbl, s).
      if ptbl = 0 then Ret s else
      Ret (set_pt_entry s ptbl (PT_INDEX virt_addr) 0)))))"

partial_function (option) unmap_loop :: "paging_t \<Rightarrow> ptr \<Rightarrow> u64 \<Rightarrow> u64 \<Rightarrow> paging_t outcome option" where
  "unmap_loop s pml4 virt end =
     (if virt < end then
        (case paging_unmap_page s pml4 virt of
           Panic msg \<Rightarrow> Some (Panic msg)
         | Ret s \<Rightarrow> unmap_loop s pml4 (virt + PAGE_SIZE) end)
      else Some (Ret s))"

definition paging_unmap_range :: "paging_t \<Rightarrow> ptr \<Rightarrow> u64 \<Rightarrow> u64 \<Rightarrow> paging_t outcome option" where
  "paging_unmap_range s pml4 virt_start len =
     (if pml4 = 0 \<or> len = 0 then Some (Ret s)
      else unmap_loop s pml4 (virt_start AND NOT (PAGE_SIZE - 1)) (virt_start + len))"

text \<open>
  The release of a user address space: the loops of \<^verbatim>\<open>paging_destroy_user_task\<close>, innermost first. They
  read the tables and change only the page allocator.
\<close>

definition free_ptes :: "(u64 \<Rightarrow> u64) \<Rightarrow> ptr \<Rightarrow> pmm_t \<Rightarrow> pmm_t" where
  "free_ptes mem ptbl p =
     fold (\<lambda>l p. if pte_present (pt_entry mem ptbl (of_nat l))
                 then pmm_free_page p (pt_entry mem ptbl (of_nat l) AND PAGE_MASK) else p) [0..<512] p"

definition free_pdir :: "(u64 \<Rightarrow> u64) \<Rightarrow> ptr \<Rightarrow> pmm_t \<Rightarrow> pmm_t" where
  "free_pdir mem pdir p =
     fold (\<lambda>k p. let e = pt_entry mem pdir (of_nat k) in
             if pte_present e \<and> \<not> pte_huge e then
               (let ptbl = phys_to_virt_ptr (e AND PAGE_MASK)
                in pmm_free_page (free_ptes mem ptbl p) (virt_to_phys_ptr ptbl))
             else if pte_present e \<and> pte_huge e then pmm_free_page p (e AND HUGE_PAGE_MASK)
             else p) [0..<512] p"

definition free_pdpt :: "(u64 \<Rightarrow> u64) \<Rightarrow> ptr \<Rightarrow> pmm_t \<Rightarrow> pmm_t" where
  "free_pdpt mem pdpt p =
     fold (\<lambda>j p. let e = pt_entry mem pdpt (of_nat j) in
             if pte_present e then
               (let pdir = phys_to_virt_ptr (e AND PAGE_MASK)
                in pmm_free_page (free_pdir mem pdir p) (virt_to_phys_ptr pdir))
             else p) [0..<512] p"

definition paging_destroy_user_task :: "paging_t \<Rightarrow> ptr \<Rightarrow> paging_t" where
  "paging_destroy_user_task s pml4 =
     (if pml4 = 0 then s
      else let p = fold (\<lambda>i p. let e = pt_entry (pg_mem s) pml4 (of_nat i) in
             if pte_present e then
               (let pdpt = phys_to_virt_ptr (e AND PAGE_MASK)
                in pmm_free_page (free_pdpt (pg_mem s) pdpt p) (virt_to_phys_ptr pdpt))
             else p) [0..<256] (pg_pmm s)
      in s\<lparr>pg_pmm := pmm_free_page p (virt_to_phys_ptr pml4)\<rparr>)"

definition copy_kernel_half :: "paging_t \<Rightarrow> ptr \<Rightarrow> paging_t" where
  "copy_kernel_half s user_pml4 =
     fold (\<lambda>i s. let kernel_entry = pt_entry (pg_mem s) (kernel_pml4 s) (of_nat i)
                 in if pte_present kernel_entry then set_pt_entry s user_pml4 (of_nat i) kernel_entry else s)
       [256..<512] s"

definition paging_create_user_task :: "paging_t \<Rightarrow> ptr \<Rightarrow> u64 \<Rightarrow> (ptr \<times> paging_t) outcome option" where
  "paging_create_user_task s user_mem user_size =
     (if kernel_pml4 s = 0 then Some (Ret (0, s))
      else let (user_pml4, pmm) = pmm_alloc_page (pg_pmm s); s = s\<lparr>pg_pmm := pmm\<rparr>
      in if user_pml4 = 0 then Some (Ret (0, s))
         else let user_pml4 = phys_to_virt_ptr user_pml4;
                  s = copy_kernel_half (clear_table s user_pml4) user_pml4
         in if user_mem \<noteq> 0 \<and> user_size > 0 then
              (case paging_map_range s user_pml4 user_mem user_mem user_size (PTE_USER OR PTE_WRITABLE) of
                 None \<Rightarrow> None
               | Some (Panic msg) \<Rightarrow> Some (Panic msg)
               | Some (Ret (r, s)) \<Rightarrow>
                   if r \<noteq> 0 then Some (Ret (0, paging_destroy_user_task s user_pml4))
                   else Some (Ret (user_pml4, s)))
            else Some (Ret (user_pml4, s)))"

definition paging_map_user_region :: "paging_t \<Rightarrow> ptr \<Rightarrow> ptr \<Rightarrow> u64 \<Rightarrow> (int \<times> paging_t) outcome option" where
  "paging_map_user_region s pml4 addr len =
     paging_map_range s pml4 addr addr len (PTE_USER OR PTE_WRITABLE)"

definition paging_unmap_user_region :: "paging_t \<Rightarrow> ptr \<Rightarrow> ptr \<Rightarrow> u64 \<Rightarrow> paging_t outcome option" where
  "paging_unmap_user_region s pml4 addr len = paging_unmap_range s pml4 addr len"

section \<open>Addresses of entries\<close>

abbreviation aligned :: "ptr \<Rightarrow> bool" where "aligned t \<equiv> 4096 dvd unat t"

lemma aligned_room: "aligned t \<Longrightarrow> unat t + 4096 \<le> 2 ^ 64"
proof -
  assume "aligned t"
  then obtain k where k: "unat t = 4096 * k" by (auto simp: dvd_def)
  have "unat t < 2 ^ 64" using unsigned_less [of t] by simp
  then show ?thesis unfolding k by simp
qed

lemma unat_page_offset:
  assumes "aligned t" "unat d < 4096"
  shows "unat (t + d) = unat t + unat d" "unat (t + d) div 4096 * 4096 = unat t"
proof -
  have "unat t + unat d < 2 ^ LENGTH(64)" using aligned_room [OF assms(1)] assms(2) by simp
  then show a: "unat (t + d) = unat t + unat d" using unat_add_lem [of t d] by simp
  obtain k where k: "unat t = 4096 * k" using assms(1) by (auto simp: dvd_def)
  have "(4096 * k + unat d) div 4096 = k" using assms(2) by simp
  then show "unat (t + d) div 4096 * 4096 = unat t" unfolding a k by simp
qed

lemma page_offset_eq:
  assumes "aligned t" "aligned t'" "unat d < 4096" "unat d' < 4096"
  shows "t + d = t' + d' \<longleftrightarrow> t = t' \<and> d = d'"
proof
  assume eq: "t + d = t' + d'"
  then have "unat t = unat t'"
    using unat_page_offset(2) [OF assms(1,3)] unat_page_offset(2) [OF assms(2,4)] by simp
  then have "t = t'" by (simp add: word_unat_eq_iff)
  with eq show "t = t' \<and> d = d'" by simp
qed simp

lemma index_offset: "i < 512 \<Longrightarrow> unat (8 * i :: u64) = 8 * unat i \<and> unat (8 * i) < 4096"
  by (simp add: word_less_nat_alt unat_word_ariths)

lemma entry_addr_eq:
  assumes "aligned t" "aligned t'" "i < 512" "i' < 512"
  shows "t + 8 * i = t' + 8 * i' \<longleftrightarrow> t = t' \<and> i = i'"
proof -
  have "8 * i = 8 * i' \<longleftrightarrow> i = i'"
    using index_offset [OF assms(3)] index_offset [OF assms(4)] by (auto simp: word_unat_eq_iff)
  with page_offset_eq [OF assms(1,2), of "8 * i" "8 * i'"] index_offset [OF assms(3)] index_offset [OF assms(4)]
  show ?thesis by simp
qed

lemma entry_in_page:
  assumes "aligned t" "aligned t'" "i < 512"
  shows "t + 8 * i - t' < PAGE_SIZE \<longleftrightarrow> t = t'"
proof
  assume "t + 8 * i - t' < PAGE_SIZE"
  then have "unat (t + 8 * i - t') < 4096" by (simp add: word_less_nat_alt)
  from page_offset_eq [OF assms(1,2) conjunct2 [OF index_offset [OF assms(3)]] this] show "t = t'" by simp
next
  assume "t = t'"
  then show "t + 8 * i - t' < PAGE_SIZE" using index_offset [OF assms(3)] by (simp add: word_less_nat_alt)
qed

lemma index_lt [simp]:
  "PML4_INDEX va < 512" "PDPT_INDEX va < 512" "PD_INDEX va < 512" "PT_INDEX va < 512"
proof -
  have "x AND 0x1FF < 512" for x :: u64
  proof -
    have "x AND 0x1FF \<le> 0x1FF" by (rule word_and_le1)
    also have "\<dots> < (512 :: u64)" by simp
    finally show ?thesis .
  qed
  then show "PML4_INDEX va < 512" "PDPT_INDEX va < 512" "PD_INDEX va < 512" "PT_INDEX va < 512"
    by (simp_all add: PML4_INDEX_def PDPT_INDEX_def PD_INDEX_def PT_INDEX_def)
qed

lemma bit_index:
  "bit (PML4_INDEX va) n \<longleftrightarrow> n < 9 \<and> bit va (n + 39)" "bit (PDPT_INDEX va) n \<longleftrightarrow> n < 9 \<and> bit va (n + 30)"
  "bit (PD_INDEX va) n \<longleftrightarrow> n < 9 \<and> bit va (n + 21)" "bit (PT_INDEX va) n \<longleftrightarrow> n < 9 \<and> bit va (n + 12)"
proof -
  have m: "(0x1FF :: u64) = mask 9" by (simp add: mask_eq_exp_minus_1)
  show "bit (PML4_INDEX va) n \<longleftrightarrow> n < 9 \<and> bit va (n + 39)" "bit (PDPT_INDEX va) n \<longleftrightarrow> n < 9 \<and> bit va (n + 30)"
    "bit (PD_INDEX va) n \<longleftrightarrow> n < 9 \<and> bit va (n + 21)" "bit (PT_INDEX va) n \<longleftrightarrow> n < 9 \<and> bit va (n + 12)"
    unfolding PML4_INDEX_def PDPT_INDEX_def PD_INDEX_def PT_INDEX_def m
    by (auto simp: bit_and_iff bit_drop_bit_eq bit_mask_iff ac_simps)
qed

lemma PAGE_MASK_eq: "PAGE_MASK = mask 48 AND NOT (mask 12)"
  by (simp add: mask_eq_exp_minus_1)

lemma bit_PAGE_MASK: "bit PAGE_MASK n \<longleftrightarrow> 12 \<le> n \<and> n < 48"
  unfolding PAGE_MASK_eq by (auto simp: bit_and_iff bit_not_iff bit_mask_iff not_less)

lemma same_page_indices:
  "va AND PAGE_MASK = va' AND PAGE_MASK \<longleftrightarrow>
     PML4_INDEX va = PML4_INDEX va' \<and> PDPT_INDEX va = PDPT_INDEX va' \<and>
     PD_INDEX va = PD_INDEX va' \<and> PT_INDEX va = PT_INDEX va'" (is "?l = ?r")
proof
  assume ?l
  then have "bit (va AND PAGE_MASK) n = bit (va' AND PAGE_MASK) n" for n by (simp only:)
  then have b: "12 \<le> n \<Longrightarrow> n < 48 \<Longrightarrow> bit va n = bit va' n" for n
    unfolding bit_and_iff bit_PAGE_MASK by blast
  show ?r by (auto simp: bit_eq_iff bit_index b)
next
  assume ?r
  then have "bit (PML4_INDEX va) n = bit (PML4_INDEX va') n \<and> bit (PDPT_INDEX va) n = bit (PDPT_INDEX va') n \<and>
      bit (PD_INDEX va) n = bit (PD_INDEX va') n \<and> bit (PT_INDEX va) n = bit (PT_INDEX va') n" for n by simp
  then have b: "n < 9 \<Longrightarrow> bit va (n + 39) = bit va' (n + 39) \<and> bit va (n + 30) = bit va' (n + 30) \<and>
      bit va (n + 21) = bit va' (n + 21) \<and> bit va (n + 12) = bit va' (n + 12)" for n
    unfolding bit_index by blast
  have "bit va n = bit va' n" if n: "12 \<le> n" "n < 48" for n
  proof -
    consider "n < 21" | "21 \<le> n" "n < 30" | "30 \<le> n" "n < 39" | "39 \<le> n" by linarith
    then show ?thesis
      using b [of "n - 12"] b [of "n - 21"] b [of "n - 30"] b [of "n - 39"] n by cases auto
  qed
  then show ?l unfolding bit_eq_iff bit_and_iff bit_PAGE_MASK by blast
qed

lemma frame_of_aligned:
  assumes "aligned t" "unat t < 2 ^ 48"
  shows "t AND PAGE_MASK = t"
proof -
  have "unat (take_bit 48 t) = unat t" unfolding unsigned_take_bit_eq
    using assms(2) by (rule take_bit_nat_eq_self)
  then have h: "t AND mask 48 = t" by (simp add: word_unat_eq_iff take_bit_eq_mask)
  have "unat (take_bit 12 t) = 0" unfolding unsigned_take_bit_eq
    using assms(1) by (simp add: take_bit_nat_def dvd_imp_mod_0)
  then have "t - take_bit 12 t = t" by (simp add: unat_eq_zero)
  then have "t AND NOT (mask 12) = t" by (simp only: and_not_mask)
  with h show ?thesis unfolding PAGE_MASK_eq by (simp add: and.assoc [symmetric])
qed

lemma frame_of_entry:
  assumes "t AND PAGE_MASK = t" "flags AND PAGE_MASK = 0"
  shows "(t OR flags OR PTE_PRESENT OR PTE_WRITABLE) AND PAGE_MASK = t"
    "pte_present (t OR flags OR PTE_PRESENT OR PTE_WRITABLE)"
    "\<not> pte_huge flags \<Longrightarrow> \<not> pte_huge (t OR flags OR PTE_PRESENT OR PTE_WRITABLE)"
proof -
  show "(t OR flags OR PTE_PRESENT OR PTE_WRITABLE) AND PAGE_MASK = t"
    using assms by (simp add: bit.conj_disj_distrib2 [of _ _ PAGE_MASK])
  show "pte_present (t OR flags OR PTE_PRESENT OR PTE_WRITABLE)"
    by (simp add: pte_present_def bit.conj_disj_distrib2 [of _ _ 1])
  assume "\<not> pte_huge flags"
  have "t AND PTE_HUGE = (t AND PAGE_MASK) AND PTE_HUGE" using assms(1) by simp
  also have "\<dots> = 0" by (simp add: and.assoc)
  finally show "\<not> pte_huge (t OR flags OR PTE_PRESENT OR PTE_WRITABLE)"
    using \<open>\<not> pte_huge flags\<close> by (simp add: pte_huge_def bit.conj_disj_distrib2 [of _ _ "0x80"])
qed

section \<open>Table trees and the walk of the processor\<close>

text \<open>
  \<open>tab mem root path\<close> is the table a path of indices leads to, the deepest index first. The processor
  finds the entry of an address at the end of a path of three indices.
\<close>

primrec tab :: "(u64 \<Rightarrow> u64) \<Rightarrow> ptr \<Rightarrow> u64 list \<Rightarrow> ptr option" where
  "tab mem root [] = Some root"
| "tab mem root (i # path) =
     (case tab mem root path of
        None \<Rightarrow> None
      | Some t \<Rightarrow> let e = pt_entry mem t i in if pte_present e then Some (e AND PAGE_MASK) else None)"

definition va_path :: "u64 \<Rightarrow> u64 list" where
  "va_path va = [PD_INDEX va, PDPT_INDEX va, PML4_INDEX va]"

definition mmu_walk :: "(u64 \<Rightarrow> u64) \<Rightarrow> ptr \<Rightarrow> u64 \<Rightarrow> u64 option" where
  "mmu_walk mem root va =
     (case tab mem root (va_path va) of
        None \<Rightarrow> None
      | Some t \<Rightarrow> let e = pt_entry mem t (PT_INDEX va) in if pte_present e then Some e else None)"

definition valid_path :: "u64 list \<Rightarrow> bool" where
  "valid_path path \<longleftrightarrow> length path \<le> 3 \<and> (\<forall>i \<in> set path. i < 512)"

text \<open>
  A tree of tables: every table is a page the allocator has handed out, no two paths lead to the
  same table, and no entry above the last level is a huge page.
\<close>

definition pt_tree :: "paging_t \<Rightarrow> ptr \<Rightarrow> bool" where
  "pt_tree s root \<longleftrightarrow>
     pmm_good (pg_pmm s) \<and> unat (base_addr (pg_pmm s)) + npages (pg_pmm s) * 4096 \<le> 2 ^ 48 \<and>
     (\<forall>p t. valid_path p \<longrightarrow> tab (pg_mem s) root p = Some t \<longrightarrow> t \<in> taken_pages (pg_pmm s) \<and> t \<noteq> 0) \<and>
     (\<forall>p q t. valid_path p \<longrightarrow> valid_path q \<longrightarrow> tab (pg_mem s) root p = Some t \<longrightarrow>
        tab (pg_mem s) root q = Some t \<longrightarrow> p = q) \<and>
     (\<forall>p i t. valid_path (i # p) \<longrightarrow> tab (pg_mem s) root p = Some t \<longrightarrow>
        pte_present (pt_entry (pg_mem s) t i) \<longrightarrow> \<not> pte_huge (pt_entry (pg_mem s) t i))"

lemma valid_path_Cons: "valid_path (i # p) \<longleftrightarrow> i < 512 \<and> length p \<le> 2 \<and> valid_path p"
  by (auto simp: valid_path_def)

lemma valid_va_path [simp]: "valid_path (va_path va)"
  by (simp add: valid_path_def va_path_def)

lemma taken_page_addr:
  assumes "pmm_good p" "unat (base_addr p) + npages p * 4096 \<le> 2 ^ 48" "t \<in> taken_pages p"
  shows "aligned t" "unat t < 2 ^ 48"
proof -
  obtain i where i: "t = page_addr p i" "i < npages p" using assms(3) by (auto simp: taken_pages_def used_set_def)
  have ok: "pmm_addr_ok p" using assms(1) by (simp add: pmm_good_def)
  have t: "unat t = unat (base_addr p) + i * 4096" unfolding i(1) by (rule unat_page_addr [OF ok i(2)])
  have "4096 dvd unat (base_addr p)" using ok by (simp only: pmm_addr_ok_def)
  then show "aligned t" unfolding t by simp
  show "unat t < 2 ^ 48" unfolding t using assms(2) i(2) by simp
qed

lemma tree_table:
  assumes "pt_tree s root" "valid_path p" "tab (pg_mem s) root p = Some t"
  shows "t \<in> taken_pages (pg_pmm s)" "t \<noteq> 0" "aligned t"
proof -
  show t: "t \<in> taken_pages (pg_pmm s)" "t \<noteq> 0" using assms unfolding pt_tree_def by blast+
  show "aligned t" by (rule taken_page_addr(1) [OF _ _ t(1)]) (use assms(1) in \<open>simp_all add: pt_tree_def\<close>)
qed

lemma tree_inj:
  assumes "pt_tree s root" "valid_path p" "valid_path q"
    "tab (pg_mem s) root p = Some t" "tab (pg_mem s) root q = Some t"
  shows "p = q"
  using assms unfolding pt_tree_def by blast

section \<open>A new table\<close>

lemma pmm_alloc_page_fields:
  assumes "pmm_alloc_page p = (a, p')" "pmm_inv p"
  shows "base_addr p' = base_addr p" "total_pages p' = total_pages p"
  using pmm_alloc_page_cases [OF assms(2,1)]
  by (auto simp: took_page_def same_pages_def)

text \<open>A store that differs from \<open>mem\<close> only in a cleared page \<open>n\<close> and in entry \<open>i\<close> of table \<open>t\<close>.\<close>

definition grown :: "(u64 \<Rightarrow> u64) \<Rightarrow> ptr \<Rightarrow> u64 \<Rightarrow> ptr \<Rightarrow> u64 \<Rightarrow> u64 \<Rightarrow> u64" where
  "grown mem t i n v = (\<lambda>a. if a - n < PAGE_SIZE then 0 else mem a)(t + 8 * i := v)"

lemma grown_entry:
  assumes "aligned t" "aligned n" "t \<noteq> n" "i < 512" "aligned y" "j < 512"
  shows "pt_entry (grown mem t i n v) y j = (if y = t \<and> j = i then v else if y = n then 0 else pt_entry mem y j)"
  using assms entry_in_page [OF assms(5,2,6)] entry_addr_eq [OF assms(5,1,6,4)]
  by (auto simp: grown_def pt_entry_def)

lemma tab_grown_mono:
  assumes tree: "pt_tree s root" and p: "valid_path (i # p)" "tab (pg_mem s) root p = Some t"
    and np: "\<not> pte_present (pt_entry (pg_mem s) t i)" and n: "aligned n" "n \<notin> taken_pages (pg_pmm s)"
    and q: "valid_path q" "tab (pg_mem s) root q = Some x"
  shows "tab (grown (pg_mem s) t i n v) root q = Some x"
  using q
proof (induction q arbitrary: x)
  case (Cons j r)
  have pp: "valid_path p" "i < 512" using p(1) by (simp_all add: valid_path_Cons)
  have r: "valid_path r" "j < 512" using Cons.prems(1) by (simp_all add: valid_path_Cons)
  obtain y where y: "tab (pg_mem s) root r = Some y" "pte_present (pt_entry (pg_mem s) y j)"
      "x = pt_entry (pg_mem s) y j AND PAGE_MASK"
    using Cons.prems(2) by (auto simp: Let_def split: option.splits if_splits)
  note ty = tree_table [OF tree r(1) y(1)] and tt = tree_table [OF tree pp(1) p(2)]
  have ne: "t \<noteq> n" "y \<noteq> n" "\<not> (y = t \<and> j = i)" using tt(1) ty(1) n(2) y(2) np by auto
  have "pt_entry (grown (pg_mem s) t i n v) y j = pt_entry (pg_mem s) y j"
    unfolding grown_entry [OF tt(3) n(1) ne(1) pp(2) ty(3) r(2)] using ne by auto
  with Cons.IH [OF r(1) y(1)] y show ?case by (simp add: Let_def)
qed simp

lemma tab_grown_cases:
  assumes tree: "pt_tree s root" and p: "valid_path (i # p)" "tab (pg_mem s) root p = Some t"
    and n: "aligned n" "n \<notin> taken_pages (pg_pmm s)" and v: "v AND PAGE_MASK = n"
    and q: "valid_path q" "tab (grown (pg_mem s) t i n v) root q = Some x"
  shows "tab (pg_mem s) root q = Some x \<or> (q = i # p \<and> x = n)"
  using q
proof (induction q arbitrary: x)
  case (Cons j r)
  have pp: "valid_path p" "i < 512" using p(1) by (simp_all add: valid_path_Cons)
  have r: "valid_path r" "j < 512" using Cons.prems(1) by (simp_all add: valid_path_Cons)
  let ?m = "grown (pg_mem s) t i n v"
  obtain y where y: "tab ?m root r = Some y" "pte_present (pt_entry ?m y j)" "x = pt_entry ?m y j AND PAGE_MASK"
    using Cons.prems(2) by (auto simp: Let_def split: option.splits if_splits)
  note tt = tree_table [OF tree pp(1) p(2)]
  have ne: "t \<noteq> n" using tt(1) n(2) by auto
  note e = grown_entry [OF tt(3) n(1) ne pp(2) _ r(2)]
  from Cons.IH [OF r(1) y(1)] show ?case
  proof
    assume old: "tab (pg_mem s) root r = Some y"
    note ty = tree_table [OF tree r(1) old]
    have "y \<noteq> n" using ty(1) n(2) by auto
    then have ey: "pt_entry ?m y j = (if y = t \<and> j = i then v else pt_entry (pg_mem s) y j)"
      using e [OF ty(3)] by simp
    show ?thesis
    proof (cases "y = t \<and> j = i")
      case True
      then have "r = p" using tree_inj [OF tree r(1) pp(1) old] p(2) by simp
      with True ey y(3) v show ?thesis by simp
    next
      case False
      with ey y old show ?thesis by (simp add: Let_def)
    qed
  next
    assume "r = i # p \<and> y = n"
    with e [OF n(1)] ne y(2) show ?thesis by (simp add: pte_present_def)
  qed
qed simp

lemma grown_tree:
  assumes tree: "pt_tree s root" and p: "valid_path (i # p)" "tab (pg_mem s) root p = Some t"
    and np: "\<not> pte_present (pt_entry (pg_mem s) t i)"
    and n: "aligned n" "n \<notin> taken_pages (pg_pmm s)" "n \<noteq> 0" and v: "v AND PAGE_MASK = n" "\<not> pte_huge v"
    and pm: "pmm_good pm" "taken_pages pm = insert n (taken_pages (pg_pmm s))"
      "base_addr pm = base_addr (pg_pmm s)" "total_pages pm = total_pages (pg_pmm s)"
  shows "pt_tree (s\<lparr>pg_pmm := pm, pg_mem := grown (pg_mem s) t i n v\<rparr>) root"
proof -
  let ?m = "grown (pg_mem s) t i n v"
  note cases = tab_grown_cases [OF tree p n(1,2) v(1)]
  have pp: "valid_path p" "i < 512" using p(1) by (simp_all add: valid_path_Cons)
  note tt = tree_table [OF tree pp(1) p(2)]
  have ne: "t \<noteq> n" using tt(1) n(2) by auto
  have table: "x \<in> insert n (taken_pages (pg_pmm s)) \<and> x \<noteq> 0" if "valid_path q" "tab ?m root q = Some x" for q x
    using cases [OF that] tree_table [OF tree that(1)] n(3) by auto
  have inj: "q = r" if "valid_path q" "valid_path r" "tab ?m root q = Some x" "tab ?m root r = Some x" for q r x
    using cases [OF that(1,3)] cases [OF that(2,4)] tree_inj [OF tree that(1,2)]
      tree_table(1) [OF tree that(1)] tree_table(1) [OF tree that(2)] n(2) by auto
  have nohuge: "\<not> pte_huge (pt_entry ?m y j)"
    if jq: "valid_path (j # q)" and y: "tab ?m root q = Some y" and pr: "pte_present (pt_entry ?m y j)" for j q y
  proof -
    have q: "valid_path q" "j < 512" using jq by (simp_all add: valid_path_Cons)
    note e = grown_entry [OF tt(3) n(1) ne pp(2) _ q(2)]
    from cases [OF q(1) y] show ?thesis
    proof
      assume old: "tab (pg_mem s) root q = Some y"
      note ty = tree_table [OF tree q(1) old]
      have "y \<noteq> n" using ty(1) n(2) by auto
      with e [OF ty(3), of "pg_mem s" v] pr v(2) tree jq old show ?thesis unfolding pt_tree_def
        by (metis (no_types, lifting))
    next
      assume "q = i # p \<and> y = n"
      with e [OF n(1)] ne pr show ?thesis by (simp add: pte_present_def)
    qed
  qed
  show ?thesis unfolding pt_tree_def
    using tree pm table inj nohuge by (simp add: pt_tree_def)
qed

lemma grown_walk:
  assumes tree: "pt_tree s root" and p: "valid_path (i # p)" "tab (pg_mem s) root p = Some t"
    and np: "\<not> pte_present (pt_entry (pg_mem s) t i)"
    and n: "aligned n" "n \<notin> taken_pages (pg_pmm s)" and v: "v AND PAGE_MASK = n"
  shows "mmu_walk (grown (pg_mem s) t i n v) root va = mmu_walk (pg_mem s) root va"
proof -
  let ?m = "grown (pg_mem s) t i n v"
  have pp: "valid_path p" "i < 512" "length p \<le> 2" using p(1) by (simp_all add: valid_path_Cons)
  note tt = tree_table [OF tree pp(1) p(2)]
  have ne: "t \<noteq> n" using tt(1) n(2) by auto
  note e = grown_entry [OF tt(3) n(1) ne pp(2) _ index_lt(4)]
  show ?thesis
  proof (cases "tab (pg_mem s) root (va_path va)")
    case (Some y)
    note ty = tree_table [OF tree valid_va_path Some]
    have "y \<noteq> n" "y \<noteq> t"
      using ty(1) n(2) tree_inj [OF tree valid_va_path pp(1) Some] p(2) pp(3) by (auto simp: va_path_def)
    then have "pt_entry ?m y (PT_INDEX va) = pt_entry (pg_mem s) y (PT_INDEX va)" using e [OF ty(3)] by simp
    with Some tab_grown_mono [OF tree p np n valid_va_path Some] show ?thesis by (simp add: mmu_walk_def)
  next
    case None
    show ?thesis
    proof (cases "tab ?m root (va_path va)")
      case (Some y)
      with tab_grown_cases [OF tree p n v valid_va_path Some] None have "y = n" by simp
      with Some None e [OF n(1)] ne show ?thesis by (simp add: mmu_walk_def pte_present_def)
    qed (use None in \<open>simp add: mmu_walk_def\<close>)
  qed
qed

lemma get_next_level_tree:
  assumes tree: "pt_tree s root" and p: "valid_path (i # p)" "tab (pg_mem s) root p = Some t"
    and fl: "flags AND PAGE_MASK = 0" "\<not> pte_huge flags"
    and r: "get_next_level s t i flags True = Ret (t', s')"
  shows "pt_tree s' root" "tab (pg_mem s') root (i # p) = Some t'" "t' \<noteq> 0"
    "mmu_walk (pg_mem s') root va = mmu_walk (pg_mem s) root va"
proof -
  have "pt_tree s' root \<and> tab (pg_mem s') root (i # p) = Some t' \<and> t' \<noteq> 0 \<and>
    mmu_walk (pg_mem s') root va = mmu_walk (pg_mem s) root va"
  proof (cases "pte_present (pt_entry (pg_mem s) t i)")
    case True
    then have "t' = pt_entry (pg_mem s) t i AND PAGE_MASK" "s' = s"
      using r by (auto simp: get_next_level_def phys_to_virt_ptr_def)
    moreover from this have "tab (pg_mem s) root (i # p) = Some t'" using True p(2) by simp
    ultimately show ?thesis using tree tree_table(2) [OF tree p(1)] by simp
  next
    case False
    obtain n pm where al: "pmm_alloc_page (pg_pmm s) = (n, pm)" by fastforce
    let ?v = "n OR flags OR PTE_PRESENT OR PTE_WRITABLE"
    from r False al have n0: "n \<noteq> 0" and t': "t' = n"
      and s': "s' = s\<lparr>pg_pmm := pm, pg_mem := grown (pg_mem s) t i n ?v\<rparr>"
      by (auto simp: get_next_level_def Let_def virt_to_phys_ptr_def clear_table_def set_pt_entry_def grown_def
          split: if_splits cong: if_cong)
    have g: "pmm_good (pg_pmm s)" "unat (base_addr (pg_pmm s)) + npages (pg_pmm s) * 4096 \<le> 2 ^ 48"
      using tree by (simp_all add: pt_tree_def)
    note fresh = pm.alloc_fresh [OF g(1) al n0]
    have f: "base_addr pm = base_addr (pg_pmm s)" "total_pages pm = total_pages (pg_pmm s)"
      using pmm_alloc_page_fields [OF al] g(1) by (simp_all add: pmm_good_def)
    have n: "aligned n" "unat n < 2 ^ 48"
      using taken_page_addr [of pm n] fresh g(2) f by simp_all
    note fe = frame_of_entry [OF frame_of_aligned [OF n] fl(1)]
    have nt: "n \<notin> taken_pages (pg_pmm s)" using fresh by blast
    have "tab (pg_mem s') root (i # p) = Some n"
    proof -
      have pp: "valid_path p" "i < 512" using p(1) by (simp_all add: valid_path_Cons)
      note tt = tree_table [OF tree pp(1) p(2)]
      have "t \<noteq> n" using tt(1) nt by auto
      from grown_entry [OF tt(3) n(1) this pp(2) tt(3) pp(2), of "pg_mem s" ?v]
        tab_grown_mono [OF tree p False n(1) nt pp(1) p(2), of ?v] fe(1,2)
      show ?thesis by (simp add: s')
    qed
    with grown_tree [OF tree p False n(1) nt n0 fe(1) fe(3) [OF fl(2)], of pm] fresh f
      grown_walk [OF tree p False n(1) nt fe(1), of va] t' n0
    show ?thesis by (simp add: s')
  qed
  then show "pt_tree s' root" "tab (pg_mem s') root (i # p) = Some t'" "t' \<noteq> 0"
    "mmu_walk (pg_mem s') root va = mmu_walk (pg_mem s) root va" by simp_all
qed

section \<open>The last level\<close>

lemma leaf_entry:
  assumes "aligned t" "aligned y" "i < 512" "j < 512"
  shows "pt_entry (pg_mem (set_pt_entry s t i v)) y j = (if y = t \<and> j = i then v else pt_entry (pg_mem s) y j)"
  using entry_addr_eq [OF assms(2,1,4,3)] by (auto simp: set_pt_entry_def pt_entry_def)

lemma leaf_tab:
  assumes tree: "pt_tree s root" and p: "valid_path p" "length p = 3" "tab (pg_mem s) root p = Some t"
    and "i < 512" "valid_path q"
  shows "tab (pg_mem (set_pt_entry s t i v)) root q = tab (pg_mem s) root q"
  using assms(6)
proof (induction q)
  case (Cons j r)
  then have r: "valid_path r" "j < 512" "length r \<le> 2" by (simp_all add: valid_path_Cons)
  show ?case
  proof (cases "tab (pg_mem s) root r")
    case (Some y)
    then have "y \<noteq> t" using tree_inj [OF tree r(1) p(1) Some] p(2,3) r(3) by auto
    with leaf_entry [OF tree_table(3) [OF tree p(1,3)] tree_table(3) [OF tree r(1) Some] assms(5) r(2)] Cons.IH [OF r(1)] Some
    show ?thesis by simp
  qed (use Cons.IH [OF r(1)] in simp)
qed simp

lemma leaf_tree:
  assumes tree: "pt_tree s root" and p: "valid_path p" "length p = 3" "tab (pg_mem s) root p = Some t" and i: "i < 512"
  shows "pt_tree (set_pt_entry s t i v) root"
proof -
  note tb = leaf_tab [OF tree p i]
  have pm: "pg_pmm (set_pt_entry s t i v) = pg_pmm s" by (simp add: set_pt_entry_def)
  have e: "pt_entry (pg_mem (set_pt_entry s t i v)) y j = pt_entry (pg_mem s) y j"
    if "valid_path (j # q)" "tab (pg_mem s) root q = Some y" for j q y
  proof -
    have q: "valid_path q" "j < 512" "length q \<le> 2" using that(1) by (simp_all add: valid_path_Cons)
    then have "y \<noteq> t" using tree_inj [OF tree q(1) p(1) that(2)] p(2,3) by auto
    with leaf_entry [OF tree_table(3) [OF tree p(1,3)] tree_table(3) [OF tree q(1) that(2)] i q(2)]
    show ?thesis by simp
  qed
  have vp: "valid_path (j # q) \<Longrightarrow> valid_path q" for j q by (simp add: valid_path_Cons)
  show ?thesis using tree unfolding pt_tree_def pm by (simp add: tb e vp)
qed

lemma leaf_walk:
  assumes tree: "pt_tree s root" and t: "tab (pg_mem s) root (va_path va) = Some t"
  shows "mmu_walk (pg_mem (set_pt_entry s t (PT_INDEX va) v)) root va' =
    (if va' AND PAGE_MASK = va AND PAGE_MASK then (if pte_present v then Some v else None)
     else mmu_walk (pg_mem s) root va')"
proof -
  have len: "length (va_path va) = 3" by (simp add: va_path_def)
  have eqp: "va' AND PAGE_MASK = va AND PAGE_MASK \<longleftrightarrow> va_path va' = va_path va \<and> PT_INDEX va' = PT_INDEX va"
    unfolding same_page_indices by (auto simp: va_path_def)
  note tb = leaf_tab [OF tree valid_va_path len t index_lt(4) valid_va_path]
  show ?thesis
  proof (cases "tab (pg_mem s) root (va_path va')")
    case None
    with t have "va_path va' \<noteq> va_path va" by auto
    then show ?thesis unfolding eqp mmu_walk_def tb None by simp
  next
    case (Some y)
    have yt: "y = t \<longleftrightarrow> va_path va' = va_path va"
    proof
      assume "y = t"
      then show "va_path va' = va_path va" using tree_inj [OF tree valid_va_path valid_va_path Some] t by simp
    next
      assume "va_path va' = va_path va"
      then show "y = t" using t Some by simp
    qed
    note e = leaf_entry [OF tree_table(3) [OF tree valid_va_path t] tree_table(3) [OF tree valid_va_path Some] index_lt(4,4)]
    have w: "mmu_walk (pg_mem (set_pt_entry s t (PT_INDEX va) v)) root va' =
        (let e = (if va_path va' = va_path va \<and> PT_INDEX va' = PT_INDEX va then v else pt_entry (pg_mem s) y (PT_INDEX va'))
         in if pte_present e then Some e else None)"
      unfolding mmu_walk_def tb Some by (simp add: e yt)
    have w0: "mmu_walk (pg_mem s) root va' =
        (let e = pt_entry (pg_mem s) y (PT_INDEX va') in if pte_present e then Some e else None)"
      by (simp add: mmu_walk_def Some)
    show ?thesis unfolding eqp w w0 by (auto simp: Let_def)
  qed
qed

text \<open>The flags a caller may pass: bits outside the frame and not the huge-page bit.\<close>

definition ok_flags :: "u64 \<Rightarrow> bool" where
  "ok_flags flags \<longleftrightarrow> flags AND PAGE_MASK = 0 \<and> \<not> pte_huge flags"

lemma ok_flags_or: "ok_flags flags \<Longrightarrow> ok_flags (flags OR PTE_PRESENT OR PTE_WRITABLE)"
  by (simp add: ok_flags_def pte_huge_def bit.conj_disj_distrib2)

lemma paging_map_page_tree:
  assumes tree: "pt_tree s pml4" and fl: "ok_flags flags"
    and r: "paging_map_page s pml4 va pa flags = Ret (res, s')"
  defines "pte \<equiv> (pa AND PAGE_MASK) OR (flags OR PTE_PRESENT OR PTE_WRITABLE)"
  shows "res = 0 \<and> pt_tree s' pml4 \<and> mmu_walk (pg_mem s') pml4 va' =
    (if va' AND PAGE_MASK = va AND PAGE_MASK then Some pte else mmu_walk (pg_mem s) pml4 va')"
proof -
  let ?f = "flags OR PTE_PRESENT OR PTE_WRITABLE"
  have f: "?f AND PAGE_MASK = 0" "\<not> pte_huge ?f" using ok_flags_or [OF fl] by (simp_all add: ok_flags_def)
  have root: "valid_path []" "tab (pg_mem s) pml4 [] = Some pml4" by (simp_all add: valid_path_def)
  then have nz: "pml4 \<noteq> 0" using tree_table(2) [OF tree] by blast
  have v: "valid_path [PML4_INDEX va]" "valid_path [PDPT_INDEX va, PML4_INDEX va]"
    "valid_path [PD_INDEX va, PDPT_INDEX va, PML4_INDEX va]" by (simp_all add: valid_path_def)
  from r nz obtain t1 s1 where 1: "get_next_level s pml4 (PML4_INDEX va) ?f True = Ret (t1, s1)"
    by (auto simp: paging_map_page_def Let_def)
  note n1 = get_next_level_tree [OF tree v(1) root(2) f 1]
  from r nz 1 n1(3) obtain t2 s2 where 2: "get_next_level s1 t1 (PDPT_INDEX va) ?f True = Ret (t2, s2)"
    by (auto simp: paging_map_page_def Let_def)
  note n2 = get_next_level_tree [OF n1(1) v(2) n1(2) f 2]
  from r nz 1 2 n1(3) n2(3) obtain t3 s3 where 3: "get_next_level s2 t2 (PD_INDEX va) ?f True = Ret (t3, s3)"
    by (auto simp: paging_map_page_def Let_def)
  note n3 = get_next_level_tree [OF n2(1) v(3) n2(2) f 3]
  have s': "res = 0" "s' = set_pt_entry s3 t3 (PT_INDEX va) pte"
    using r nz 1 2 3 n1(3) n2(3) n3(3) by (auto simp: paging_map_page_def Let_def pte_def)
  have t3: "tab (pg_mem s3) pml4 (va_path va) = Some t3" using n3(2) by (simp only: va_path_def)
  have pr: "pte_present pte" by (simp add: pte_def pte_present_def bit.conj_disj_distrib2 [of _ _ 1])
  have len: "length (va_path va) = 3" by (simp add: va_path_def)
  show ?thesis unfolding s'
    using leaf_walk [OF n3(1) t3] leaf_tree [OF n3(1) valid_va_path len t3 index_lt(4)] pr n1(4) n2(4) n3(4) by simp
qed

lemma no_alloc_level:
  assumes "tab (pg_mem s) root p = Some t"
  shows "get_next_level s t i flags False =
    Ret (case tab (pg_mem s) root (i # p) of None \<Rightarrow> 0 | Some t' \<Rightarrow> t', s)"
  using assms by (simp add: get_next_level_def Let_def phys_to_virt_ptr_def)

lemma paging_unmap_page_tree:
  assumes tree: "pt_tree s pml4"
  shows "\<exists>s'. paging_unmap_page s pml4 va = Ret s' \<and> pt_tree s' pml4 \<and> (\<forall>va'. mmu_walk (pg_mem s') pml4 va' =
    (if va' AND PAGE_MASK = va AND PAGE_MASK then None else mmu_walk (pg_mem s) pml4 va'))"
proof -
  have root: "valid_path []" "tab (pg_mem s) pml4 [] = Some pml4" by (simp_all add: valid_path_def)
  then have nz: "pml4 \<noteq> 0" using tree_table(2) [OF tree] by blast
  have v: "valid_path [PML4_INDEX va]" "valid_path [PDPT_INDEX va, PML4_INDEX va]" by (simp_all add: valid_path_def)
  have same: "va' AND PAGE_MASK = va AND PAGE_MASK \<Longrightarrow> va_path va' = va_path va" for va'
    unfolding same_page_indices by (simp add: va_path_def)
  show ?thesis
  proof (cases "tab (pg_mem s) pml4 (va_path va)")
    case None
    then have "mmu_walk (pg_mem s) pml4 va' = None" if "va' AND PAGE_MASK = va AND PAGE_MASK" for va'
      using same [OF that] by (simp add: mmu_walk_def)
    moreover have "paging_unmap_page s pml4 va = Ret s"
    proof (cases "tab (pg_mem s) pml4 [PML4_INDEX va]")
      case t1: (Some t1)
      show ?thesis
      proof (cases "tab (pg_mem s) pml4 [PDPT_INDEX va, PML4_INDEX va]")
        case t2: (Some t2)
        show ?thesis
          using no_alloc_level [OF root(2)] no_alloc_level [OF t1] no_alloc_level [OF t2] t1 t2 None
          by (simp add: paging_unmap_page_def va_path_def del: tab.simps)
      qed (use no_alloc_level [OF root(2)] no_alloc_level [OF t1] t1 in \<open>simp add: paging_unmap_page_def del: tab.simps\<close>)
    qed (use no_alloc_level [OF root(2)] in \<open>simp add: paging_unmap_page_def del: tab.simps\<close>)
    ultimately show ?thesis using tree by auto
  next
    case (Some t3)
    then obtain t2 where t2: "tab (pg_mem s) pml4 [PDPT_INDEX va, PML4_INDEX va] = Some t2"
      unfolding va_path_def by (cases "tab (pg_mem s) pml4 [PDPT_INDEX va, PML4_INDEX va]") simp_all
    then obtain t1 where t1: "tab (pg_mem s) pml4 [PML4_INDEX va] = Some t1"
      by (cases "tab (pg_mem s) pml4 [PML4_INDEX va]") simp_all
    have len: "length (va_path va) = 3" by (simp add: va_path_def)
    have "paging_unmap_page s pml4 va = Ret (set_pt_entry s t3 (PT_INDEX va) 0)"
      using no_alloc_level [OF root(2)] no_alloc_level [OF t1] no_alloc_level [OF t2] t1 t2 Some nz
        tree_table(2) [OF tree v(1) t1] tree_table(2) [OF tree v(2) t2] tree_table(2) [OF tree valid_va_path Some]
      by (simp add: paging_unmap_page_def va_path_def del: tab.simps)
    with leaf_walk [OF tree Some, of 0] leaf_tree [OF tree valid_va_path len Some index_lt(4)] show ?thesis
      by (simp add: pte_present_def)
  qed
qed

text \<open>
  Where the directory entry is a huge page, as the boot tables have it, \<^verbatim>\<open>paging_map_page\<close> takes the frame of the
  huge page for a table and writes the entry into that memory.
\<close>

lemma map_page_into_huge:
  assumes "pt_entry (pg_mem s) pml4 (PML4_INDEX va) = e4" "pte_present e4"
    and "pt_entry (pg_mem s) (e4 AND PAGE_MASK) (PDPT_INDEX va) = e3" "pte_present e3"
    and "pt_entry (pg_mem s) (e3 AND PAGE_MASK) (PD_INDEX va) = e2" "pte_present e2" "pte_huge e2"
    and "pml4 \<noteq> 0" "e4 AND PAGE_MASK \<noteq> 0" "e3 AND PAGE_MASK \<noteq> 0" "e2 AND PAGE_MASK \<noteq> 0"
  shows "paging_map_page s pml4 va pa flags =
    Ret (0, s\<lparr>pg_mem := (pg_mem s)((e2 AND PAGE_MASK) + 8 * PT_INDEX va :=
      (pa AND PAGE_MASK) OR (flags OR PTE_PRESENT OR PTE_WRITABLE))\<rparr>)"
  using assms by (simp add: paging_map_page_def get_next_level_def phys_to_virt_ptr_def set_pt_entry_def Let_def)

section \<open>Out of memory\<close>

definition free_count :: "pmm_t \<Rightarrow> nat" where
  "free_count p = npages p - card (used_set p)"

lemma alloc_page_count:
  assumes "pmm_good p" "pmm_alloc_page p = (a, p')" "0 < free_count p"
  shows "a \<noteq> 0" "free_count p \<le> Suc (free_count p')"
proof -
  have "a \<noteq> 0 \<and> free_count p \<le> Suc (free_count p')"
  proof -
    have inv: "pmm_inv p" using assms(1) by (simp add: pmm_good_def)
    from inv assms(2) show ?thesis
    proof (cases rule: pmm_alloc_page_cases)
      case (got i)
      note took = got(1) [unfolded took_page_def]
      have "card (used_set p') \<le> Suc (card (used_set p))"
        unfolding used_set_took [OF got(1)] by (simp add: card_insert_if)
      moreover have "a \<noteq> 0" using page_addr_zero [OF assms(1), of i] took got(3) by (auto simp: used_set_def)
      ultimately show ?thesis using took by (simp add: free_count_def)
    next
      case none
      then show ?thesis using assms(3) by (simp add: free_count_def)
    qed
  qed
  then show "a \<noteq> 0" "free_count p \<le> Suc (free_count p')" by auto
qed

lemma get_next_level_returns:
  assumes "pmm_good (pg_pmm s)" "0 < free_count (pg_pmm s)"
  obtains t' s' where "get_next_level s t i flags True = Ret (t', s')"
    "free_count (pg_pmm s) \<le> Suc (free_count (pg_pmm s'))"
proof (cases "pmm_alloc_page (pg_pmm s)")
  case (Pair n p)
  show ?thesis
  proof (cases "pte_present (pt_entry (pg_mem s) t i)")
    case True
    then show ?thesis using that [of _ s] by (simp add: get_next_level_def)
  next
    case False
    note c = alloc_page_count [OF assms(1) Pair assms(2)]
    with False Pair that show ?thesis
      by (simp add: get_next_level_def Let_def clear_table_def set_pt_entry_def)
  qed
qed

lemma paging_map_page_returns:
  assumes tree: "pt_tree s pml4" and fl: "ok_flags flags" and "3 \<le> free_count (pg_pmm s)"
  obtains r s' where "paging_map_page s pml4 va pa flags = Ret (r, s')"
proof -
  let ?f = "flags OR PTE_PRESENT OR PTE_WRITABLE"
  have f: "?f AND PAGE_MASK = 0" "\<not> pte_huge ?f" using ok_flags_or [OF fl] by (simp_all add: ok_flags_def)
  have good: "pt_tree s root \<Longrightarrow> pmm_good (pg_pmm s)" for s root by (simp add: pt_tree_def)
  have root: "tab (pg_mem s) pml4 [] = Some pml4" by simp
  have v: "valid_path [PML4_INDEX va]" "valid_path [PDPT_INDEX va, PML4_INDEX va]" by (simp_all add: valid_path_def)
  obtain t1 s1 where 1: "get_next_level s pml4 (PML4_INDEX va) ?f True = Ret (t1, s1)"
      "free_count (pg_pmm s) \<le> Suc (free_count (pg_pmm s1))"
    using get_next_level_returns [OF good [OF tree]] assms(3) by (metis less_le_trans zero_less_numeral)
  note n1 = get_next_level_tree [OF tree v(1) root f 1(1)]
  have "0 < free_count (pg_pmm s1)" using assms(3) 1(2) by simp
  then obtain t2 s2 where 2: "get_next_level s1 t1 (PDPT_INDEX va) ?f True = Ret (t2, s2)"
      "free_count (pg_pmm s1) \<le> Suc (free_count (pg_pmm s2))"
    using get_next_level_returns [OF good [OF n1(1)]] by metis
  note n2 = get_next_level_tree [OF n1(1) v(2) n1(2) f 2(1)]
  have "0 < free_count (pg_pmm s2)" using assms(3) 1(2) 2(2) by simp
  then obtain t3 s3 where 3: "get_next_level s2 t2 (PD_INDEX va) ?f True = Ret (t3, s3)"
    using get_next_level_returns [OF good [OF n2(1)]] by metis
  have "\<exists>r s'. paging_map_page s pml4 va pa flags = Ret (r, s')"
    using 1(1) 2(1) 3 by (simp add: paging_map_page_def Let_def)
  then show ?thesis using that by blast
qed

section \<open>Ranges\<close>

lemma frame_low:
  assumes "unat va < 2 ^ 48"
  shows "unat (va AND PAGE_MASK) = unat va - unat va mod 4096"
proof -
  have "unat (take_bit 48 va) = unat va" unfolding unsigned_take_bit_eq
    using assms by (rule take_bit_nat_eq_self)
  then have "va AND mask 48 = va" by (simp add: word_unat_eq_iff take_bit_eq_mask)
  then have "va AND PAGE_MASK = va AND NOT (mask 12)" unfolding PAGE_MASK_eq by (simp add: and.assoc [symmetric])
  then show ?thesis by (simp add: unat_and_not_mask)
qed

lemma same_page_low:
  assumes "unat va < 2 ^ 48" "unat v < 2 ^ 48" "aligned v"
  shows "va AND PAGE_MASK = v AND PAGE_MASK \<longleftrightarrow> unat v \<le> unat va \<and> unat va < unat v + 4096"
proof -
  obtain k where k: "unat v = 4096 * k" using assms(3) by (auto simp: dvd_def)
  have "va AND PAGE_MASK = v AND PAGE_MASK \<longleftrightarrow> unat va - unat va mod 4096 = 4096 * k"
    unfolding word_unat_eq_iff frame_low [OF assms(1)] frame_low [OF assms(2)] k by simp
  also have "unat va - unat va mod 4096 = 4096 * (unat va div 4096)" by (simp add: minus_mod_eq_mult_div)
  finally have "va AND PAGE_MASK = v AND PAGE_MASK \<longleftrightarrow> unat va div 4096 = k" by simp
  also have "\<dots> \<longleftrightarrow> k * 4096 \<le> unat va \<and> unat va < k * 4096 + 4096" by auto
  finally show ?thesis unfolding k by (simp add: mult.commute)
qed

text \<open>The entry a range mapping from \<open>v\<close> to \<open>ph\<close> gives the page of \<open>va\<close>.\<close>

definition range_pte :: "u64 \<Rightarrow> u64 \<Rightarrow> u64 \<Rightarrow> u64 \<Rightarrow> u64" where
  "range_pte v ph flags va =
     ((ph + ((va AND PAGE_MASK) - v)) AND PAGE_MASK) OR (flags OR PTE_PRESENT OR PTE_WRITABLE)"

lemma range_pte_next: "range_pte (v + PAGE_SIZE) (ph + PAGE_SIZE) flags va = range_pte v ph flags va"
  by (simp add: range_pte_def algebra_simps)

lemma next_page:
  assumes "aligned v" "aligned w" "unat v + 4096 < 2 ^ 64"
  shows "v \<le> w \<longleftrightarrow> w = v \<or> v + PAGE_SIZE \<le> w"
proof -
  obtain j k where jk: "unat v = 4096 * j" "unat w = 4096 * k" using assms(1,2) by (auto simp: dvd_def)
  have n: "unat (v + PAGE_SIZE) = 4096 * Suc j"
    using assms(3) unat_add_lem [of v PAGE_SIZE] jk(1) by simp
  show ?thesis unfolding word_le_nat_alt word_unat_eq_iff n jk by auto
qed

lemma frame_aligned: "unat va < 2 ^ 48 \<Longrightarrow> aligned (va AND PAGE_MASK)"
  by (simp add: frame_low dvd_minus_mod)

lemma frame_eq_low:
  assumes "unat v < 2 ^ 48" "aligned v"
  shows "va AND PAGE_MASK = v AND PAGE_MASK \<longleftrightarrow> va AND PAGE_MASK = v"
  using frame_of_aligned [OF assms(2,1)] by simp

lemma map_loop_correct:
  assumes "pt_tree s pml4" "ok_flags flags" "aligned v" "unat e + 4096 \<le> 2 ^ 48"
  shows "\<exists>r. map_loop s pml4 v ph e flags = Some r \<and>
     (\<forall>res s'. r = Ret (res, s') \<longrightarrow> res = 0 \<and> pt_tree s' pml4 \<and>
        (\<forall>va. unat va < 2 ^ 48 \<longrightarrow> mmu_walk (pg_mem s') pml4 va =
           (if v \<le> va AND PAGE_MASK \<and> va AND PAGE_MASK < e then Some (range_pte v ph flags va)
            else mmu_walk (pg_mem s) pml4 va)))"
  using assms(1,3)
proof (induction "unat e - unat v" arbitrary: s v ph rule: less_induct)
  case less
  show ?case
  proof (cases "v < e")
    case False
    with less.prems show ?thesis by (auto simp: map_loop.simps)
  next
    case True
    show ?thesis
    proof (cases "paging_map_page s pml4 v ph flags")
      case (Panic msg)
      with True show ?thesis by (simp add: map_loop.simps)
    next
      case (Ret x)
      then obtain res s1 where r: "paging_map_page s pml4 v ph flags = Ret (res, s1)" by (cases x) simp
      note m = paging_map_page_tree [OF less.prems(1) assms(2) r]
      have ve: "unat v < unat e" using True by (simp add: word_less_nat_alt)
      have v48: "unat v < 2 ^ 48" "unat v + 4096 < 2 ^ 64" using ve assms(4) by simp_all
      have n: "unat (v + PAGE_SIZE) = unat v + 4096" using unat_add_lem [of v PAGE_SIZE] v48(2) by simp
      then have al: "aligned (v + PAGE_SIZE)" using less.prems(2) by simp
      have dec: "unat e - unat (v + PAGE_SIZE) < unat e - unat v" using ve unfolding n by simp
      obtain r' where r': "map_loop s1 pml4 (v + PAGE_SIZE) (ph + PAGE_SIZE) e flags = Some r'"
        "\<And>res s'. r' = Ret (res, s') \<Longrightarrow> res = 0 \<and> pt_tree s' pml4 \<and>
        (\<forall>va. unat va < 2 ^ 48 \<longrightarrow> mmu_walk (pg_mem s') pml4 va =
           (if v + PAGE_SIZE \<le> va AND PAGE_MASK \<and> va AND PAGE_MASK < e then Some (range_pte v ph flags va)
            else mmu_walk (pg_mem s1) pml4 va))"
        using less.hyps [OF dec conjunct1 [OF conjunct2 [OF m]] al, of "ph + PAGE_SIZE"] unfolding range_pte_next by blast
      have walk1: "mmu_walk (pg_mem s1) pml4 va =
          (if va AND PAGE_MASK = v then Some (range_pte v ph flags va) else mmu_walk (pg_mem s) pml4 va)" for va
        using m [of va] unfolding frame_eq_low [OF v48(1) less.prems(2)] by (auto simp: range_pte_def)
      have step: "v \<le> va AND PAGE_MASK \<longleftrightarrow> va AND PAGE_MASK = v \<or> v + PAGE_SIZE \<le> va AND PAGE_MASK"
        if "unat va < 2 ^ 48" for va by (rule next_page [OF less.prems(2) frame_aligned [OF that] v48(2)])
      have "map_loop s pml4 v ph e flags = Some r'" using True r r'(1) m by (simp add: map_loop.simps [of s])
      then show ?thesis using r'(2) True by (auto simp: walk1 step)
    qed
  qed
qed

section \<open>Properties\<close>

text \<open>An address space with an empty top table, on the sample allocator.\<close>

definition sample_paging :: paging_t where
  "sample_paging = \<lparr>pg_mem = (\<lambda>_. 0), pg_pmm = sample_pmm, kernel_pml4 = 0x1000, total_phys_pages = 20,
     paging_initialized = True, cr3 = 0x1000\<rparr>"

lemma tab_empty: "tab (\<lambda>_. 0) root path = Some t \<longleftrightarrow> path = [] \<and> t = root"
  by (cases path) (auto simp: pt_entry_def pte_present_def split: option.splits)

lemma sample_tree: "pt_tree sample_paging 0x1000"
proof -
  have "page_addr sample_pmm 0 = 0x1000" "0 \<in> used_set sample_pmm"
    by (simp_all add: sample_used) (simp add: page_addr_def sample_pmm_def)
  then have "0x1000 \<in> taken_pages sample_pmm" unfolding taken_pages_def by (metis imageI)
  with sample_good show ?thesis
    by (simp add: pt_tree_def sample_paging_def tab_empty pt_entry_def pte_present_def) (simp add: sample_pmm_def)
qed

lemma sample_free_count: "free_count (pg_pmm sample_paging) = 17"
  by (simp add: free_count_def sample_paging_def sample_used) (simp add: sample_pmm_def)

text \<open>
  C6 (functional). With three free pages at hand, \<^verbatim>\<open>paging_map_page\<close> succeeds, keeps the tables a tree, and
  changes what the processor finds for exactly the page mapped: there it finds the frame with the flags.
\<close>

theorem paging_map_page_correct:
  assumes "pt_tree s pml4" "ok_flags flags" "3 \<le> free_count (pg_pmm s)"
  shows "\<exists>s'. paging_map_page s pml4 va pa flags = Ret (0, s') \<and> pt_tree s' pml4 \<and>
    (\<forall>va'. mmu_walk (pg_mem s') pml4 va' =
       (if va' AND PAGE_MASK = va AND PAGE_MASK
        then Some ((pa AND PAGE_MASK) OR (flags OR PTE_PRESENT OR PTE_WRITABLE))
        else mmu_walk (pg_mem s) pml4 va'))"
proof -
  obtain r s' where r: "paging_map_page s pml4 va pa flags = Ret (r, s')"
    by (rule paging_map_page_returns [OF assms])
  from paging_map_page_tree [OF assms(1,2) this] r show ?thesis by blast
qed

theorem paging_map_page_correct_witness:
  "\<exists>s'. paging_map_page sample_paging 0x1000 0x40000000 0x7000 PTE_USER = Ret (0, s') \<and>
     mmu_walk (pg_mem s') 0x1000 0x40000123 = Some 0x7007 \<and> mmu_walk (pg_mem s') 0x1000 0x40001000 = None"
proof -
  have none: "mmu_walk (pg_mem sample_paging) 0x1000 0x40001000 = None"
    by (simp add: mmu_walk_def va_path_def sample_paging_def pt_entry_def pte_present_def)
  have "ok_flags PTE_USER" by (simp add: ok_flags_def pte_huge_def)
  from paging_map_page_correct [OF sample_tree this, of "0x40000000" "0x7000"] sample_free_count none
  show ?thesis by auto
qed



text \<open>
  C25 (functional). \<^verbatim>\<open>paging_unmap_page\<close> never fails; afterwards the processor finds nothing for that page and what
  it found before for every other.
\<close>

theorem paging_unmap_page_correct:
  assumes "pt_tree s pml4"
  shows "\<exists>s'. paging_unmap_page s pml4 va = Ret s' \<and> pt_tree s' pml4 \<and>
    (\<forall>va'. mmu_walk (pg_mem s') pml4 va' =
       (if va' AND PAGE_MASK = va AND PAGE_MASK then None else mmu_walk (pg_mem s) pml4 va'))"
  by (rule paging_unmap_page_tree [OF assms])

theorem paging_unmap_page_correct_witness:
  "\<exists>s'. paging_unmap_page sample_paging 0x1000 0x40000000 = Ret s' \<and> mmu_walk (pg_mem s') 0x1000 0x40000123 = None"
  using paging_unmap_page_correct [OF sample_tree, of "0x40000000"] by auto

end
