(* ===== verification/KString.thy ===== *)
theory KString
  imports KPrelude
begin

text \<open>
  The memory and string routines of \<^verbatim>\<open>src/libk/string.c\<close> over a byte memory \<open>u64 \<Rightarrow> u8\<close>.

  Addresses are 64-bit words; counters of type \<^verbatim>\<open>sz\<close> are converted to natural numbers at the entry of a
  routine. Words are loaded and stored byte by byte, low byte first. The loops that look for a terminator
  have no value when they run past every address. \<^verbatim>\<open>memcpy\<close> is the branch compiled on the target,
  \<^verbatim>\<open>rep movsb\<close>; the portable branch is \<open>memcpy_words\<close>. A read outside the digit table, as \<^verbatim>\<open>itoa\<close> makes it on
  negative numbers, is \<open>None\<close>. \<^verbatim>\<open>strdup\<close> is in \<open>KHeap\<close>, beside the allocator it calls.

  The lemmas show that the word-wise routines move and fill exactly the bytes a byte-wise description
  says, and that the string routines agree with the operations on lists of bytes.
\<close>

section \<open>Words in memory\<close>

definition load_u64 :: "mem \<Rightarrow> u64 \<Rightarrow> u64" where
  "load_u64 mem a =
     fold (\<lambda>i w. w OR push_bit (8 * i) (ucast (mem (a + of_nat i)))) [0..<8] 0"

definition store_u64 :: "mem \<Rightarrow> u64 \<Rightarrow> u64 \<Rightarrow> mem" where
  "store_u64 mem a w = (\<lambda>x. if x - a < 8 then ucast (drop_bit (8 * unat (x - a)) w) else mem x)"

section \<open>Memory blocks\<close>

text \<open>\<^verbatim>\<open>rep movsb\<close>, and every loop \<^verbatim>\<open>while (n--) *dst++ = *src++\<close>.\<close>

primrec movsb :: "nat \<Rightarrow> mem \<Rightarrow> u64 \<Rightarrow> u64 \<Rightarrow> mem" where
  "movsb 0 mem dst src = mem"
| "movsb (Suc n) mem dst src = movsb n (mem(dst := mem src)) (dst + 1) (src + 1)"

definition memcpy :: "mem \<Rightarrow> u64 \<Rightarrow> u64 \<Rightarrow> u64 \<Rightarrow> mem" where
  "memcpy mem dst src n = (if n = 0 \<or> dst = src then mem else movsb (unat n) mem dst src)"

fun copy_head :: "nat \<Rightarrow> mem \<Rightarrow> u64 \<Rightarrow> u64 \<Rightarrow> mem \<times> u64 \<times> u64 \<times> nat" where
  "copy_head n mem dst src =
     (if n > 0 \<and> dst AND 7 \<noteq> 0 then copy_head (n - 1) (mem(dst := mem src)) (dst + 1) (src + 1)
      else (mem, dst, src, n))"

declare copy_head.simps [simp del]

fun copy_words :: "nat \<Rightarrow> mem \<Rightarrow> u64 \<Rightarrow> u64 \<Rightarrow> mem \<times> u64 \<times> u64 \<times> nat" where
  "copy_words n mem dst src =
     (if n \<ge> 8 then copy_words (n - 8) (store_u64 mem dst (load_u64 mem src)) (dst + 8) (src + 8)
      else (mem, dst, src, n))"

declare copy_words.simps [simp del]

text \<open>The portable branch of \<^verbatim>\<open>memcpy\<close>; its unrolled loop of four words is four turns of \<open>copy_words\<close>.\<close>

definition memcpy_words :: "mem \<Rightarrow> u64 \<Rightarrow> u64 \<Rightarrow> u64 \<Rightarrow> mem" where
  "memcpy_words mem dst src n =
     (if n = 0 \<or> dst = src then mem
      else let (mem, dst, src, n) = copy_head (unat n) mem dst src;
               (mem, dst, src, n) = (if src AND 7 = dst AND 7 then copy_words n mem dst src
                                     else (mem, dst, src, n))
      in movsb n mem dst src)"

fun set_head :: "nat \<Rightarrow> mem \<Rightarrow> u64 \<Rightarrow> u8 \<Rightarrow> mem \<times> u64 \<times> nat" where
  "set_head n mem p val =
     (if n > 0 \<and> p AND 7 \<noteq> 0 then set_head (n - 1) (mem(p := val)) (p + 1) val else (mem, p, n))"

declare set_head.simps [simp del]

fun set_words :: "nat \<Rightarrow> mem \<Rightarrow> u64 \<Rightarrow> u64 \<Rightarrow> mem \<times> u64 \<times> nat" where
  "set_words n mem p word =
     (if n \<ge> 8 then set_words (n - 8) (store_u64 mem p word) (p + 8) word else (mem, p, n))"

declare set_words.simps [simp del]

primrec set_tail :: "nat \<Rightarrow> mem \<Rightarrow> u64 \<Rightarrow> u8 \<Rightarrow> mem" where
  "set_tail 0 mem p val = mem"
| "set_tail (Suc n) mem p val = set_tail n (mem(p := val)) (p + 1) val"

definition fill_word :: "u8 \<Rightarrow> u64" where
  "fill_word val =
     (let word = ucast val;
          word = word OR push_bit 8 word;
          word = word OR push_bit 16 word
      in word OR push_bit 32 word)"

definition memset :: "mem \<Rightarrow> u64 \<Rightarrow> u32 \<Rightarrow> u64 \<Rightarrow> mem" where
  "memset mem s c n =
     (let val = (ucast c :: u8);
          (mem, p, n) = set_head (unat n) mem s val;
          (mem, p, n) = (if n \<ge> 8 then set_words n mem p (fill_word val) else (mem, p, n))
      in set_tail n mem p val)"

function memcmp_from :: "mem \<Rightarrow> u64 \<Rightarrow> u64 \<Rightarrow> nat \<Rightarrow> nat \<Rightarrow> int" where
  "memcmp_from mem a b i num =
     (if i < num then
        (if mem (a + of_nat i) \<noteq> mem (b + of_nat i)
         then int (unat (mem (a + of_nat i))) - int (unat (mem (b + of_nat i)))
         else memcmp_from mem a b (i + 1) num)
      else 0)"
  by pat_completeness auto
termination by (relation "measure (\<lambda>(mem, a, b, i, num). num - i)") auto

declare memcmp_from.simps [simp del]

definition memcmp :: "mem \<Rightarrow> u64 \<Rightarrow> u64 \<Rightarrow> u64 \<Rightarrow> int" where
  "memcmp mem ptr1 ptr2 num = memcmp_from mem ptr1 ptr2 0 (unat num)"

fun back_head :: "nat \<Rightarrow> mem \<Rightarrow> u64 \<Rightarrow> u64 \<Rightarrow> mem \<times> u64 \<times> u64 \<times> nat" where
  "back_head n mem dst src =
     (if n > 0 \<and> dst AND 7 \<noteq> 0
      then back_head (n - 1) (mem(dst - 1 := mem (src - 1))) (dst - 1) (src - 1)
      else (mem, dst, src, n))"

declare back_head.simps [simp del]

fun back_words :: "nat \<Rightarrow> mem \<Rightarrow> u64 \<Rightarrow> u64 \<Rightarrow> mem \<times> u64 \<times> u64 \<times> nat" where
  "back_words n mem dst src =
     (if n \<ge> 8 then back_words (n - 8) (store_u64 mem (dst - 8) (load_u64 mem (src - 8))) (dst - 8) (src - 8)
      else (mem, dst, src, n))"

declare back_words.simps [simp del]

primrec back_tail :: "nat \<Rightarrow> mem \<Rightarrow> u64 \<Rightarrow> u64 \<Rightarrow> mem" where
  "back_tail 0 mem dst src = mem"
| "back_tail (Suc n) mem dst src = back_tail n (mem(dst - 1 := mem (src - 1))) (dst - 1) (src - 1)"

definition memmove :: "mem \<Rightarrow> u64 \<Rightarrow> u64 \<Rightarrow> u64 \<Rightarrow> mem" where
  "memmove mem dst src n =
     (if n = 0 \<or> dst = src then mem
      else if dst < src then
        (let (mem, dst, src, n) = copy_head (unat n) mem dst src;
             (mem, dst, src, n) = copy_words n mem dst src
         in movsb n mem dst src)
      else
        (let (mem, dst, src, n) = back_head (unat n) mem (dst + n) (src + n);
             (mem, dst, src, n) = back_words n mem dst src
         in back_tail n mem dst src))"

function match_from :: "mem \<Rightarrow> u64 \<Rightarrow> u64 \<Rightarrow> nat \<Rightarrow> nat \<Rightarrow> nat" where
  "match_from mem h n j len =
     (if j < len then
        (if mem (h + of_nat j) \<noteq> mem (n + of_nat j) then j else match_from mem h n (j + 1) len)
      else j)"
  by pat_completeness auto
termination by (relation "measure (\<lambda>(mem, h, n, j, len). len - j)") auto

declare match_from.simps [simp del]

function memmem_from :: "mem \<Rightarrow> u64 \<Rightarrow> u64 \<Rightarrow> nat \<Rightarrow> nat \<Rightarrow> nat \<Rightarrow> u64" where
  "memmem_from mem h n needle_len i lim =
     (if i \<le> lim then
        (if match_from mem (h + of_nat i) n 0 needle_len = needle_len then h + of_nat i
         else memmem_from mem h n needle_len (i + 1) lim)
      else 0)"
  by pat_completeness auto
termination by (relation "measure (\<lambda>(mem, h, n, m, i, lim). Suc lim - i)") auto

declare memmem_from.simps [simp del]

definition memmem :: "mem \<Rightarrow> u64 \<Rightarrow> u64 \<Rightarrow> u64 \<Rightarrow> u64 \<Rightarrow> u64" where
  "memmem mem haystack haystack_len needle needle_len =
     (if needle_len = 0 then haystack
      else if haystack_len < needle_len then 0
      else memmem_from mem haystack needle (unat needle_len) 0 (unat haystack_len - unat needle_len))"

section \<open>Strings\<close>

text \<open>Scanning to the terminator: the address of the first zero byte at or after \<open>p\<close>.\<close>

partial_function (option) str_end :: "mem \<Rightarrow> u64 \<Rightarrow> u64 option" where
  "str_end mem p = (if mem p \<noteq> 0 then str_end mem (p + 1) else Some p)"

definition strlen :: "mem \<Rightarrow> u64 \<Rightarrow> u64 option" where
  "strlen mem s = do { p \<leftarrow> str_end mem s; Some (p - s) }"

text \<open>\<^verbatim>\<open>while ((*d++ = *src++));\<close>\<close>

partial_function (option) copy_str :: "mem \<Rightarrow> u64 \<Rightarrow> u64 \<Rightarrow> mem option" where
  "copy_str mem d src =
     (let c = mem src; mem = mem(d := c) in if c \<noteq> 0 then copy_str mem (d + 1) (src + 1) else Some mem)"

definition strcpy :: "mem \<Rightarrow> u64 \<Rightarrow> u64 \<Rightarrow> mem option" where
  "strcpy mem dst src = copy_str mem dst src"

function strncpy_from :: "mem \<Rightarrow> u64 \<Rightarrow> u64 \<Rightarrow> nat \<Rightarrow> nat \<Rightarrow> mem \<times> nat" where
  "strncpy_from mem dst src i n =
     (if i < n \<and> mem (src + of_nat i) \<noteq> 0
      then strncpy_from (mem(dst + of_nat i := mem (src + of_nat i))) dst src (i + 1) n
      else (mem, i))"
  by pat_completeness auto
termination by (relation "measure (\<lambda>(mem, dst, src, i, n). n - i)") auto

declare strncpy_from.simps [simp del]

function zero_from :: "mem \<Rightarrow> u64 \<Rightarrow> nat \<Rightarrow> nat \<Rightarrow> mem" where
  "zero_from mem dst i n = (if i < n then zero_from (mem(dst + of_nat i := 0)) dst (i + 1) n else mem)"
  by pat_completeness auto
termination by (relation "measure (\<lambda>(mem, dst, i, n). n - i)") auto

declare zero_from.simps [simp del]

definition strncpy :: "mem \<Rightarrow> u64 \<Rightarrow> u64 \<Rightarrow> u64 \<Rightarrow> mem" where
  "strncpy mem dst src n =
     (let (mem, i) = strncpy_from mem dst src 0 (unat n) in zero_from mem dst i (unat n))"

definition strcat :: "mem \<Rightarrow> u64 \<Rightarrow> u64 \<Rightarrow> mem option" where
  "strcat mem dst src = do { d \<leftarrow> str_end mem dst; copy_str mem d src }"

partial_function (option) strcmp :: "mem \<Rightarrow> u64 \<Rightarrow> u64 \<Rightarrow> int option" where
  "strcmp mem a b =
     (if mem a = mem b \<and> mem a \<noteq> 0 then strcmp mem (a + 1) (b + 1)
      else Some (int (unat (mem a)) - int (unat (mem b))))"

function strncmp_from :: "mem \<Rightarrow> u64 \<Rightarrow> u64 \<Rightarrow> nat \<Rightarrow> nat \<Rightarrow> int" where
  "strncmp_from mem a b i n =
     (if i < n then
        (let ca = mem (a + of_nat i); cb = mem (b + of_nat i)
         in if ca \<noteq> cb then int (unat ca) - int (unat cb)
            else if ca = 0 then 0 else strncmp_from mem a b (i + 1) n)
      else 0)"
  by pat_completeness auto
termination by (relation "measure (\<lambda>(mem, a, b, i, n). n - i)") auto

declare strncmp_from.simps [simp del]

definition strncmp :: "mem \<Rightarrow> u64 \<Rightarrow> u64 \<Rightarrow> u64 \<Rightarrow> int" where
  "strncmp mem a b n = strncmp_from mem a b 0 (unat n)"

partial_function (option) strchr :: "mem \<Rightarrow> u64 \<Rightarrow> u8 \<Rightarrow> u64 option" where
  "strchr mem s c =
     (if mem s \<noteq> 0 then (if mem s = c then Some s else strchr mem (s + 1) c)
      else if c = 0 then Some s else Some 0)"

partial_function (option) strrchr_from :: "mem \<Rightarrow> u64 \<Rightarrow> u8 \<Rightarrow> u64 \<Rightarrow> u64 option" where
  "strrchr_from mem s c prev =
     (if mem s \<noteq> 0 then strrchr_from mem (s + 1) c (if mem s = c then s else prev)
      else if c = 0 then Some s else Some prev)"

definition strrchr :: "mem \<Rightarrow> u64 \<Rightarrow> u8 \<Rightarrow> u64 option" where
  "strrchr mem s c = strrchr_from mem s c 0"

definition strncat :: "mem \<Rightarrow> u64 \<Rightarrow> u64 \<Rightarrow> u64 \<Rightarrow> mem option" where
  "strncat mem dest src n = do {
     d \<leftarrow> str_end mem dest;
     let (mem, i) = strncpy_from mem d src 0 (unat n);
     Some (mem(d + of_nat i := 0)) }"

text \<open>The two scans of \<^verbatim>\<open>strtok_r\<close>: over the delimiters, and over the token.\<close>

partial_function (option) skip_delim :: "mem \<Rightarrow> u64 \<Rightarrow> u64 \<Rightarrow> u64 option" where
  "skip_delim mem delim p =
     (if mem p = 0 then Some p
      else case strchr mem delim (mem p) of
             None \<Rightarrow> None
           | Some q \<Rightarrow> if q \<noteq> 0 then skip_delim mem delim (p + 1) else Some p)"

partial_function (option) skip_token :: "mem \<Rightarrow> u64 \<Rightarrow> u64 \<Rightarrow> u64 option" where
  "skip_token mem delim p =
     (if mem p = 0 then Some p
      else case strchr mem delim (mem p) of
             None \<Rightarrow> None
           | Some q \<Rightarrow> if q = 0 then skip_token mem delim (p + 1) else Some p)"

definition strtok_r :: "mem \<Rightarrow> u64 \<Rightarrow> u64 \<Rightarrow> u64 \<Rightarrow> (u64 \<times> u64 \<times> mem) option" where
  "strtok_r mem str delim saveptr =
     (let saveptr = (if str \<noteq> 0 then str else saveptr)
      in if saveptr = 0 then Some (0, saveptr, mem)
         else do {
           start \<leftarrow> skip_delim mem delim saveptr;
           if mem start = 0 then Some (0, 0, mem)
           else do {
             p \<leftarrow> skip_token mem delim start;
             if mem p \<noteq> 0 then Some (start, p + 1, mem(p := 0)) else Some (start, 0, mem) } })"

function nameeq_from :: "mem \<Rightarrow> u64 \<Rightarrow> u64 \<Rightarrow> nat \<Rightarrow> nat \<Rightarrow> bool" where
  "nameeq_from mem a b i n =
     (if i < n then
        (let ca = mem (a + of_nat i); cb = mem (b + of_nat i)
         in if ca = 0 \<and> cb = 0 then True
            else if ca \<noteq> cb then False else nameeq_from mem a b (i + 1) n)
      else True)"
  by pat_completeness auto
termination by (relation "measure (\<lambda>(mem, a, b, i, n). n - i)") auto

declare nameeq_from.simps [simp del]

definition nameeq :: "mem \<Rightarrow> u64 \<Rightarrow> u64 \<Rightarrow> u64 \<Rightarrow> bool" where
  "nameeq mem a b n = nameeq_from mem a b 0 (unat n)"

section \<open>Numbers\<close>

definition digit_chars :: "u8 list" where
  "digit_chars = map of_char ''0123456789abcdefghijklmnopqrstuvwxyz''"

text \<open>The table lookup \<^verbatim>\<open>"0123..."[i]\<close>; outside the table there is no value.\<close>

definition digit_char :: "int \<Rightarrow> u8 option" where
  "digit_char i = (if 0 \<le> i \<and> i < 36 then Some (digit_chars ! nat i) else None)"

text \<open>The digits of a number, written from \<open>p\<close> upwards, lowest first.\<close>

function utoa_digits :: "mem \<Rightarrow> u64 \<Rightarrow> nat \<Rightarrow> nat \<Rightarrow> mem \<times> u64" where
  "utoa_digits mem p value base =
     (let value' = value div base;
          mem = mem(p := digit_chars ! (value - value' * base))
      in if value' \<noteq> 0 \<and> 2 \<le> base then utoa_digits mem (p + 1) value' base else (mem, p + 1))"
  by pat_completeness auto
termination by (relation "measure (\<lambda>(mem, p, value, base). value)") (auto intro!: div_less_dividend gr0I)

declare utoa_digits.simps [simp del]

function reverse_bytes :: "mem \<Rightarrow> u64 \<Rightarrow> u64 \<Rightarrow> mem" where
  "reverse_bytes mem lo hi =
     (if lo < hi then reverse_bytes (mem(hi := mem lo, lo := mem hi)) (lo + 1) (hi - 1) else mem)"
  by pat_completeness auto
termination
proof (relation "measure (\<lambda>(mem, lo, hi). unat hi - unat lo)")
  fix mem :: mem and lo hi :: u64
  assume "lo < hi"
  then have "unat (hi - 1) = unat hi - 1" "unat (lo + 1) = unat lo + 1" "unat lo < unat hi"
    by (auto simp: unat_sub word_less_nat_alt word_le_nat_alt unat_Suc_less)
  then show "((mem(hi := mem lo, lo := mem hi), lo + 1, hi - 1), mem, lo, hi) \<in>
      measure (\<lambda>(mem, lo, hi). unat hi - unat lo)" by simp
qed simp

declare reverse_bytes.simps [simp del]

definition utoa :: "mem \<Rightarrow> u32 \<Rightarrow> u64 \<Rightarrow> int \<Rightarrow> mem" where
  "utoa mem value str base =
     (if base < 2 \<or> base > 36 then mem(str := 0)
      else let (mem, p) = utoa_digits mem str (unat value) (nat base)
      in reverse_bytes (mem(p := 0)) str (p - 1))"

text \<open>\<^verbatim>\<open>itoa\<close> divides with truncation towards zero, so a negative number gives negative table indices.\<close>

definition c_div :: "int \<Rightarrow> int \<Rightarrow> int" where
  "c_div a b = sgn a * sgn b * (\<bar>a\<bar> div \<bar>b\<bar>)"

function itoa_digits :: "mem \<Rightarrow> u64 \<Rightarrow> int \<Rightarrow> int \<Rightarrow> (mem \<times> u64) option" where
  "itoa_digits mem p value base =
     (let value' = c_div value base
      in case digit_char (value - value' * base) of
           None \<Rightarrow> None
         | Some c \<Rightarrow> (if value' \<noteq> 0 \<and> 2 \<le> base then itoa_digits (mem(p := c)) (p + 1) value' base
                     else Some (mem(p := c), p + 1)))"
  by pat_completeness auto
termination
proof (relation "measure (\<lambda>(mem, p, value, base). nat \<bar>value\<bar>)")
  fix mem :: mem and p :: u64 and v base x :: int and c :: u8
  assume a: "x = c_div v base" and b: "x \<noteq> 0 \<and> 2 \<le> base"
  from a b have "v \<noteq> 0" by (auto simp: c_div_def)
  moreover have "\<bar>v\<bar> div base < \<bar>v\<bar>" using b \<open>v \<noteq> 0\<close> by (intro int_div_less_self) auto
  moreover have "0 \<le> \<bar>v\<bar> div base" using b by (simp add: pos_imp_zdiv_nonneg_iff)
  ultimately show "((mem(p := c), p + 1, x, base), mem, p, v, base) \<in>
      measure (\<lambda>(mem, p, value, base). nat \<bar>value\<bar>)"
    using a b by (simp add: c_div_def abs_mult abs_sgn_eq)
qed simp

declare itoa_digits.simps [simp del]

definition itoa :: "mem \<Rightarrow> int \<Rightarrow> u64 \<Rightarrow> int \<Rightarrow> mem option" where
  "itoa mem value str base =
     (if base < 2 \<or> base > 36 then Some (mem(str := 0))
      else case itoa_digits mem str value base of
             None \<Rightarrow> None
           | Some (mem, p) \<Rightarrow> Some (reverse_bytes (mem(p := 0)) str (p - 1)))"

function strstr_from :: "mem \<Rightarrow> u64 \<Rightarrow> u64 \<Rightarrow> nat \<Rightarrow> nat \<Rightarrow> nat \<Rightarrow> u64" where
  "strstr_from mem haystack needle needle_len i lim =
     (if i \<le> lim then
        (if mem (haystack + of_nat i) \<noteq> mem needle
         then strstr_from mem haystack needle needle_len (i + 1) lim
         else if match_from mem (haystack + of_nat i) needle 1 needle_len = needle_len
         then haystack + of_nat i
         else strstr_from mem haystack needle needle_len (i + 1) lim)
      else 0)"
  by pat_completeness auto
termination by (relation "measure (\<lambda>(mem, h, n, m, i, lim). Suc lim - i)") auto

declare strstr_from.simps [simp del]

definition strstr :: "mem \<Rightarrow> u64 \<Rightarrow> u64 \<Rightarrow> u64 option" where
  "strstr mem haystack needle =
     (if haystack = 0 \<or> needle = 0 then Some 0
      else if mem needle = 0 then Some haystack
      else do {
        needle_len \<leftarrow> strlen mem needle;
        haystack_len \<leftarrow> strlen mem haystack;
        if needle_len > haystack_len then Some 0
        else Some (strstr_from mem haystack needle (unat needle_len) 0 (unat haystack_len - unat needle_len)) })"

text \<open>
  \<^verbatim>\<open>atoi\<close> and \<^verbatim>\<open>atol\<close> differ in the width of the result; the arithmetic wraps at that width (overflow of a
  signed integer is undefined in C).
\<close>

partial_function (option) skip_blanks :: "mem \<Rightarrow> u64 \<Rightarrow> u64 option" where
  "skip_blanks mem p =
     (if mem p = of_char CHR '' '' \<or> mem p = 9 then skip_blanks mem (p + 1) else Some p)"

definition is_digit :: "u8 \<Rightarrow> bool" where
  "is_digit c \<longleftrightarrow> 0x30 \<le> c \<and> c \<le> 0x39"

partial_function (option) read_digits :: "mem \<Rightarrow> u64 \<Rightarrow> 'a::len word \<Rightarrow> 'a word option" where
  "read_digits mem p result =
     (if is_digit (mem p) then read_digits mem (p + 1) (result * 10 + ucast (mem p - 0x30)) else Some result)"

definition read_number :: "mem \<Rightarrow> u64 \<Rightarrow> 'a::len word option" where
  "read_number mem str =
     (if str = 0 then Some 0
      else do {
        p \<leftarrow> skip_blanks mem str;
        let (sign, p) = (if mem p = 0x2D then (- 1, p + 1) else if mem p = 0x2B then (1, p + 1) else (1, p));
        r \<leftarrow> read_digits mem p 0;
        Some (r * sign) })"

definition atoi :: "mem \<Rightarrow> u64 \<Rightarrow> u32 option" where
  "atoi mem str = read_number mem str"

definition atol :: "mem \<Rightarrow> u64 \<Rightarrow> u64 option" where
  "atol mem str = read_number mem str"

section \<open>Copies\<close>

lemma bit_load_fold:
  assumes "n < 64" "k \<le> 8"
  shows "bit (fold (\<lambda>i w. w OR push_bit (8 * i) (ucast (mem (a + of_nat i)))) [0..<k] (0 :: u64)) n \<longleftrightarrow>
     n div 8 < k \<and> bit (mem (a + of_nat (n div 8)) :: u8) (n mod 8)"
  using assms(2)
proof (induction k)
  case (Suc k)
  have "bit (push_bit (8 * k) (ucast (mem (a + of_nat k)) :: u64)) n \<longleftrightarrow>
      n div 8 = k \<and> bit (mem (a + of_nat (n div 8))) (n mod 8)"
  proof (cases "8 * k \<le> n \<and> n < 8 * k + 8")
    case True
    then have d: "n div 8 = k" by auto
    then have "n mod 8 = n - 8 * k" by (auto simp: modulo_nat_def)
    with d True assms(1) show ?thesis by (auto simp: bit_push_bit_iff bit_ucast_iff)
  next
    case False
    then have "n div 8 \<noteq> k" by auto
    moreover have "\<not> bit (push_bit (8 * k) (ucast (mem (a + of_nat k)) :: u64)) n"
      using False bit_imp_le_length [of "mem (a + of_nat k)" "n - 8 * k"]
      by (auto simp: bit_push_bit_iff bit_ucast_iff)
    ultimately show ?thesis by simp
  qed
  with Suc show ?case by (auto simp: bit_or_iff less_Suc_eq)
qed simp

lemma bit_load_u64: "n < 64 \<Longrightarrow> bit (load_u64 mem a) n \<longleftrightarrow> bit (mem (a + of_nat (n div 8))) (n mod 8)"
  using bit_load_fold [of n 8 mem a] by (auto simp: load_u64_def)

text \<open>The memory after \<open>n\<close> bytes from \<open>src\<close> were copied to \<open>dst\<close> all at once.\<close>

definition copied :: "mem \<Rightarrow> u64 \<Rightarrow> u64 \<Rightarrow> nat \<Rightarrow> mem" where
  "copied mem dst src n = (\<lambda>x. if unat (x - dst) < n then mem (src + (x - dst)) else mem x)"

lemma store_load: "store_u64 mem dst (load_u64 mem src) = copied mem dst src 8"
proof
  fix x
  show "store_u64 mem dst (load_u64 mem src) x = copied mem dst src 8 x"
  proof (cases "x - dst < 8")
    case True
    then have k: "unat (x - dst) < 8" by (simp add: word_less_nat_alt)
    have "ucast (drop_bit (8 * unat (x - dst)) (load_u64 mem src)) = mem (src + (x - dst))"
    proof (rule bit_eqI)
      fix n assume "possible_bit TYPE(u8) n"
      then have n: "n < 8" by simp
      have "8 * unat (x - dst) + n < 64" "(8 * unat (x - dst) + n) div 8 = unat (x - dst)"
        "(8 * unat (x - dst) + n) mod 8 = n" using n k by auto
      then show "bit (ucast (drop_bit (8 * unat (x - dst)) (load_u64 mem src)) :: u8) n = bit (mem (src + (x - dst))) n"
        using n by (simp add: bit_ucast_iff bit_drop_bit_eq bit_load_u64)
    qed
    with True k show ?thesis by (simp add: store_u64_def copied_def)
  next
    case False
    then have "\<not> unat (x - dst) < 8" by (simp add: word_less_nat_alt)
    with False show ?thesis by (simp add: store_u64_def copied_def)
  qed
qed

lemma copied_0 [simp]: "copied mem dst src 0 = mem"
  by (simp add: copied_def)

lemma copied_1: "mem(dst := mem src) = copied mem dst src 1"
  by (auto simp: copied_def unat_eq_zero)

lemma copied_same: "copied mem a a n = mem"
  by (auto simp: copied_def)

lemma unat_minus_of_nat:
  fixes y :: u64
  assumes "k < 2 ^ 64"
  shows "unat (y - of_nat k) = (if k \<le> unat y then unat y - k else unat y + 2 ^ 64 - k)"
  using assms by (simp add: unat_sub_if' unat_of_nat)

text \<open>
  Copying in pieces: a piece of \<open>c\<close> bytes after \<open>k\<close> bytes have been copied upwards, or before the \<open>k\<close>
  bytes copied downwards. The piece must not read what was already written, which is what the
  distances, taken modulo \<open>2 ^ 64\<close>, say.
\<close>

lemma copied_up:
  assumes "k + c \<le> unat (dst - src)"
  shows "copied (copied mem dst src k) (dst + of_nat k) (src + of_nat k) c = copied mem dst src (k + c)"
proof
  fix x
  define y where "y = x - dst"
  have D: "unat (dst - src) < 2 ^ 64" using unsigned_less [of "dst - src"] by simp
  have yl: "unat y < 2 ^ 64" using unsigned_less [of y] by simp
  have k: "k < 2 ^ 64" "k + c < 2 ^ 64" using assms D by simp_all
  have x: "x - (dst + of_nat k) = y - of_nat k" "src + of_nat k + (y - of_nat k) = src + y"
    "src + y - dst = y - (dst - src)" by (simp_all add: y_def algebra_simps)
  have in_piece: "unat (y - of_nat k) < c \<longleftrightarrow> k \<le> unat y \<and> unat y < k + c"
    unfolding unat_minus_of_nat [OF k(1)] using k yl by auto
  have "k \<le> unat (y - (dst - src))" if "k \<le> unat y" "unat y < k + c"
    using unat_minus_of_nat [OF D, of y] that assms D by (simp add: of_nat_unat)
  then show "copied (copied mem dst src k) (dst + of_nat k) (src + of_nat k) c x = copied mem dst src (k + c) x"
    unfolding copied_def x y_def [symmetric] in_piece by auto
qed

lemma copied_down:
  assumes "k + c \<le> unat (src - dst)"
  shows "copied (copied mem dst src k) (dst - of_nat c) (src - of_nat c) c =
    copied mem (dst - of_nat c) (src - of_nat c) (k + c)"
proof
  fix x
  define y where "y = x - (dst - of_nat c)"
  have D: "unat (src - dst) < 2 ^ 64" using unsigned_less [of "src - dst"] by simp
  have yl: "unat y < 2 ^ 64" using unsigned_less [of y] by simp
  have c: "c < 2 ^ 64" "k + c < 2 ^ 64" using assms D by simp_all
  have x: "x - dst = y - of_nat c" "src + (y - of_nat c) = src - of_nat c + y" by (simp_all add: y_def algebra_simps)
  have "k \<le> unat (src - of_nat c + y - dst)" if "unat y < c"
  proof -
    have "unat (of_nat c - y) = c - unat y" using that c by (simp add: unat_sub_if' unat_of_nat)
    then have "unat ((src - dst) - (of_nat c - y)) = unat (src - dst) - (c - unat y)"
      using assms that by (simp add: unat_sub_if')
    moreover have e: "src - of_nat c + y - dst = (src - dst) - (of_nat c - y)" by (simp add: algebra_simps)
    ultimately show ?thesis unfolding e using assms that by linarith
  qed
  moreover have "unat (y - of_nat c) < k \<longleftrightarrow> unat y < k + c" if "\<not> unat y < c"
    unfolding unat_minus_of_nat [OF c(1)] using that by auto
  ultimately show "copied (copied mem dst src k) (dst - of_nat c) (src - of_nat c) c x =
      copied mem (dst - of_nat c) (src - of_nat c) (k + c) x"
    unfolding copied_def y_def [symmetric] x by (auto simp: not_less)
qed

text \<open>The forward loops.\<close>

lemma copy_head_spec:
  assumes "k + n \<le> unat (dst - src)"
  obtains j where "copy_head n (copied mem dst src k) (dst + of_nat k) (src + of_nat k) =
    (copied mem dst src (k + j), dst + of_nat (k + j), src + of_nat (k + j), n - j)" "j \<le> n"
proof -
  have "\<exists>j \<le> n. copy_head n (copied mem dst src k) (dst + of_nat k) (src + of_nat k) =
    (copied mem dst src (k + j), dst + of_nat (k + j), src + of_nat (k + j), n - j)"
    using assms
  proof (induction n arbitrary: k)
    case (Suc n)
    show ?case
    proof (cases "(dst + of_nat k) AND 7 = 0")
      case False
      have "(copied mem dst src k)(dst + of_nat k := copied mem dst src k (src + of_nat k)) = copied mem dst src (Suc k)"
        unfolding copied_1 using copied_up [of k 1 dst src mem] Suc.prems by simp
      with False have "copy_head (Suc n) (copied mem dst src k) (dst + of_nat k) (src + of_nat k) =
          copy_head n (copied mem dst src (Suc k)) (dst + of_nat (Suc k)) (src + of_nat (Suc k))"
        by (simp add: copy_head.simps [of "Suc n"] ac_simps)
      moreover obtain j where "j \<le> n" "copy_head n (copied mem dst src (Suc k)) (dst + of_nat (Suc k)) (src + of_nat (Suc k)) =
          (copied mem dst src (Suc k + j), dst + of_nat (Suc k + j), src + of_nat (Suc k + j), n - j)"
        using Suc.IH [of "Suc k"] Suc.prems by auto
      ultimately show ?thesis by (intro exI [of _ "Suc j"]) simp
    qed (auto simp: copy_head.simps [of "Suc n"] intro!: exI [of _ 0])
  qed (simp add: copy_head.simps [of 0])
  then show ?thesis using that by blast
qed

lemma copy_words_spec:
  assumes "k + n \<le> unat (dst - src)"
  obtains j where "copy_words n (copied mem dst src k) (dst + of_nat k) (src + of_nat k) =
    (copied mem dst src (k + j), dst + of_nat (k + j), src + of_nat (k + j), n - j)" "j \<le> n"
proof -
  have "\<exists>j \<le> n. copy_words n (copied mem dst src k) (dst + of_nat k) (src + of_nat k) =
    (copied mem dst src (k + j), dst + of_nat (k + j), src + of_nat (k + j), n - j)"
    using assms
  proof (induction n arbitrary: k rule: less_induct)
    case (less n)
    show ?case
    proof (cases "8 \<le> n")
      case True
      have "copy_words n (copied mem dst src k) (dst + of_nat k) (src + of_nat k) =
          copy_words (n - 8) (copied mem dst src (k + 8)) (dst + of_nat (k + 8)) (src + of_nat (k + 8))"
        using True less.prems copied_up [of k 8 dst src mem]
        by (simp add: copy_words.simps [of n] store_load ac_simps)
      moreover obtain j where "j \<le> n - 8" "copy_words (n - 8) (copied mem dst src (k + 8)) (dst + of_nat (k + 8)) (src + of_nat (k + 8)) =
          (copied mem dst src (k + 8 + j), dst + of_nat (k + 8 + j), src + of_nat (k + 8 + j), n - 8 - j)"
        using less.IH [of "n - 8" "k + 8"] less.prems True by auto
      ultimately show ?thesis using True by (intro exI [of _ "8 + j"]) (auto simp: add.assoc)
    qed (auto simp: copy_words.simps [of n] intro!: exI [of _ 0])
  qed
  then show ?thesis using that by blast
qed

lemma movsb_spec:
  assumes "k + n \<le> unat (dst - src)"
  shows "movsb n (copied mem dst src k) (dst + of_nat k) (src + of_nat k) = copied mem dst src (k + n)"
  using assms
proof (induction n arbitrary: k)
  case (Suc n)
  have "(copied mem dst src k)(dst + of_nat k := copied mem dst src k (src + of_nat k)) = copied mem dst src (Suc k)"
    unfolding copied_1 using copied_up [of k 1 dst src mem] Suc.prems by simp
  with Suc.IH [of "Suc k"] Suc.prems show ?case by (simp add: ac_simps)
qed simp

text \<open>The backward loops.\<close>

lemma back_step:
  assumes "Suc k \<le> unat (src - dst)"
  shows "(copied mem dst src k)(dst - 1 := copied mem dst src k (src - 1)) = copied mem (dst - 1) (src - 1) (Suc k)"
  unfolding copied_1 using copied_down [of k 1 src dst mem] assms by simp

lemma back_head_spec:
  assumes "k + n \<le> unat (src - dst)"
  shows "\<exists>j \<le> n. back_head n (copied mem dst src k) dst src =
    (copied mem (dst - of_nat j) (src - of_nat j) (k + j), dst - of_nat j, src - of_nat j, n - j)"
  using assms
proof (induction n arbitrary: k dst src)
  case (Suc n)
  show ?case
  proof (cases "dst AND 7 = 0")
    case False
    then have "back_head (Suc n) (copied mem dst src k) dst src =
        back_head n (copied mem (dst - 1) (src - 1) (Suc k)) (dst - 1) (src - 1)"
      using back_step [of k src dst mem] Suc.prems by (simp add: back_head.simps [of "Suc n"])
    moreover obtain j where "j \<le> n" "back_head n (copied mem (dst - 1) (src - 1) (Suc k)) (dst - 1) (src - 1) =
        (copied mem (dst - 1 - of_nat j) (src - 1 - of_nat j) (Suc k + j), dst - 1 - of_nat j, src - 1 - of_nat j, n - j)"
      using Suc.IH [of "Suc k" "src - 1" "dst - 1"] Suc.prems by auto
    ultimately show ?thesis by (intro exI [of _ "Suc j"]) (simp add: algebra_simps)
  qed (auto simp: back_head.simps [of "Suc n"] intro!: exI [of _ 0])
qed (simp add: back_head.simps [of 0])

lemma back_words_spec:
  assumes "k + n \<le> unat (src - dst)"
  shows "\<exists>j \<le> n. back_words n (copied mem dst src k) dst src =
    (copied mem (dst - of_nat j) (src - of_nat j) (k + j), dst - of_nat j, src - of_nat j, n - j)"
  using assms
proof (induction n arbitrary: k dst src rule: less_induct)
  case (less n)
  show ?case
  proof (cases "8 \<le> n")
    case True
    then have "back_words n (copied mem dst src k) dst src =
        back_words (n - 8) (copied mem (dst - 8) (src - 8) (k + 8)) (dst - 8) (src - 8)"
      using copied_down [of k 8 src dst mem] less.prems by (simp add: back_words.simps [of n] store_load)
    moreover obtain j where "j \<le> n - 8" "back_words (n - 8) (copied mem (dst - 8) (src - 8) (k + 8)) (dst - 8) (src - 8) =
        (copied mem (dst - 8 - of_nat j) (src - 8 - of_nat j) (k + 8 + j), dst - 8 - of_nat j, src - 8 - of_nat j, n - 8 - j)"
      using less.IH [of "n - 8" "k + 8" "src - 8" "dst - 8"] less.prems True by auto
    ultimately show ?thesis using True by (intro exI [of _ "8 + j"]) (auto simp: algebra_simps)
  qed (auto simp: back_words.simps [of n] intro!: exI [of _ 0])
qed

lemma back_tail_spec:
  assumes "k + n \<le> unat (src - dst)"
  shows "back_tail n (copied mem dst src k) dst src = copied mem (dst - of_nat n) (src - of_nat n) (k + n)"
  using assms
proof (induction n arbitrary: k dst src)
  case (Suc n)
  then show ?case
    using back_step [of k src dst mem] Suc.IH [of "Suc k" "src - 1" "dst - 1"] by (simp add: algebra_simps)
qed simp

lemma movsb_copied: "n \<le> unat (dst - src) \<Longrightarrow> movsb n mem dst src = copied mem dst src n"
  using movsb_spec [of 0 n dst src mem] by simp

lemma memmove_up:
  assumes "unat n \<le> unat (dst - src)" "dst < src"
  shows "memmove mem dst src n = copied mem dst src (unat n)"
proof (cases "n = 0")
  case False
  obtain j where j: "copy_head (unat n) mem dst src =
      (copied mem dst src j, dst + of_nat j, src + of_nat j, unat n - j)" "j \<le> unat n"
    using copy_head_spec [of 0 "unat n" dst src mem] assms(1) by auto
  obtain i where i: "copy_words (unat n - j) (copied mem dst src j) (dst + of_nat j) (src + of_nat j) =
      (copied mem dst src (j + i), dst + of_nat (j + i), src + of_nat (j + i), unat n - j - i)" "i \<le> unat n - j"
    using copy_words_spec [of j "unat n - j" dst src mem] assms(1) j(2) by auto
  from False assms(2) have "memmove mem dst src n =
      movsb (unat n - j - i) (copied mem dst src (j + i)) (dst + of_nat (j + i)) (src + of_nat (j + i))"
    by (auto simp: memmove_def j(1) i(1))
  with movsb_spec [of "j + i" "unat n - j - i" dst src mem] assms(1) j(2) i(2) show ?thesis by simp
qed (simp add: memmove_def)

lemma memmove_down:
  assumes "unat n \<le> unat (src - dst)" "src < dst"
  shows "memmove mem dst src n = copied mem dst src (unat n)"
proof (cases "n = 0")
  case False
  have d: "src + n - (dst + n) = src - dst" by simp
  obtain j where j: "back_head (unat n) mem (dst + n) (src + n) =
      (copied mem (dst + n - of_nat j) (src + n - of_nat j) j, dst + n - of_nat j, src + n - of_nat j, unat n - j)" "j \<le> unat n"
    using back_head_spec [of 0 "unat n" "src + n" "dst + n" mem] assms(1) d by auto
  let ?d = "dst + n - of_nat j" and ?s = "src + n - of_nat j"
  have d': "?s - ?d = src - dst" by simp
  obtain i where i: "back_words (unat n - j) (copied mem ?d ?s j) ?d ?s =
      (copied mem (?d - of_nat i) (?s - of_nat i) (j + i), ?d - of_nat i, ?s - of_nat i, unat n - j - i)" "i \<le> unat n - j"
    using back_words_spec [of j "unat n - j" ?s ?d mem] assms(1) j(2) unfolding d' by auto
  let ?r = "unat n - j - i"
  have "memmove mem dst src n = back_tail ?r (copied mem (?d - of_nat i) (?s - of_nat i) (j + i)) (?d - of_nat i) (?s - of_nat i)"
    using False assms(2) by (auto simp: memmove_def j(1) i(1))
  also have "\<dots> = copied mem (?d - of_nat i - of_nat ?r) (?s - of_nat i - of_nat ?r) (j + i + ?r)"
    by (rule back_tail_spec) (use assms(1) j(2) i(2) in simp)
  also have "j + i + ?r = unat n" using j(2) i(2) by simp
  also have "of_nat ?r = n - of_nat j - of_nat i" using j(2) i(2) by (simp add: of_nat_diff)
  finally show ?thesis by simp
qed (simp add: memmove_def)

section \<open>Fills\<close>

definition filled :: "mem \<Rightarrow> u64 \<Rightarrow> u8 \<Rightarrow> nat \<Rightarrow> mem" where
  "filled mem p v n = (\<lambda>x. if unat (x - p) < n then v else mem x)"

lemma bit_double:
  assumes "\<And>n. n < 64 \<Longrightarrow> bit w n \<longleftrightarrow> n < k \<and> bit (v :: u8) (n mod 8)" "8 dvd k"
  shows "n < 64 \<Longrightarrow> bit (w OR push_bit k w :: u64) n \<longleftrightarrow> n < k + k \<and> bit v (n mod 8)"
proof -
  assume n: "n < 64"
  have "bit (push_bit k w) n \<longleftrightarrow> k \<le> n \<and> n - k < k \<and> bit v ((n - k) mod 8)"
    using n assms(1) [of "n - k"] by (auto simp: bit_push_bit_iff)
  moreover have "k \<le> n \<Longrightarrow> (n - k) mod 8 = n mod 8"
    using assms(2) by (metis dvd_imp_mod_0 le_add_diff_inverse mod_add_left_eq add_0)
  ultimately show ?thesis using assms(1) [OF n] by (auto simp: bit_or_iff)
qed

lemma bit_fill_word: "n < 64 \<Longrightarrow> bit (fill_word v) n \<longleftrightarrow> bit v (n mod 8)"
proof -
  assume n: "n < 64"
  define w0 where "w0 = (ucast v :: u64)"
  define w1 where "w1 = w0 OR push_bit 8 w0"
  define w2 where "w2 = w1 OR push_bit 16 w1"
  have "bit w0 n \<longleftrightarrow> n < 8 \<and> bit v (n mod 8)" if "n < 64" for n
    using that bit_imp_le_length [of v n] by (auto simp: w0_def bit_ucast_iff)
  from bit_double [OF this] have "bit w1 n \<longleftrightarrow> n < 16 \<and> bit v (n mod 8)" if "n < 64" for n
    using that by (simp add: w1_def)
  from bit_double [OF this] have "bit w2 n \<longleftrightarrow> n < 32 \<and> bit v (n mod 8)" if "n < 64" for n
    using that by (simp add: w2_def)
  from bit_double [OF this, of n] n have "bit (w2 OR push_bit 32 w2) n \<longleftrightarrow> bit v (n mod 8)" by simp
  then show ?thesis by (simp add: fill_word_def w2_def w1_def w0_def Let_def)
qed

lemma store_fill: "store_u64 mem p (fill_word v) = filled mem p v 8"
proof
  fix x
  show "store_u64 mem p (fill_word v) x = filled mem p v 8 x"
  proof (cases "x - p < 8")
    case True
    then have k: "unat (x - p) < 8" by (simp add: word_less_nat_alt)
    have "ucast (drop_bit (8 * unat (x - p)) (fill_word v)) = v"
    proof (rule bit_eqI)
      fix n assume "possible_bit TYPE(u8) n"
      then have n: "n < 8" by simp
      have "8 * unat (x - p) + n < 64" "(8 * unat (x - p) + n) mod 8 = n" using n k by auto
      then show "bit (ucast (drop_bit (8 * unat (x - p)) (fill_word v)) :: u8) n = bit v n"
        using n by (simp add: bit_ucast_iff bit_drop_bit_eq bit_fill_word)
    qed
    with True k show ?thesis by (simp add: store_u64_def filled_def)
  next
    case False
    then have "\<not> unat (x - p) < 8" by (simp add: word_less_nat_alt)
    with False show ?thesis by (simp add: store_u64_def filled_def)
  qed
qed

lemma filled_0 [simp]: "filled mem p v 0 = mem"
  by (simp add: filled_def)

lemma filled_1: "mem(p := v) = filled mem p v 1"
  by (auto simp: filled_def unat_eq_zero)

lemma filled_up:
  assumes "k + c < 2 ^ 64"
  shows "filled (filled mem p v k) (p + of_nat k) v c = filled mem p v (k + c)"
proof
  fix x
  define y where "y = x - p"
  have yl: "unat y < 2 ^ 64" using unsigned_less [of y] by simp
  have k: "k < 2 ^ 64" using assms by simp
  have i: "unat (y - of_nat k) < c \<longleftrightarrow> k \<le> unat y \<and> unat y < k + c"
    unfolding unat_minus_of_nat [OF k] using assms yl by auto
  have x: "x - (p + of_nat k) = y - of_nat k" by (simp add: y_def algebra_simps)
  show "filled (filled mem p v k) (p + of_nat k) v c x = filled mem p v (k + c) x"
    unfolding filled_def x y_def [symmetric] i by auto
qed

lemma filled_step:
  assumes "Suc k < 2 ^ 64"
  shows "(filled mem p v k)(p + of_nat k := v) = filled mem p v (Suc k)"
  unfolding filled_1 using filled_up [of k 1 mem p v] assms by simp

lemma set_head_spec:
  assumes "k + n < 2 ^ 64"
  shows "\<exists>j \<le> n. set_head n (filled mem p v k) (p + of_nat k) v = (filled mem p v (k + j), p + of_nat (k + j), n - j)"
  using assms
proof (induction n arbitrary: k)
  case (Suc n)
  show ?case
  proof (cases "(p + of_nat k) AND 7 = 0")
    case False
    then have "set_head (Suc n) (filled mem p v k) (p + of_nat k) v =
        set_head n (filled mem p v (Suc k)) (p + of_nat (Suc k)) v"
      using filled_step [of k mem p v] Suc.prems by (simp add: set_head.simps [of "Suc n"] ac_simps)
    moreover obtain j where "j \<le> n" "set_head n (filled mem p v (Suc k)) (p + of_nat (Suc k)) v =
        (filled mem p v (Suc k + j), p + of_nat (Suc k + j), n - j)"
      using Suc.IH [of "Suc k"] Suc.prems by auto
    ultimately show ?thesis by (intro exI [of _ "Suc j"]) simp
  qed (auto simp: set_head.simps [of "Suc n"] intro!: exI [of _ 0])
qed (simp add: set_head.simps [of 0])

lemma set_words_spec:
  assumes "k + n < 2 ^ 64"
  shows "\<exists>j \<le> n. set_words n (filled mem p v k) (p + of_nat k) (fill_word v) =
    (filled mem p v (k + j), p + of_nat (k + j), n - j)"
  using assms
proof (induction n arbitrary: k rule: less_induct)
  case (less n)
  show ?case
  proof (cases "8 \<le> n")
    case True
    then have "set_words n (filled mem p v k) (p + of_nat k) (fill_word v) =
        set_words (n - 8) (filled mem p v (k + 8)) (p + of_nat (k + 8)) (fill_word v)"
      using filled_up [of k 8 mem p v] less.prems by (simp add: set_words.simps [of n] store_fill ac_simps)
    moreover obtain j where "j \<le> n - 8" "set_words (n - 8) (filled mem p v (k + 8)) (p + of_nat (k + 8)) (fill_word v) =
        (filled mem p v (k + 8 + j), p + of_nat (k + 8 + j), n - 8 - j)"
      using less.IH [of "n - 8" "k + 8"] less.prems True by auto
    ultimately show ?thesis using True by (intro exI [of _ "8 + j"]) (auto simp: add.assoc)
  qed (auto simp: set_words.simps [of n] intro!: exI [of _ 0])
qed

lemma set_tail_spec:
  assumes "k + n < 2 ^ 64"
  shows "set_tail n (filled mem p v k) (p + of_nat k) v = filled mem p v (k + n)"
  using assms
proof (induction n arbitrary: k)
  case (Suc n)
  then show ?case using filled_step [of k mem p v] Suc.IH [of "Suc k"] by (simp add: ac_simps)
qed simp

lemma memset_filled: "memset mem s c n = filled mem s (ucast c) (unat n)"
proof -
  have n: "unat n < 2 ^ 64" using unsigned_less [of n] by simp
  obtain j where j: "set_head (unat n) mem s (ucast c) = (filled mem s (ucast c) j, s + of_nat j, unat n - j)" "j \<le> unat n"
    using set_head_spec [of 0 "unat n" mem s "ucast c"] n by auto
  obtain i where i: "set_words (unat n - j) (filled mem s (ucast c) j) (s + of_nat j) (fill_word (ucast c)) =
      (filled mem s (ucast c) (j + i), s + of_nat (j + i), unat n - j - i)" "i \<le> unat n - j"
    using set_words_spec [of j "unat n - j" mem s "ucast c"] n j(2) by auto
  show ?thesis
  proof (cases "8 \<le> unat n - j")
    case True
    with set_tail_spec [of "j + i" "unat n - j - i" mem s "ucast c"] n j i show ?thesis
      by (simp add: memset_def Let_def)
  next
    case False
    with set_tail_spec [of j "unat n - j" mem s "ucast c"] n j show ?thesis
      by (simp add: memset_def Let_def)
  qed
qed

section \<open>C strings\<close>

text \<open>The bytes \<open>xs\<close>, none of them zero, stand at \<open>s\<close> and are followed by a zero byte.\<close>

primrec cstr :: "mem \<Rightarrow> u64 \<Rightarrow> u8 list \<Rightarrow> bool" where
  "cstr mem s [] \<longleftrightarrow> mem s = 0"
| "cstr mem s (x # xs) \<longleftrightarrow> mem s = x \<and> x \<noteq> 0 \<and> cstr mem (s + 1) xs"

lemma addr_Suc: "(s :: u64) + of_nat (Suc i) = (s + 1) + of_nat i"
  by (simp add: algebra_simps)

lemma cstr_nth: "cstr mem s xs \<Longrightarrow> i < length xs \<Longrightarrow> mem (s + of_nat i) = xs ! i \<and> xs ! i \<noteq> 0"
proof (induction xs arbitrary: s i)
  case (Cons x xs)
  then show ?case by (cases i) (auto simp: addr_Suc simp del: of_nat_Suc)
qed simp

lemma cstr_end: "cstr mem s xs \<Longrightarrow> mem (s + of_nat (length xs)) = 0"
  by (induction xs arbitrary: s) (simp_all add: addr_Suc del: of_nat_Suc)

lemma cstr_iff:
  "cstr mem s xs \<longleftrightarrow> (\<forall>i < length xs. mem (s + of_nat i) = xs ! i \<and> xs ! i \<noteq> 0) \<and> mem (s + of_nat (length xs)) = 0"
proof (induction xs arbitrary: s)
  case (Cons x xs)
  have "(\<forall>i < length (x # xs). P i) \<longleftrightarrow> P 0 \<and> (\<forall>i < length xs. P (Suc i))" for P
    by (auto simp: less_Suc_eq_0_disj)
  then show ?case by (simp add: Cons.IH addr_Suc del: of_nat_Suc)
qed simp

lemma cstr_length: "cstr mem s xs \<Longrightarrow> length xs < 2 ^ 64"
proof (rule ccontr)
  assume c: "cstr mem s xs" and l: "\<not> length xs < 2 ^ 64"
  let ?i = "length xs - 2 ^ 64"
  have i: "?i < length xs" using l by (intro diff_less) auto
  have "of_nat (length xs) = (of_nat ?i + of_nat (2 ^ 64) :: u64)" using l by (simp only: of_nat_add [symmetric]) simp
  also have "of_nat (2 ^ 64) = (0 :: u64)" by (simp only: word_of_nat_eq_0_iff) simp
  finally have "mem (s + of_nat (length xs)) = mem (s + of_nat ?i)" by simp
  with cstr_nth [OF c i] cstr_end [OF c] show False by simp
qed

lemma cstr_drop: "cstr mem s xs \<Longrightarrow> i \<le> length xs \<Longrightarrow> cstr mem (s + of_nat i) (drop i xs)"
proof (induction i arbitrary: s xs)
  case (Suc i)
  then show ?case by (cases xs) (simp_all add: addr_Suc del: of_nat_Suc)
qed simp

lemma str_end_cstr: "cstr mem s xs \<Longrightarrow> str_end mem s = Some (s + of_nat (length xs))"
  by (induction xs arbitrary: s) (simp_all add: str_end.simps addr_Suc del: of_nat_Suc)

lemma strlen_cstr: "cstr mem s xs \<Longrightarrow> strlen mem s = Some (of_nat (length xs))"
  by (simp add: strlen_def str_end_cstr)

lemma unat_cstr_length: "cstr mem s xs \<Longrightarrow> unat (of_nat (length xs) :: u64) = length xs"
  using cstr_length [of mem s xs] by (simp add: unat_of_nat)

text \<open>Comparison is the lexicographic order of the bytes as unsigned numbers.\<close>

abbreviation byte_less :: "(u8 \<times> u8) set" where
  "byte_less \<equiv> {(x, y). x < y}"

lemma byte_diff:
  fixes x y :: u8
  shows "int (unat x) - int (unat y) = 0 \<longleftrightarrow> x = y" "int (unat x) - int (unat y) < 0 \<longleftrightarrow> x < y"
  by (simp_all add: word_unat_eq_iff word_less_nat_alt del: of_nat_unat)

lemma strcmp_cstr:
  assumes "cstr mem a xs" "cstr mem b ys"
  shows "\<exists>r. strcmp mem a b = Some r \<and> (r = 0 \<longleftrightarrow> xs = ys) \<and> (r < 0 \<longleftrightarrow> (xs, ys) \<in> lexord byte_less)"
  using assms
proof (induction xs arbitrary: a b ys)
  case Nil
  then show ?case
    by (cases ys) (auto simp: strcmp.simps [of mem a b] byte_diff word_neq_0_conv unat_gt_0 simp del: of_nat_unat)
next
  case (Cons x xs)
  show ?case
  proof (cases ys)
    case Nil
    with Cons.prems show ?thesis
      by (auto simp: strcmp.simps [of mem a b] byte_diff unat_gt_0 simp del: of_nat_unat)
  next
    case (Cons y ys')
    show ?thesis
    proof (cases "x = y")
      case True
      with Cons.IH [of "a + 1" "b + 1" ys'] Cons.prems Cons show ?thesis
        by (auto simp: strcmp.simps [of mem a b])
    next
      case False
      with Cons.prems Cons show ?thesis
        by (auto simp: strcmp.simps [of mem a b] word_unat_eq_iff word_less_nat_alt simp del: of_nat_unat)
    qed
  qed
qed

lemma match_from_spec:
  assumes "j \<le> len"
  shows "match_from mem h n j len = len \<longleftrightarrow> (\<forall>k. j \<le> k \<and> k < len \<longrightarrow> mem (h + of_nat k) = mem (n + of_nat k))"
  using assms
proof (induction "len - j" arbitrary: j)
  case 0
  then show ?case by (auto simp: match_from.simps [of mem h n j])
next
  case (Suc d)
  then have j: "j < len" and IH: "match_from mem h n (Suc j) len = len \<longleftrightarrow>
      (\<forall>k. Suc j \<le> k \<and> k < len \<longrightarrow> mem (h + of_nat k) = mem (n + of_nat k))" by simp_all
  have "(\<forall>k. j \<le> k \<and> k < len \<longrightarrow> P k) \<longleftrightarrow> P j \<and> (\<forall>k. Suc j \<le> k \<and> k < len \<longrightarrow> P k)" for P
    using j by (metis Suc_leD Suc_leI le_neq_implies_less order_refl)
  with IH j show ?case by (simp add: match_from.simps [of mem h n j])
qed

text \<open>\<open>ys\<close> occurs in \<open>xs\<close> at position \<open>i\<close>.\<close>

definition occurs_at :: "u8 list \<Rightarrow> u8 list \<Rightarrow> nat \<Rightarrow> bool" where
  "occurs_at xs ys i \<longleftrightarrow> i + length ys \<le> length xs \<and> take (length ys) (drop i xs) = ys"

lemma occurs_at_mem:
  assumes "cstr mem h xs" "cstr mem n ys" "i + length ys \<le> length xs"
  shows "occurs_at xs ys i \<longleftrightarrow> (\<forall>k < length ys. mem (h + of_nat i + of_nat k) = mem (n + of_nat k))"
proof -
  have "mem (h + of_nat i + of_nat k) = xs ! (i + k)" "mem (n + of_nat k) = ys ! k" if "k < length ys" for k
    using cstr_nth [OF assms(1), of "i + k"] cstr_nth [OF assms(2) that] assms(3) that by (simp_all add: add.assoc)
  then show ?thesis using assms(3) by (auto simp: occurs_at_def list_eq_iff_nth_eq)
qed

lemma strstr_from_cstr:
  assumes h: "cstr mem h xs" and n: "cstr mem n ys" "ys \<noteq> []" and lim: "lim + length ys = length xs" "i \<le> Suc lim"
  shows "(\<exists>k. i \<le> k \<and> occurs_at xs ys k \<and> (\<forall>j. i \<le> j \<and> j < k \<longrightarrow> \<not> occurs_at xs ys j) \<and>
            strstr_from mem h n (length ys) i lim = h + of_nat k) \<or>
         (\<forall>j. i \<le> j \<longrightarrow> \<not> occurs_at xs ys j) \<and> strstr_from mem h n (length ys) i lim = 0"
  using lim(2)
proof (induction "Suc lim - i" arbitrary: i)
  case 0
  then have "\<not> occurs_at xs ys j" if "i \<le> j" for j using that lim(1) by (simp add: occurs_at_def)
  with 0 show ?case by (simp add: strstr_from.simps)
next
  case (Suc d)
  then have i: "i \<le> lim" by simp
  have len: "1 \<le> length ys" using n(2) by (cases ys) simp_all
  have m: "mem (h + of_nat i) = mem n \<and> match_from mem (h + of_nat i) n 1 (length ys) = length ys \<longleftrightarrow> occurs_at xs ys i"
  proof -
    have "(\<forall>k < length ys. P k) \<longleftrightarrow> P 0 \<and> (\<forall>k. 1 \<le> k \<and> k < length ys \<longrightarrow> P k)" for P
      using len by (metis One_nat_def Suc_leI gr0I less_le_trans zero_less_Suc)
    then show ?thesis
      using occurs_at_mem [OF h n(1), of i] i lim(1) match_from_spec [OF len, of mem "h + of_nat i" n] by simp
  qed
  show ?case
  proof (cases "occurs_at xs ys i")
    case True
    with m i have "strstr_from mem h n (length ys) i lim = h + of_nat i" by (simp add: strstr_from.simps [of mem h n _ i])
    with True show ?thesis by auto
  next
    case False
    with m i have e: "strstr_from mem h n (length ys) i lim = strstr_from mem h n (length ys) (Suc i) lim"
      by (auto simp: strstr_from.simps [of mem h n _ i])
    have step: "Suc i \<le> j" if "i \<le> j" "occurs_at xs ys j" for j
      using that False by (cases "j = i") simp_all
    have "d = Suc lim - Suc i" "Suc i \<le> Suc lim" using Suc.hyps(2) i by simp_all
    from Suc.hyps(1) [OF this] show ?thesis
    proof
      assume "\<exists>k. Suc i \<le> k \<and> occurs_at xs ys k \<and> (\<forall>j. Suc i \<le> j \<and> j < k \<longrightarrow> \<not> occurs_at xs ys j) \<and>
        strstr_from mem h n (length ys) (Suc i) lim = h + of_nat k"
      then show ?thesis unfolding e using step by (metis Suc_leD)
    next
      assume "(\<forall>j. Suc i \<le> j \<longrightarrow> \<not> occurs_at xs ys j) \<and> strstr_from mem h n (length ys) (Suc i) lim = 0"
      then show ?thesis unfolding e using step by blast
    qed
  qed
qed

lemma strstr_cstr:
  assumes "cstr mem h xs" "cstr mem n ys" "h \<noteq> 0" "n \<noteq> 0"
  shows "(\<exists>k. occurs_at xs ys k \<and> (\<forall>j < k. \<not> occurs_at xs ys j) \<and> strstr mem h n = Some (h + of_nat k)) \<or>
         (\<forall>j. \<not> occurs_at xs ys j) \<and> strstr mem h n = Some 0"
proof (cases "ys = []")
  case True
  with assms show ?thesis by (auto simp: strstr_def occurs_at_def intro!: exI [of _ 0])
next
  case False
  then have nz: "mem n \<noteq> 0" using assms(2) by (cases ys) auto
  note l = strlen_cstr [OF assms(1)] strlen_cstr [OF assms(2)] unat_cstr_length [OF assms(1)] unat_cstr_length [OF assms(2)]
  show ?thesis
  proof (cases "length ys \<le> length xs")
    case True
    have "strstr mem h n = Some (strstr_from mem h n (length ys) 0 (length xs - length ys))"
      using assms(3,4) nz l True by (simp add: strstr_def word_less_nat_alt not_less)
    with strstr_from_cstr [OF assms(1,2) False, of "length xs - length ys" 0] True show ?thesis by auto
  next
    case longer: False
    then have "strstr mem h n = Some 0" using assms(3,4) nz l by (simp add: strstr_def word_less_nat_alt)
    with longer show ?thesis by (auto simp: occurs_at_def)
  qed
qed

section \<open>Numbers as strings\<close>

text \<open>The digits of a number, lowest first, and a list of bytes written at an address.\<close>

function udigits :: "nat \<Rightarrow> nat \<Rightarrow> nat list" where
  "udigits v b = (v mod b) # (if v div b \<noteq> 0 \<and> 2 \<le> b then udigits (v div b) b else [])"
  by pat_completeness auto
termination by (relation "measure fst") (auto intro!: div_less_dividend gr0I)

declare udigits.simps [simp del]

definition put :: "mem \<Rightarrow> u64 \<Rightarrow> u8 list \<Rightarrow> mem" where
  "put mem p xs = (\<lambda>x. if unat (x - p) < length xs then xs ! unat (x - p) else mem x)"

lemma put_Nil [simp]: "put mem p [] = mem"
  by (simp add: put_def)

lemma put_snoc:
  assumes "length xs < 2 ^ 64"
  shows "put mem p (xs @ [v]) = (put mem p xs)(p + of_nat (length xs) := v)"
proof
  fix x
  have l: "unat (of_nat (length xs) :: u64) = length xs" using assms by (simp add: unat_of_nat)
  have e: "x = p + of_nat (length xs) \<longleftrightarrow> unat (x - p) = length xs"
    by (metis add_diff_cancel_left' diff_add_cancel add.commute l word_unat_eq_iff)
  show "put mem p (xs @ [v]) x = ((put mem p xs)(p + of_nat (length xs) := v)) x"
    unfolding fun_upd_apply e put_def by (auto simp: nth_append less_Suc_eq)
qed

lemma put_nth: "i < length xs \<Longrightarrow> length xs \<le> 2 ^ 64 \<Longrightarrow> put mem p xs (p + of_nat i) = xs ! i"
  by (simp add: put_def unat_of_nat)

lemma put_upd:
  assumes "i < length xs" "length xs \<le> 2 ^ 64"
  shows "(put mem p xs)(p + of_nat i := v) = put mem p (xs[i := v])"
proof
  fix x
  have l: "unat (of_nat i :: u64) = i" using assms by (simp add: unat_of_nat)
  have e: "x = p + of_nat i \<longleftrightarrow> unat (x - p) = i"
    by (metis add_diff_cancel_left' diff_add_cancel add.commute l word_unat_eq_iff)
  show "((put mem p xs)(p + of_nat i := v)) x = put mem p (xs[i := v]) x"
    unfolding fun_upd_apply e put_def using assms(1) by (auto simp: nth_list_update)
qed

lemma utoa_digits_put:
  assumes "length xs + length (udigits v b) \<le> 2 ^ 64" "2 \<le> b"
  shows "utoa_digits (put mem p xs) (p + of_nat (length xs)) v b =
    (put mem p (xs @ map (\<lambda>d. digit_chars ! d) (udigits v b)), p + of_nat (length xs + length (udigits v b)))"
  using assms
proof (induction v b arbitrary: xs rule: udigits.induct)
  case (1 v b)
  have m: "v - v div b * b = v mod b" by (simp add: minus_div_mult_eq_mod)
  let ?c = "digit_chars ! (v mod b)"
  have lx: "length xs < 2 ^ 64" using "1.prems"(1) by (simp add: udigits.simps [of v])
  note s = put_snoc [OF lx, of mem p ?c, symmetric]
  show ?case
  proof (cases "v div b = 0")
    case True
    with m have "v mod b = v" by simp
    with True s show ?thesis
      by (simp add: utoa_digits.simps [of _ _ v] udigits.simps [of v] Let_def m s add.assoc)
  next
    case False
    have u: "udigits v b = (v mod b) # udigits (v div b) b" using False "1.prems"(2) by (simp add: udigits.simps [of v])
    have "utoa_digits (put mem p (xs @ [?c])) (p + of_nat (length (xs @ [?c]))) (v div b) b =
      (put mem p ((xs @ [?c]) @ map (\<lambda>d. digit_chars ! d) (udigits (v div b) b)),
       p + of_nat (length (xs @ [?c]) + length (udigits (v div b) b)))"
      by (rule "1.IH") (use False "1.prems" u in simp_all)
    moreover have a: "p + of_nat (length xs) + 1 = p + of_nat (length (xs @ [?c]))" by (simp add: algebra_simps)
    have "utoa_digits (put mem p xs) (p + of_nat (length xs)) v b =
        utoa_digits (put mem p (xs @ [?c])) (p + of_nat (length (xs @ [?c]))) (v div b) b"
      unfolding utoa_digits.simps [of "put mem p xs"] Let_def m s a using False "1.prems"(2) by simp
    ultimately show ?thesis unfolding u by simp
  qed
qed

lemma unat_addr:
  assumes "unat (p :: u64) + i < 2 ^ 64"
  shows "unat (p + of_nat i) = unat p + i"
proof -
  have i: "unat (of_nat i :: u64) = i" using assms by (simp add: unat_of_nat)
  with assms show ?thesis using unat_add_lem [of p "of_nat i"] by simp
qed

lemma reverse_bytes_put:
  assumes "unat p + length (a @ m @ c) < 2 ^ 64" "a \<noteq> [] \<or> m \<noteq> []"
  shows "reverse_bytes (put mem p (a @ m @ c)) (p + of_nat (length a)) (p + of_nat (length a + length m) - 1) =
    put mem p (a @ rev m @ c)"
  using assms
proof (induction "length m" arbitrary: a m c rule: less_induct)
  case less
  let ?lo = "p + of_nat (length a)"
  have lo: "unat ?lo = unat p + length a" by (rule unat_addr) (use less.prems(1) in simp)
  have le: "length (a @ m @ c) \<le> 2 ^ 64" using less.prems(1) by simp
  consider (nil) "m = []" | (one) x where "m = [x]" | (more) x m' y where "m = x # m' @ [y]"
    by (metis append_butlast_last_id list.exhaust)
  then show ?case
  proof cases
    case nil
    then have "1 \<le> unat ?lo" using lo less.prems(2) by (cases a) auto
    then have "\<not> ?lo < ?lo - 1" by (simp add: word_less_nat_alt unat_sub word_le_nat_alt)
    with nil show ?thesis by (simp add: reverse_bytes.simps)
  next
    case one
    then show ?thesis by (simp add: reverse_bytes.simps)
  next
    case more
    let ?i = "length a + Suc (length m')" and ?xs = "a @ m @ c"
    have hi: "p + of_nat (length a + length m) - 1 = p + of_nat ?i" by (simp add: more)
    have uhi: "unat (p + of_nat ?i) = unat p + ?i" by (rule unat_addr) (use less.prems(1) more in simp)
    have lt: "?lo < p + of_nat ?i" unfolding word_less_nat_alt lo uhi by simp
    have get: "put mem p ?xs ?lo = x" "put mem p ?xs (p + of_nat ?i) = y"
      using put_nth [of "length a" ?xs mem p] put_nth [of ?i ?xs mem p] le
      by (simp_all add: more nth_append)
    have "(put mem p ?xs)(p + of_nat ?i := x, ?lo := y) = put mem p (?xs[?i := x, length a := y])"
      using put_upd [of ?i ?xs mem p x] put_upd [of "length a" "?xs[?i := x]" mem p y] le by (simp add: more)
    also have "?xs[?i := x, length a := y] = (a @ [y]) @ m' @ (x # c)"
      by (simp add: more list_update_append)
    finally have sw: "(put mem p ?xs)(p + of_nat ?i := x, ?lo := y) = put mem p ((a @ [y]) @ m' @ (x # c))" .
    have "reverse_bytes (put mem p ?xs) ?lo (p + of_nat ?i) =
        reverse_bytes (put mem p ((a @ [y]) @ m' @ (x # c))) (?lo + 1) (p + of_nat ?i - 1)"
      unfolding reverse_bytes.simps [of "put mem p ?xs"] get sw using lt by (simp only: if_True)
    also have "?lo + 1 = p + of_nat (length (a @ [y]))" by (simp add: algebra_simps)
    also have "p + of_nat ?i - 1 = p + of_nat (length (a @ [y]) + length m') - 1" by simp
    also have "reverse_bytes (put mem p ((a @ [y]) @ m' @ (x # c))) (p + of_nat (length (a @ [y])))
        (p + of_nat (length (a @ [y]) + length m') - 1) = put mem p ((a @ [y]) @ rev m' @ (x # c))"
      by (rule less.hyps) (use less.prems(1) more in simp_all)
    finally show ?thesis unfolding hi by (simp add: more)
  qed
qed

lemma udigits_length: "v < 2 ^ k \<Longrightarrow> 2 \<le> b \<Longrightarrow> length (udigits v b) \<le> Suc k"
proof (induction k arbitrary: v)
  case (Suc k)
  show ?case
  proof (cases "v div b = 0")
    case False
    have "v div b \<le> v div 2" using Suc.prems(2) by (simp add: div_le_mono2)
    then have "v div b < 2 ^ k" using Suc.prems(1) by simp
    from Suc.IH [OF this Suc.prems(2)] False show ?thesis by (simp add: udigits.simps [of v])
  qed (simp add: udigits.simps [of v])
qed (simp add: udigits.simps)

lemma udigits_less: "2 \<le> b \<Longrightarrow> d \<in> set (udigits v b) \<Longrightarrow> d < b"
proof (induction v b rule: udigits.induct)
  case (1 v b)
  then show ?case by (auto simp: udigits.simps [of v] split: if_splits)
qed

lemma udigits_value:
  "2 \<le> b \<Longrightarrow> foldl (\<lambda>r d. r * b + d) 0 (rev (udigits v b)) = v"
proof (induction v b rule: udigits.induct)
  case (1 v b)
  then show ?case by (cases "v div b = 0") (auto simp: udigits.simps [of v] div_eq_0_iff)
qed

lemma utoa_put:
  assumes "unat str + 34 < 2 ^ 64" "2 \<le> b" "b \<le> 36"
  shows "utoa mem v str (int b) = put mem str (rev (map (\<lambda>d. digit_chars ! d) (udigits (unat v) b)) @ [0])"
proof -
  let ?ds = "map (\<lambda>d. digit_chars ! d) (udigits (unat v) b)"
  have "unat v < 2 ^ 32" using unsigned_less [of v] by simp
  from udigits_length [OF this assms(2)] have len: "length ?ds \<le> 33" by simp
  have ne: "?ds \<noteq> []" by (simp add: udigits.simps)
  have "utoa_digits mem str (unat v) b = (put mem str ?ds, str + of_nat (length ?ds))"
    using utoa_digits_put [of "[]" "unat v" b mem str] len assms(2) by simp
  then have "utoa mem v str (int b) =
      reverse_bytes ((put mem str ?ds)(str + of_nat (length ?ds) := 0)) str (str + of_nat (length ?ds) - 1)"
    using assms(2,3) by (simp add: utoa_def)
  also have "(put mem str ?ds)(str + of_nat (length ?ds) := 0) = put mem str ([] @ ?ds @ [0])"
    using put_snoc [of ?ds mem str 0] len by simp
  also have "reverse_bytes \<dots> str (str + of_nat (length ?ds) - 1) = put mem str (rev ?ds @ [0])"
    using reverse_bytes_put [of str "[]" ?ds "[0]" mem] len assms(1) ne by simp
  finally show ?thesis .
qed

lemma digit_chars_decimal: "d < 10 \<Longrightarrow> digit_chars ! d = of_nat d + 0x30"
proof -
  have "\<forall>d \<in> set [0..<10]. digit_chars ! d = of_nat d + (0x30 :: u8)" by code_simp
  then show "d < 10 \<Longrightarrow> digit_chars ! d = of_nat d + 0x30" by simp
qed

lemma digit_chars_nonzero: "d < 36 \<Longrightarrow> digit_chars ! d \<noteq> 0"
proof -
  have "\<forall>d \<in> set [0..<36]. digit_chars ! d \<noteq> 0" by code_simp
  then show "d < 36 \<Longrightarrow> digit_chars ! d \<noteq> 0" by simp
qed

lemma decimal_char:
  assumes "d < 10"
  shows "is_digit (of_nat d + 0x30)" "(of_nat d + 0x30 :: u8) - 0x30 = of_nat d"
    "of_nat d + 0x30 \<notin> {0 :: u8, 9, 0x20, 0x2B, 0x2D}"
proof -
  have "\<forall>d \<in> set [0..<10]. is_digit (of_nat d + 0x30) \<and> of_nat d + 0x30 \<notin> {0 :: u8, 9, 0x20, 0x2B, 0x2D}" by code_simp
  with assms show "is_digit (of_nat d + 0x30)" "of_nat d + 0x30 \<notin> {0 :: u8, 9, 0x20, 0x2B, 0x2D}" by simp_all
  show "(of_nat d + 0x30 :: u8) - 0x30 = of_nat d" by simp
qed

lemma cstr_put:
  assumes "0 \<notin> set xs" "length xs < 2 ^ 64"
  shows "cstr (put mem p (xs @ [0])) p xs"
proof -
  have "put mem p (xs @ [0]) (p + of_nat i) = (xs @ [0]) ! i" if "i \<le> length xs" for i
    using put_nth [of i "xs @ [0]" mem p] that assms(2) by simp
  with assms(1) show ?thesis by (auto simp: cstr_iff nth_append in_set_conv_nth)
qed

lemma read_digits_cstr:
  assumes "cstr mem p (map (\<lambda>d. of_nat d + 0x30) ds)" "\<forall>d \<in> set ds. d < 10"
  shows "read_digits mem p r = Some (foldl (\<lambda>r d. r * 10 + of_nat d) r ds)"
  using assms
proof (induction ds arbitrary: p r)
  case Nil
  then show ?case by (simp add: read_digits.simps is_digit_def)
next
  case (Cons d ds)
  have d: "ucast (of_nat d :: u8) = (of_nat d :: 'a word)"
  proof -
    have "unat (of_nat d :: u8) = d" using Cons.prems(2) by (simp add: unat_of_nat)
    then show ?thesis by (metis of_nat_unat)
  qed
  show ?case using Cons decimal_char [of d] by (simp add: read_digits.simps [of mem p] d)
qed

lemma foldl_of_nat: "foldl (\<lambda>r d. r * 10 + of_nat d) (of_nat r) ds = (of_nat (foldl (\<lambda>r d. r * 10 + d) r ds) :: 'a::len word)"
proof (induction ds arbitrary: r)
  case (Cons d ds)
  from Cons.IH [of "r * 10 + d"] show ?case by simp
qed simp

lemma read_number_cstr:
  assumes "cstr mem p (map (\<lambda>d. of_nat d + 0x30) ds)" "\<forall>d \<in> set ds. d < 10" "ds \<noteq> []" "p \<noteq> 0"
  shows "read_number mem p = Some (of_nat (foldl (\<lambda>r d. r * 10 + d) 0 ds) :: 'a::len word)"
proof -
  have f: "read_digits mem p (0 :: 'a word) = Some (of_nat (foldl (\<lambda>r d. r * 10 + d) 0 ds))"
    using read_digits_cstr [OF assms(1,2), of "0 :: 'a word"] foldl_of_nat [of 0 ds, where 'a = 'a] by simp
  obtain d ds' where ds: "ds = d # ds'" using assms(3) by (cases ds) auto
  then have "mem p = of_nat d + 0x30" "d < 10" using assms(1,2) by simp_all
  with decimal_char(3) [of d] have "mem p \<notin> {0, 9, 0x20, 0x2B, 0x2D}" by simp
  then show ?thesis
    using f assms(4) by (simp add: read_number_def skip_blanks.simps)
qed

lemma utoa_decimal:
  assumes "unat str + 34 < 2 ^ 64"
  shows "cstr (utoa mem v str 10) str (map (\<lambda>d. of_nat d + 0x30) (rev (udigits (unat v) 10)))"
proof -
  let ?ds = "rev (udigits (unat v) 10)"
  have lt: "\<forall>d \<in> set ?ds. d < 10" using udigits_less [of 10] by auto
  then have e: "map (\<lambda>d. digit_chars ! d) ?ds = map (\<lambda>d. of_nat d + 0x30) ?ds" by (simp add: digit_chars_decimal)
  have nz: "0 \<notin> set (map (\<lambda>d. of_nat d + 0x30 :: u8) ?ds)" using lt decimal_char(3) by fastforce
  have "unat v < 2 ^ 32" using unsigned_less [of v] by simp
  from udigits_length [OF this, of 10] have len: "length (map (\<lambda>d. of_nat d + 0x30 :: u8) ?ds) < 2 ^ 64" by simp
  have "utoa mem v str 10 = put mem str (rev (map (\<lambda>d. digit_chars ! d) (udigits (unat v) 10)) @ [0])"
    using utoa_put [OF assms, of 10 mem v] by simp
  then show ?thesis unfolding rev_map e using cstr_put [OF nz len] by (simp only:)
qed

text \<open>\<^verbatim>\<open>itoa\<close> reads outside its digit table on every negative number.\<close>

lemma itoa_digits_negative: "value < 0 \<Longrightarrow> 2 \<le> base \<Longrightarrow> itoa_digits mem p value base = None"
proof (induction "nat (- value)" arbitrary: mem p "value" rule: less_induct)
  case (less v)
  let ?q = "(- v) div base" and ?r = "(- v) mod base"
  have c: "c_div v base = - ?q" using less.prems by (simp add: c_div_def)
  have qr: "- v = ?q * base + ?r" by (simp add: mult.commute)
  then have i: "v - c_div v base * base = - ?r" unfolding c by linarith
  have r: "0 \<le> ?r" using less.prems by simp
  show ?case
  proof (cases "?r = 0")
    case True
    then have "0 < ?q * base" using qr less.prems by linarith
    then have q: "0 < ?q" using less.prems(2) by (simp add: zero_less_mult_iff)
    have "?q < - v" using less.prems by (intro int_div_less_self) auto
    with q less.hyps [of "- ?q"] less.prems(2) have "itoa_digits m p' (- ?q) base = None" for m p' by simp
    then show ?thesis unfolding itoa_digits.simps [of mem p v] Let_def i c using q less.prems
      by (auto split: option.split)
  next
    case False
    with r have "digit_char (- ?r) = None" by (simp add: digit_char_def)
    then show ?thesis unfolding itoa_digits.simps [of mem p v] Let_def i by simp
  qed
qed

lemma itoa_negative: "value < 0 \<Longrightarrow> 2 \<le> base \<Longrightarrow> base \<le> 36 \<Longrightarrow> itoa mem value str base = None"
  by (simp add: itoa_def itoa_digits_negative)

section \<open>Tokens\<close>

lemma strchr_cstr:
  assumes "cstr mem s ds" "c \<noteq> 0" "s \<noteq> 0" "unat s + length ds < 2 ^ 64"
  shows "\<exists>q. strchr mem s c = Some q \<and> (q \<noteq> 0 \<longleftrightarrow> c \<in> set ds)"
  using assms
proof (induction ds arbitrary: s)
  case Nil
  then show ?case by (simp add: strchr.simps)
next
  case (Cons d ds)
  have n: "unat (s + 1) = unat s + 1" using unat_addr [of s 1] Cons.prems(4) by simp
  then have "s + 1 \<noteq> 0" by auto
  with Cons.IH [of "s + 1"] Cons.prems n show ?case by (auto simp: strchr.simps [of mem s])
qed

definition usable :: "mem \<Rightarrow> u64 \<Rightarrow> u8 list \<Rightarrow> bool" where
  "usable mem s xs \<longleftrightarrow> cstr mem s xs \<and> s \<noteq> 0 \<and> unat s + length xs < 2 ^ 64"

lemma strchr_usable: "usable mem s ds \<Longrightarrow> c \<noteq> 0 \<Longrightarrow> \<exists>q. strchr mem s c = Some q \<and> (q \<noteq> 0 \<longleftrightarrow> c \<in> set ds)"
  using strchr_cstr by (simp add: usable_def)

lemma skip_delim_cstr:
  assumes "cstr mem p xs" "usable mem delim ds"
  shows "skip_delim mem delim p = Some (p + of_nat (length (takeWhile (\<lambda>c. c \<in> set ds) xs)))"
  using assms(1)
proof (induction xs arbitrary: p)
  case Nil
  then show ?case by (simp add: skip_delim.simps)
next
  case (Cons x xs)
  from strchr_usable [OF assms(2), of x] Cons.prems obtain q
    where "strchr mem delim x = Some q" "q \<noteq> 0 \<longleftrightarrow> x \<in> set ds" by auto
  with Cons show ?case by (auto simp: skip_delim.simps [of mem delim p] addr_Suc simp del: of_nat_Suc)
qed

lemma skip_token_cstr:
  assumes "cstr mem p xs" "usable mem delim ds"
  shows "skip_token mem delim p = Some (p + of_nat (length (takeWhile (\<lambda>c. c \<notin> set ds) xs)))"
  using assms(1)
proof (induction xs arbitrary: p)
  case Nil
  then show ?case by (simp add: skip_token.simps)
next
  case (Cons x xs)
  from strchr_usable [OF assms(2), of x] Cons.prems obtain q
    where "strchr mem delim x = Some q" "q \<noteq> 0 \<longleftrightarrow> x \<in> set ds" by auto
  with Cons show ?case
    by (cases "x \<in> set ds") (simp_all add: skip_token.simps [of mem delim p] add.assoc)
qed

text \<open>Cutting a string in two at position \<open>k\<close> by a zero byte.\<close>

lemma cstr_cut:
  assumes "cstr mem s xs" "k < length xs"
  shows "cstr (mem(s + of_nat k := 0)) s (take k xs)"
    "cstr (mem(s + of_nat k := 0)) (s + of_nat k + 1) (drop (Suc k) xs)"
proof -
  have len: "length xs < 2 ^ 64" by (rule cstr_length [OF assms(1)])
  have ne: "s + of_nat i \<noteq> s + of_nat k" if "i \<le> length xs" "i \<noteq> k" for i
  proof -
    have "unat (of_nat i :: u64) \<noteq> unat (of_nat k :: u64)" using that len assms(2) by (simp add: unat_of_nat)
    then show ?thesis by auto
  qed
  show "cstr (mem(s + of_nat k := 0)) s (take k xs)"
    unfolding cstr_iff using cstr_nth [OF assms(1)] ne assms(2) by auto
  have n: "s + of_nat k + 1 + of_nat i = s + of_nat (Suc (k + i))" for i by (simp add: algebra_simps)
  have l: "Suc (k + length (drop (Suc k) xs)) = length xs" using assms(2) by simp
  show "cstr (mem(s + of_nat k := 0)) (s + of_nat k + 1) (drop (Suc k) xs)"
    unfolding cstr_iff n l using cstr_nth [OF assms(1)] cstr_end [OF assms(1)] ne assms(2)
    by (auto simp: add.commute simp del: of_nat_Suc)
qed

lemma strtok_r_cstr:
  assumes s: "usable mem s xs" and d: "usable mem delim ds"
  defines "rest \<equiv> dropWhile (\<lambda>c. c \<in> set ds) xs"
  defines "tok \<equiv> takeWhile (\<lambda>c. c \<notin> set ds) rest"
  shows "strtok_r mem s delim save =
    (if rest = [] then Some (0, 0, mem)
     else let start = s + of_nat (length xs - length rest); p = start + of_nat (length tok)
       in if tok = rest then Some (start, 0, mem) else Some (start, p + 1, mem(p := 0)))"
proof -
  let ?pre = "takeWhile (\<lambda>c. c \<in> set ds) xs"
  have cs: "cstr mem s xs" "s \<noteq> 0" using s by (simp_all add: usable_def)
  have len: "length ?pre = length xs - length rest"
    unfolding rest_def by (metis add_diff_cancel_right' length_append takeWhile_dropWhile_id)
  have dr: "drop (length ?pre) xs = rest" unfolding rest_def by (simp add: dropWhile_eq_drop)
  have cr: "cstr mem (s + of_nat (length ?pre)) rest"
    using cstr_drop [OF cs(1), of "length ?pre"] dr length_takeWhile_le [of _ xs] by simp
  note sk = skip_delim_cstr [OF cs(1) d] and tk = skip_token_cstr [OF cr d, folded tok_def]
  show ?thesis
  proof (cases rest)
    case Nil
    with cr cs(2) sk show ?thesis by (simp add: strtok_r_def)
  next
    case (Cons x r)
    then have x: "mem (s + of_nat (length ?pre)) \<noteq> 0" using cr by simp
    have e: "mem (s + of_nat (length ?pre) + of_nat (length tok)) = 0 \<longleftrightarrow> tok = rest"
    proof (cases "length tok < length rest")
      case True
      then show ?thesis using cstr_nth [OF cr True] by auto
    next
      case False
      then have "tok = rest" unfolding tok_def by (metis takeWhile_eq_take take_all not_less)
      then show ?thesis using cstr_end [OF cr] by simp
    qed
    show ?thesis using cs(2) sk tk x e Cons unfolding len by (simp add: strtok_r_def Let_def)
  qed
qed

section \<open>Properties\<close>

text \<open>
  C19 (equivalence). \<^verbatim>\<open>memmove\<close>, which copies upwards or downwards and mostly word by word, moves the bytes as if
  they were all read before any is written, whether or not the blocks overlap.
\<close>

theorem memmove_correct:
  assumes "unat src + unat n \<le> 2 ^ 64" "unat dst + unat n \<le> 2 ^ 64"
  shows "memmove mem dst src n x = (if unat (x - dst) < unat n then mem (src + (x - dst)) else mem x)"
proof -
  have "memmove mem dst src n = copied mem dst src (unat n)"
  proof -
    consider "dst = src" | "dst < src" | "src < dst" by fastforce
    then show ?thesis
    proof cases
      case 1
      then show ?thesis by (simp add: memmove_def copied_same)
    next
      case 2
      then have "unat n \<le> unat (dst - src)" using assms(1) by (simp add: unat_sub_if' word_less_nat_alt)
      with 2 show ?thesis by (rule memmove_up [rotated])
    next
      case 3
      then have "unat n \<le> unat (src - dst)" using assms(2) by (simp add: unat_sub_if' word_less_nat_alt)
      with 3 show ?thesis by (rule memmove_down [rotated])
    qed
  qed
  then show ?thesis by (simp add: copied_def)
qed

theorem memmove_correct_witness:
  "memmove (\<lambda>a. ucast a) 0x1003 0x1000 20 0x1010 = (0x0D :: u8) \<and> memmove (\<lambda>a. ucast a) 0x1003 0x1000 20 0x1017 = (0x17 :: u8)"
  using memmove_correct [of "0x1000" 20 "0x1003" "\<lambda>a. ucast a"] by simp

text \<open>
  C36 (equivalence). The string instruction of \<^verbatim>\<open>memcpy\<close> and its portable word loop leave the same memory when no
  source byte is overwritten before it is read.
\<close>

theorem memcpy_portable_equiv:
  assumes "unat n \<le> unat (dst - src)"
  shows "memcpy_words mem dst src n = memcpy mem dst src n"
proof (cases "n = 0 \<or> dst = src")
  case True
  then show ?thesis by (simp add: memcpy_words_def memcpy_def)
next
  case False
  obtain j where j: "copy_head (unat n) mem dst src =
      (copied mem dst src j, dst + of_nat j, src + of_nat j, unat n - j)" "j \<le> unat n"
    using copy_head_spec [of 0 "unat n" dst src mem] assms by auto
  obtain i where i: "copy_words (unat n - j) (copied mem dst src j) (dst + of_nat j) (src + of_nat j) =
      (copied mem dst src (j + i), dst + of_nat (j + i), src + of_nat (j + i), unat n - j - i)" "i \<le> unat n - j"
    using copy_words_spec [of j "unat n - j" dst src mem] assms j(2) by auto
  have "memcpy mem dst src n = copied mem dst src (unat n)"
    using False movsb_copied [OF assms, of mem] by (simp add: memcpy_def)
  moreover have "movsb (unat n - j - i) (copied mem dst src (j + i)) (dst + of_nat (j + i)) (src + of_nat (j + i)) =
      copied mem dst src (unat n)"
    using movsb_spec [of "j + i" "unat n - j - i" dst src mem] assms j(2) i(2) by simp
  moreover have "movsb (unat n - j) (copied mem dst src j) (dst + of_nat j) (src + of_nat j) = copied mem dst src (unat n)"
    using movsb_spec [of j "unat n - j" dst src mem] assms j(2) by simp
  ultimately show ?thesis using False by (simp add: memcpy_words_def j(1) i(1) Let_def)
qed

theorem memcpy_portable_equiv_witness:
  "memcpy_words (\<lambda>a. ucast a) 0x2000 0x1001 30 = memcpy (\<lambda>a. ucast a) 0x2000 0x1001 30"
  using memcpy_portable_equiv [of 30 "0x2000" "0x1001"] by simp

text \<open>
  C33 (functional). \<^verbatim>\<open>memset\<close>, bytes up to a word boundary, then words, then bytes, sets exactly the \<open>n\<close> bytes to the
  low byte of its argument.
\<close>

theorem memset_correct:
  "memset mem s c n x = (if unat (x - s) < unat n then ucast c else mem x)"
  by (simp add: memset_filled filled_def)

text \<open>
  C37 (functional). On strings \<^verbatim>\<open>strcmp\<close> returns; the sign of its result is the lexicographic order of the unsigned
  bytes and it is zero exactly on equal strings.
\<close>

theorem strcmp_correct:
  assumes "cstr mem a xs" "cstr mem b ys"
  shows "\<exists>r. strcmp mem a b = Some r \<and> (r = 0 \<longleftrightarrow> xs = ys) \<and> (r < 0 \<longleftrightarrow> (xs, ys) \<in> lexord {(x, y). x < y})"
  by (rule strcmp_cstr [OF assms])

text \<open>Two strings in an otherwise empty memory.\<close>

definition sample_mem :: mem where
  "sample_mem = put (put (\<lambda>_. 0) 0x100 [0x2C, 0x61, 0x62, 0x2C, 0x63]) 0x200 [0x2C]"

lemma sample_strings: "cstr sample_mem 0x100 [0x2C, 0x61, 0x62, 0x2C, 0x63]" "cstr sample_mem 0x200 [0x2C]"
  "cstr sample_mem 0x102 [0x62, 0x2C, 0x63]" "cstr sample_mem 0x103 [0x2C, 0x63]"
  by (simp_all add: sample_mem_def put_def)

theorem strcmp_correct_witness:
  "\<exists>r. strcmp sample_mem 0x103 0x102 = Some r \<and> r < 0"
proof -
  have "([0x2C, 0x63], [0x62, 0x2C, 0x63]) \<in> lexord {(x, y). x < (y :: u8)}" by simp
  with strcmp_correct [OF sample_strings(4,3)] show ?thesis by blast
qed

text \<open>
  C32 (functional). \<^verbatim>\<open>strstr\<close> returns the first place where the needle occurs and \<^verbatim>\<open>NULL\<close> when it occurs nowhere.
\<close>

theorem strstr_correct:
  assumes "cstr mem h xs" "cstr mem n ys" "h \<noteq> 0" "n \<noteq> 0"
  shows "if \<exists>k. occurs_at xs ys k
    then \<exists>k. occurs_at xs ys k \<and> (\<forall>j < k. \<not> occurs_at xs ys j) \<and> strstr mem h n = Some (h + of_nat k)
    else strstr mem h n = Some 0"
  using strstr_cstr [OF assms] by auto

theorem strstr_correct_witness:
  "strstr sample_mem 0x100 0x103 = Some 0x103"
proof -
  have "occurs_at [0x2C, 0x61, 0x62, 0x2C, 0x63] [0x2C, 0x63] k \<longleftrightarrow> k = 3" for k
  proof -
    have "occurs_at [0x2C, 0x61, 0x62, 0x2C, 0x63] [0x2C, 0x63] k \<Longrightarrow> k \<in> {0, 1, 2, 3}"
      by (auto simp: occurs_at_def)
    then show ?thesis by (auto simp: occurs_at_def)
  qed
  with strstr_correct [OF sample_strings(1,4)] show ?thesis by simp
qed

text \<open>
  C31 (functional). One call of \<^verbatim>\<open>strtok_r\<close> skips the leading delimiters, returns the token up to the next delimiter,
  cut off by a zero byte, and leaves the save pointer at what follows; with nothing left it returns \<^verbatim>\<open>NULL\<close>.
\<close>

theorem strtok_r_correct:
  assumes "usable mem s xs" "usable mem delim ds"
  shows "let rest = dropWhile (\<lambda>c. c \<in> set ds) xs; tok = takeWhile (\<lambda>c. c \<notin> set ds) rest
    in if rest = [] then strtok_r mem s delim save = Some (0, 0, mem)
       else \<exists>start save' mem'. strtok_r mem s delim save = Some (start, save', mem') \<and> cstr mem' start tok \<and>
         (if tok = rest then save' = 0 else cstr mem' save' (drop (Suc (length tok)) rest))"
proof -
  define rest where "rest = dropWhile (\<lambda>c. c \<in> set ds) xs"
  define tok where "tok = takeWhile (\<lambda>c. c \<notin> set ds) rest"
  let ?start = "s + of_nat (length xs - length rest)"
  have cs: "cstr mem s xs" using assms(1) by (simp add: usable_def)
  have "rest = drop (length xs - length rest) xs"
    unfolding rest_def by (metis dropWhile_eq_drop length_drop length_takeWhile_le diff_diff_cancel)
  with cstr_drop [OF cs, of "length xs - length rest"] have cr: "cstr mem ?start rest" by simp
  note st = strtok_r_cstr [OF assms, of save, folded rest_def, folded tok_def]
  have t: "take (length tok) rest = tok" unfolding tok_def by (rule takeWhile_eq_take [symmetric])
  show ?thesis unfolding Let_def rest_def [symmetric] tok_def [symmetric]
  proof (cases "tok = rest")
    case True
    with st cr show "if rest = [] then strtok_r mem s delim save = Some (0, 0, mem)
       else \<exists>start save' mem'. strtok_r mem s delim save = Some (start, save', mem') \<and> cstr mem' start tok \<and>
         (if tok = rest then save' = 0 else cstr mem' save' (drop (Suc (length tok)) rest))" by simp
  next
    case False
    with t have lt: "length tok < length rest" by (cases "length tok < length rest") simp_all
    then have ne: "rest \<noteq> []" by auto
    note cut = cstr_cut [OF cr lt, unfolded t]
    with st ne False show "if rest = [] then strtok_r mem s delim save = Some (0, 0, mem)
       else \<exists>start save' mem'. strtok_r mem s delim save = Some (start, save', mem') \<and> cstr mem' start tok \<and>
         (if tok = rest then save' = 0 else cstr mem' save' (drop (Suc (length tok)) rest))" by (simp add: Let_def)
  qed
qed

theorem strtok_r_correct_witness:
  "\<exists>start save mem'. strtok_r sample_mem 0x100 0x200 0 = Some (start, save, mem') \<and>
     cstr mem' start [0x61, 0x62] \<and> cstr mem' save [0x63]"
proof -
  have "usable sample_mem 0x100 [0x2C, 0x61, 0x62, 0x2C, 0x63]" "usable sample_mem 0x200 [0x2C]"
    using sample_strings by (simp_all add: usable_def)
  from strtok_r_correct [OF this, of 0] show ?thesis by simp
qed



end
