(* ===== verification/KHeap.thy ===== *)
theory KHeap
  imports KPaging KString
begin

text \<open>
  The kernel heap, \<^verbatim>\<open>src/kernel/mm/heap.c\<close>, and \<^verbatim>\<open>strdup\<close> of \<^verbatim>\<open>src/libk/string.c\<close>: a doubly linked list of
  blocks that tile one address range, first fit with splitting, coalescing with both neighbours, and
  growth by pages of the page allocator mapped at the end of the range.

  The file-scope variables of \<^verbatim>\<open>heap.c\<close> are the record \<open>heap_t\<close>. The block headers are kept in the typed
  store \<open>hdrs\<close>, the payload bytes in \<open>hp_mem\<close>; \<open>hp_pg\<close> is the state of the paging code and, inside it, of
  the page allocator. Walks along the list are partial functions: \<open>None\<close> is a walk that does not end,
  \<open>Panic\<close> a call of \<^verbatim>\<open>panic\<close>.

  The abstract heap is a start address and a list of block sizes with their state. The operations are
  shown to implement first fit, release and growth on that list, whatever the sizes.
\<close>

section \<open>State\<close>

abbreviation (input) HDR :: u64 where "HDR \<equiv> 40"
abbreviation (input) MIN_SPLIT_SIZE :: u64 where "MIN_SPLIT_SIZE \<equiv> 48"
abbreviation (input) MAGIC :: u32 where "MAGIC \<equiv> 0xB16B00B5"
abbreviation (input) HEAP_MAX_SIZE :: u64 where "HEAP_MAX_SIZE \<equiv> 536870912"

record block_header_t =
  bh_magic :: u32
  bh_size :: u64
  bh_free :: bool
  bh_prev :: ptr
  bh_next :: ptr

record heap_t =
  heap_head :: ptr
  heap_tail :: ptr
  heap_start_virt :: ptr
  heap_end_virt :: ptr
  heap_current_size :: u64
  hdrs :: "ptr \<Rightarrow> block_header_t"
  hp_mem :: mem
  hp_pg :: paging_t

definition upd_hdr :: "ptr \<Rightarrow> (block_header_t \<Rightarrow> block_header_t) \<Rightarrow> heap_t \<Rightarrow> heap_t" where
  "upd_hdr p f s = s\<lparr>hdrs := (hdrs s)(p := f (hdrs s p))\<rparr>"

definition align_up :: "u64 \<Rightarrow> u64" where
  "align_up n = (n + (8 - 1)) AND NOT (8 - 1)"

definition header_to_payload :: "ptr \<Rightarrow> ptr" where "header_to_payload h = h + HDR"
definition payload_to_header :: "ptr \<Rightarrow> ptr" where "payload_to_header p = p - HDR"

section \<open>Operations\<close>

text \<open>The loop that maps the new pages; the result of \<^verbatim>\<open>paging_map_page\<close> is ignored.\<close>

primrec expand_map :: "nat \<Rightarrow> u64 \<Rightarrow> u64 \<Rightarrow> u64 \<Rightarrow> paging_t \<Rightarrow> paging_t outcome" where
  "expand_map 0 i virt phys pg = Ret pg"
| "expand_map (Suc k) i virt phys pg =
     obind (paging_map_page pg (paging_get_kernel_cr3 pg) (virt + i * PAGE_SIZE) (phys + i * PAGE_SIZE)
              (PTE_PRESENT OR PTE_WRITABLE)) (\<lambda>(r, pg).
     expand_map k (i + 1) virt phys pg)"

definition heap_expand :: "heap_t \<Rightarrow> u64 \<Rightarrow> (bool \<times> heap_t) outcome" where
  "heap_expand s bytes =
     (let need = align_up (bytes + HDR);
          pages_needed = (need + PAGE_SIZE - 1) div PAGE_SIZE;
          expand_size = pages_needed * PAGE_SIZE
      in if heap_current_size s + expand_size > HEAP_MAX_SIZE then Ret (False, s)
         else let (phys, pmm, mem) = pmm_alloc_range (pg_pmm (hp_pg s)) (hp_mem s) (ucast pages_needed);
                  s = s\<lparr>hp_pg := (hp_pg s)\<lparr>pg_pmm := pmm\<rparr>, hp_mem := mem\<rparr>
         in if phys = 0 then Ret (False, s)
            else let virt = heap_end_virt s in
              obind (expand_map (unat pages_needed) 0 virt phys (hp_pg s)) (\<lambda>pg.
              let s = s\<lparr>hp_pg := pg\<rparr>;
                  h = virt;
                  s = upd_hdr h (\<lambda>b. b\<lparr>bh_magic := MAGIC, bh_free := True, bh_size := expand_size - HDR,
                        bh_prev := heap_tail s, bh_next := 0\<rparr>) s;
                  s = (if heap_tail s \<noteq> 0 then upd_hdr (heap_tail s) (bh_next_update (\<lambda>_. h)) s
                       else s\<lparr>heap_head := h\<rparr>)
              in Ret (True, s\<lparr>heap_tail := h, heap_end_virt := heap_end_virt s + expand_size,
                      heap_current_size := heap_current_size s + expand_size\<rparr>)))"

definition malloc_init :: "heap_t \<Rightarrow> ptr \<Rightarrow> u64 \<Rightarrow> int \<times> heap_t" where
  "malloc_init s heap_start heap_size =
     (if heap_start = 0 \<or> heap_size < HDR then (- 1, s)
      else let s = s\<lparr>heap_start_virt := heap_start, heap_end_virt := heap_start + heap_size,
                     heap_current_size := heap_size, heap_head := heap_start\<rparr>;
               s = upd_hdr (heap_head s) (\<lambda>b. b\<lparr>bh_magic := MAGIC, bh_size := heap_size - HDR,
                     bh_free := True, bh_prev := 0, bh_next := 0\<rparr>) s
      in (0, s\<lparr>heap_tail := heap_head s\<rparr>))"

partial_function (option) find_fit_from :: "(ptr \<Rightarrow> block_header_t) \<Rightarrow> ptr \<Rightarrow> u64 \<Rightarrow> ptr option" where
  "find_fit_from hs cur sz =
     (if cur = 0 then Some 0
      else if bh_free (hs cur) \<and> bh_size (hs cur) \<ge> sz then Some cur
      else find_fit_from hs (bh_next (hs cur)) sz)"

definition find_fit :: "heap_t \<Rightarrow> u64 \<Rightarrow> ptr option" where
  "find_fit s sz = find_fit_from (hdrs s) (heap_head s) sz"

definition split_block :: "heap_t \<Rightarrow> ptr \<Rightarrow> u64 \<Rightarrow> heap_t" where
  "split_block s h req_size =
     (if h = 0 then s
      else if bh_size (hdrs s h) < req_size + MIN_SPLIT_SIZE then s
      else let newh = header_to_payload h + req_size;
               s = upd_hdr newh (\<lambda>b. b\<lparr>bh_magic := MAGIC, bh_free := True,
                     bh_size := bh_size (hdrs s h) - req_size - HDR, bh_prev := h, bh_next := bh_next (hdrs s h)\<rparr>) s;
               nx = bh_next (hdrs s newh);
               s = (if nx \<noteq> 0 then upd_hdr nx (bh_prev_update (\<lambda>_. newh)) s else s);
               s = upd_hdr h (\<lambda>b. b\<lparr>bh_next := newh, bh_size := req_size\<rparr>) s
      in if heap_tail s = h then s\<lparr>heap_tail := newh\<rparr> else s)"

definition coalesce_next :: "heap_t \<Rightarrow> ptr \<Rightarrow> heap_t" where
  "coalesce_next s h =
     (let n = bh_next (hdrs s h)
      in if n \<noteq> 0 \<and> bh_free (hdrs s n) then
           let s = upd_hdr h (\<lambda>b. b\<lparr>bh_size := bh_size (hdrs s h) + HDR + bh_size (hdrs s n)\<rparr>) s;
               s = upd_hdr h (\<lambda>b. b\<lparr>bh_next := bh_next (hdrs s n)\<rparr>) s;
               nn = bh_next (hdrs s n);
               s = (if nn \<noteq> 0 then upd_hdr nn (bh_prev_update (\<lambda>_. h)) s else s)
           in if heap_tail s = n then s\<lparr>heap_tail := h\<rparr> else s
         else s)"

definition coalesce_prev :: "heap_t \<Rightarrow> ptr \<Rightarrow> heap_t" where
  "coalesce_prev s h =
     (let p = bh_prev (hdrs s h)
      in if p \<noteq> 0 \<and> bh_free (hdrs s p) then
           let s = upd_hdr p (\<lambda>b. b\<lparr>bh_size := bh_size (hdrs s p) + HDR + bh_size (hdrs s h)\<rparr>) s;
               s = upd_hdr p (\<lambda>b. b\<lparr>bh_next := bh_next (hdrs s h)\<rparr>) s;
               hn = bh_next (hdrs s h);
               s = (if hn \<noteq> 0 then upd_hdr hn (bh_prev_update (\<lambda>_. p)) s else s)
           in if heap_tail s = h then s\<lparr>heap_tail := p\<rparr> else s
         else s)"

definition coalesce :: "heap_t \<Rightarrow> ptr \<Rightarrow> heap_t" where
  "coalesce s h = (if h = 0 then s else coalesce_prev (coalesce_next s h) h)"

text \<open>
  The retry loop of \<^verbatim>\<open>malloc\<close>: the first argument counts the attempts that are left of the ten, so the loop
  is a recursion on it.
\<close>

primrec grow_until_fit :: "nat \<Rightarrow> heap_t \<Rightarrow> u64 \<Rightarrow> ptr \<Rightarrow> (ptr \<times> heap_t) outcome option" where
  "grow_until_fit 0 s sz fit =
     (if fit \<noteq> 0 then Some (Ret (fit, s)) else Some (Panic ''KERNEL HEAP EXHAUSTED''))"
| "grow_until_fit (Suc k) s sz fit =
     (if fit \<noteq> 0 then Some (Ret (fit, s))
      else case heap_expand s sz of
          Panic msg \<Rightarrow> Some (Panic msg)
        | Ret (ok, s) \<Rightarrow>
            if \<not> ok then Some (Panic ''KERNEL HEAP EXPANSION FAILED'')
            else Option.bind (find_fit s sz) (grow_until_fit k s sz))"

definition malloc :: "heap_t \<Rightarrow> u64 \<Rightarrow> (ptr \<times> heap_t) outcome option" where
  "malloc s sz =
     (if sz = 0 then Some (Ret (0, s))
      else let sz = align_up sz in
        Option.bind (find_fit s sz) (\<lambda>fit.
        Option.bind (grow_until_fit 10 s sz fit) (\<lambda>r.
        Some (obind r (\<lambda>(fit, s).
          let s = split_block s fit sz;
              s = upd_hdr fit (bh_free_update (\<lambda>_. False)) s
          in Ret (header_to_payload fit, s))))))"

definition free :: "heap_t \<Rightarrow> ptr \<Rightarrow> heap_t outcome" where
  "free s p =
     (if p = 0 then Ret s
      else let h = payload_to_header p
      in if bh_magic (hdrs s h) \<noteq> MAGIC then Panic ''HEAP CORRUPTION INVALID MAGIC''
         else if bh_free (hdrs s h) then Panic ''DOUBLE FREE''
         else Ret (coalesce (upd_hdr h (bh_free_update (\<lambda>_. True)) s) h))"

definition realloc :: "heap_t \<Rightarrow> ptr \<Rightarrow> u64 \<Rightarrow> (ptr \<times> heap_t) outcome option" where
  "realloc s p new_size =
     (if p = 0 then malloc s new_size
      else if new_size = 0 then Some (obind (free s p) (\<lambda>s. Ret (0, s)))
      else let h = payload_to_header p
      in if bh_magic (hdrs s h) \<noteq> MAGIC then Some (Ret (0, s))
         else let new_size = align_up new_size
         in if new_size \<le> bh_size (hdrs s h) then Some (Ret (p, split_block s h new_size))
            else Option.bind (malloc s new_size) (\<lambda>r. Some (obind r (\<lambda>(newp, s).
              if newp = 0 then Ret (0, s)
              else let s = s\<lparr>hp_mem := memcpy (hp_mem s) newp p (bh_size (hdrs s h))\<rparr>
              in obind (free s p) (\<lambda>s. Ret (newp, s))))))"

definition calloc :: "heap_t \<Rightarrow> u64 \<Rightarrow> u64 \<Rightarrow> (ptr \<times> heap_t) outcome option" where
  "calloc s nmemb sz =
     (if nmemb \<noteq> 0 \<and> sz > 0xFFFFFFFFFFFFFFFF div nmemb then Some (Ret (0, s))
      else let total_size = nmemb * sz
      in if total_size = 0 then Some (Ret (0, s))
         else Option.bind (malloc s total_size) (\<lambda>r. Some (obind r (\<lambda>(p, s).
           if p = 0 then Ret (0, s) else Ret (p, s\<lparr>hp_mem := memset (hp_mem s) p 0 total_size\<rparr>)))))"

record kmalloc_stats_t =
  total_managed :: u64
  used_payload :: u64
  free_payload :: u64
  largest_free :: u64
  num_blocks :: u64
  num_used :: u64
  num_free :: u64

partial_function (option) stats_from :: "(ptr \<Rightarrow> block_header_t) \<Rightarrow> ptr \<Rightarrow> kmalloc_stats_t \<Rightarrow> kmalloc_stats_t option" where
  "stats_from hs cur st =
     (if cur = 0 then Some st
      else let st = st\<lparr>num_blocks := num_blocks st + 1, total_managed := total_managed st + (HDR + bh_size (hs cur))\<rparr>;
               st = (if bh_free (hs cur) then
                       let st = st\<lparr>num_free := num_free st + 1, free_payload := free_payload st + bh_size (hs cur)\<rparr>
                       in if bh_size (hs cur) > largest_free st then st\<lparr>largest_free := bh_size (hs cur)\<rparr> else st
                     else st\<lparr>num_used := num_used st + 1, used_payload := used_payload st + bh_size (hs cur)\<rparr>)
      in stats_from hs (bh_next (hs cur)) st)"

definition get_kmalloc_stats :: "heap_t \<Rightarrow> kmalloc_stats_t option" where
  "get_kmalloc_stats s = stats_from (hdrs s) (heap_head s)
     \<lparr>total_managed = 0, used_payload = 0, free_payload = 0, largest_free = 0,
      num_blocks = 0, num_used = 0, num_free = 0\<rparr>"

definition malloc_aligned :: "heap_t \<Rightarrow> u64 \<Rightarrow> u64 \<Rightarrow> (ptr \<times> heap_t) outcome option" where
  "malloc_aligned s sz alignment =
     (let alignment = (if alignment < 8 then 8 else alignment)
      in if alignment AND (alignment - 1) \<noteq> 0 then Some (Ret (0, s))
         else let total_size = sz + alignment - 1 + 8
         in Option.bind (malloc s total_size) (\<lambda>r. Some (obind r (\<lambda>(original_ptr, s).
           if original_ptr = 0 then Ret (0, s)
           else let addr = original_ptr + 8;
                    aligned_addr = (addr + alignment - 1) AND NOT (alignment - 1)
           in Ret (aligned_addr, s\<lparr>hp_mem := store_u64 (hp_mem s) (aligned_addr - 8) original_ptr\<rparr>)))))"

definition free_aligned :: "heap_t \<Rightarrow> ptr \<Rightarrow> heap_t outcome" where
  "free_aligned s p = (if p = 0 then Ret s else free s (load_u64 (hp_mem s) (p - 8)))"

definition strdup :: "heap_t \<Rightarrow> ptr \<Rightarrow> (ptr \<times> heap_t) outcome option" where
  "strdup s p =
     (if p = 0 then Some (Ret (0, s))
      else Option.bind (strlen (hp_mem s) p) (\<lambda>n.
        let len = n + 1 in
        Option.bind (malloc s len) (\<lambda>r. Some (obind r (\<lambda>(dup, s).
          if dup = 0 then Ret (0, s)
          else Ret (dup, s\<lparr>hp_mem := memcpy (hp_mem s) dup p len\<rparr>))))))"

section \<open>The abstract heap\<close>

text \<open>
  A heap is a start address and a list of blocks, each its payload size and whether it is free. A block takes
  its size and the 40 bytes of its header, and the next block starts where it ends.
\<close>

type_synonym block = "nat \<times> bool"

definition span :: "block list \<Rightarrow> nat" where "span bs = (\<Sum>(n, f)\<leftarrow>bs. 40 + n)"

lemma span_simps [simp]: "span [] = 0" "span (b # bs) = 40 + fst b + span bs" "span (xs @ ys) = span xs + span ys"
  by (auto simp: span_def split: prod.split)

definition hdr :: "nat \<Rightarrow> bool \<Rightarrow> ptr \<Rightarrow> ptr \<Rightarrow> block_header_t" where
  "hdr n f p x = \<lparr>bh_magic = MAGIC, bh_size = of_nat n, bh_free = f, bh_prev = p, bh_next = x\<rparr>"

lemma hdr_simps [simp]: "bh_magic (hdr n f p x) = MAGIC" "bh_size (hdr n f p x) = of_nat n"
  "bh_free (hdr n f p x) = f" "bh_prev (hdr n f p x) = p" "bh_next (hdr n f p x) = x"
  "bh_free_update (\<lambda>_. g) (hdr n f p x) = hdr n g p x" "bh_prev_update (\<lambda>_. q) (hdr n f p x) = hdr n f q x"
  "bh_next_update (\<lambda>_. y) (hdr n f p x) = hdr n f p y" "bh_size_update (\<lambda>_. of_nat m) (hdr n f p x) = hdr m f p x"
  by (simp_all add: hdr_def)

text \<open>The headers of the blocks \<open>bs\<close> stand from address \<open>a\<close> on, linked to \<open>p\<close> before and \<open>x\<close> behind them.\<close>

primrec seg :: "(ptr \<Rightarrow> block_header_t) \<Rightarrow> ptr \<Rightarrow> nat \<Rightarrow> block list \<Rightarrow> ptr \<Rightarrow> bool" where
  "seg hs p a [] x \<longleftrightarrow> True"
| "seg hs p a (b # bs) x \<longleftrightarrow>
     hs (of_nat a) = hdr (fst b) (snd b) p (if bs = [] then x else of_nat (a + 40 + fst b)) \<and>
     seg hs (of_nat a) (a + 40 + fst b) bs x"

primrec last_addr :: "ptr \<Rightarrow> nat \<Rightarrow> block list \<Rightarrow> ptr" where
  "last_addr p a [] = p"
| "last_addr p a (b # bs) = last_addr (of_nat a) (a + 40 + fst b) bs"

lemma last_addr_append [simp]:
  "last_addr p a (xs @ ys) = last_addr (last_addr p a xs) (a + span xs) ys"
  by (induction xs arbitrary: p a) (simp_all add: add.assoc)

lemma seg_append:
  "seg hs p a (xs @ ys) x \<longleftrightarrow>
     seg hs p a xs (if ys = [] then x else of_nat (a + span xs)) \<and> seg hs (last_addr p a xs) (a + span xs) ys x"
  by (induction xs arbitrary: p a) (auto simp: add.assoc)

lemma of_nat_eq: "i < 2 ^ 64 \<Longrightarrow> j < 2 ^ 64 \<Longrightarrow> (of_nat i = (of_nat j :: u64)) \<longleftrightarrow> i = j"
  by (auto simp: word_of_nat_eq_iff take_bit_nat_eq_self)

lemma seg_upd [simp]:
  "unat w < a \<or> a + span bs \<le> unat w \<Longrightarrow> a + span bs \<le> 2 ^ 64 \<Longrightarrow>
   seg (hs(w := v)) p a bs x = seg hs p a bs x"
proof (induction bs arbitrary: p a)
  case (Cons b bs)
  then have "w \<noteq> of_nat a" by (auto simp: unat_of_nat)
  with Cons show ?case by auto
qed simp

lemma last_addr_cases:
  assumes "bs \<noteq> []"
  obtains xs b where "bs = xs @ [b]" "last_addr p a bs = of_nat (a + span xs)"
  using assms by (cases bs rule: rev_cases) auto

definition heap_ok :: "heap_t \<Rightarrow> nat \<Rightarrow> block list \<Rightarrow> bool" where
  "heap_ok s a bs \<longleftrightarrow> bs \<noteq> [] \<and> 0 < a \<and> heap_head s = of_nat a \<and> heap_start_virt s = of_nat a \<and>
     seg (hdrs s) 0 a bs 0 \<and> heap_tail s = last_addr 0 a bs \<and> heap_end_virt s = of_nat (a + span bs) \<and>
     heap_current_size s = of_nat (span bs) \<and> a + 2 ^ 62 < 2 ^ 64 \<and> span bs \<le> 2 ^ 62 \<and>
     8 dvd a \<and> (\<forall>b \<in> set bs. 8 dvd fst b)"

lemma of_nat_nonzero: "0 < i \<Longrightarrow> i < 2 ^ 64 \<Longrightarrow> (of_nat i :: u64) \<noteq> 0"
  using of_nat_eq [of i 0] by simp

lemma of_nat_le: "i < 2 ^ 64 \<Longrightarrow> j < 2 ^ 64 \<Longrightarrow> (of_nat i \<le> (of_nat j :: u64)) \<longleftrightarrow> i \<le> j"
  by (simp add: word_le_nat_alt unat_of_nat)

lemma of_nat_less: "i < 2 ^ 64 \<Longrightarrow> j < 2 ^ 64 \<Longrightarrow> (of_nat i < (of_nat j :: u64)) \<longleftrightarrow> i < j"
  by (simp add: word_less_nat_alt unat_of_nat)

text \<open>What the invariant says at one block: its header, its neighbours and the room it lies in.\<close>

definition block_addr :: "nat \<Rightarrow> block list \<Rightarrow> ptr" where "block_addr a xs = of_nat (a + span xs)"

lemma heap_ok_at:
  assumes ok: "heap_ok s a (xs @ (n, f) # ys)"
  defines "H \<equiv> block_addr a xs" and "Y \<equiv> block_addr a (xs @ [(n, f)])"
  shows "unat H = a + span xs" "unat Y = unat H + 40 + n" "unat Y + span ys < 2 ^ 64" "H \<noteq> 0" "Y \<noteq> 0" "8 dvd n"
    "hdrs s H = hdr n f (last_addr 0 a xs) (if ys = [] then 0 else Y)" "heap_tail s = H \<longleftrightarrow> ys = []"
proof -
  have b: "a + span xs + 40 + n + span ys < 2 ^ 64" "0 < a" "8 dvd n" using ok by (auto simp: heap_ok_def)
  then show u: "unat H = a + span xs" "unat Y = unat H + 40 + n" "unat Y + span ys < 2 ^ 64" "H \<noteq> 0" "Y \<noteq> 0" "8 dvd n"
    using of_nat_nonzero [of "a + span xs"] of_nat_nonzero [of "a + span xs + 40 + n"]
    by (simp_all add: H_def Y_def block_addr_def unat_of_nat add.assoc del: of_nat_add)
  show "hdrs s H = hdr n f (last_addr 0 a xs) (if ys = [] then 0 else Y)"
    using ok by (simp add: heap_ok_def seg_append H_def Y_def block_addr_def add.assoc)
  have t: "heap_tail s = last_addr H (a + span xs + 40 + n) ys" using ok by (simp add: heap_ok_def H_def block_addr_def)
  show "heap_tail s = H \<longleftrightarrow> ys = []"
  proof (cases "ys = []")
    case False
    then obtain zs b where z: "ys = zs @ [b]" "heap_tail s = of_nat (a + span xs + 40 + n + span zs)"
      using t last_addr_cases [of ys] by metis
    with b(1) have "unat (heap_tail s) = a + span xs + 40 + n + span zs" by (simp add: unat_of_nat del: of_nat_add)
    with u(1) False show ?thesis by auto
  qed (simp add: t)
qed

text \<open>The links a split and a merge write, on the chain of headers.\<close>

lemma seg_mid:
  fixes H Y :: ptr
  assumes "unat H = a + span xs" "unat Y = unat H + 40 + n"
  shows "seg hs p a (xs @ (n, f) # ys) 0 \<longleftrightarrow>
    seg hs p a xs H \<and> hs H = hdr n f (last_addr p a xs) (if ys = [] then 0 else Y) \<and> seg hs H (unat Y) ys 0"
proof -
  have "H = of_nat (a + span xs)" "Y = of_nat (a + span xs + 40 + n)" unfolding assms(1,2) [symmetric] assms(1) [symmetric] by simp_all
  then show ?thesis using assms by (simp add: seg_append del: of_nat_add)
qed

lemma seg_head:
  assumes "unat Y = unat N + 40 + n"
  shows "seg hs p (unat N) ((n, f) # ys) 0 \<longleftrightarrow> hs N = hdr n f p (if ys = [] then 0 else Y) \<and> seg hs N (unat Y) ys 0"
  using seg_mid [of N "unat N" "[]" Y n hs p f ys] assms by (simp del: seg.simps add: seg.simps(1))

definition relink :: "(ptr \<Rightarrow> block_header_t) \<Rightarrow> ptr \<Rightarrow> block list \<Rightarrow> ptr \<Rightarrow> ptr \<Rightarrow> block_header_t" where
  "relink hs Y ys N = (if ys = [] then hs else hs(Y := bh_prev_update (\<lambda>_. N) (hs Y)))"

lemma seg_relink:
  assumes "seg hs q (unat Y) ys x" "unat Y + span ys \<le> 2 ^ 64"
  shows "seg (relink hs Y ys N) N (unat Y) ys x"
  using assms by (cases ys) (auto simp: relink_def)

lemma seg_relink_other [simp]:
  "(ys \<noteq> [] \<Longrightarrow> unat Y < a \<or> a + span bs \<le> unat Y) \<Longrightarrow> a + span bs \<le> 2 ^ 64 \<Longrightarrow>
   seg (relink hs Y ys N) p a bs x = seg hs p a bs x"
  by (simp add: relink_def)

lemma relink_upd: "w \<noteq> Y \<Longrightarrow> relink (hs(w := v)) Y ys N = (relink hs Y ys N)(w := v)"
  by (simp add: relink_def fun_upd_twist)

lemma seg_cut:
  fixes H N Y :: ptr
  assumes seg: "seg hs p a (xs @ (r + 40 + m, f) # ys) 0"
    and u: "unat H = a + span xs" "unat N = unat H + 40 + r" "unat Y = unat N + 40 + m" "unat Y + span ys \<le> 2 ^ 64"
  shows "seg ((relink hs Y ys N)(N := hdr m True H (if ys = [] then 0 else Y), H := hdr r f (last_addr p a xs) N))
    p a (xs @ (r, f) # (m, True) # ys) 0"
proof -
  have s: "seg hs p a xs H" "seg hs H (unat Y) ys 0" using seg u seg_mid [of H a xs Y "r + 40 + m"] by simp_all
  let ?hs = "(relink hs Y ys N)(N := hdr m True H (if ys = [] then 0 else Y), H := hdr r f (last_addr p a xs) N)"
  have ne: "N \<noteq> H" using u by auto
  have "seg ?hs N (unat Y) ys 0" using seg_relink [OF s(2) u(4), of N] u by simp
  moreover have "?hs N = hdr m True H (if ys = [] then 0 else Y)" using ne by simp
  ultimately have "seg ?hs H (unat N) ((m, True) # ys) 0" by (simp only: seg_head [OF u(3)])
  moreover have "seg ?hs p a xs H" using s(1) u by simp
  ultimately show ?thesis using seg_mid [of H a xs N r ?hs p f "(m, True) # ys"] u(1,2) by simp
qed

lemma seg_join:
  fixes H N Y :: ptr
  assumes seg: "seg hs p a (xs @ (r, f) # (m, g) # ys) 0"
    and u: "unat H = a + span xs" "unat N = unat H + 40 + r" "unat Y = unat N + 40 + m" "unat Y + span ys \<le> 2 ^ 64"
  shows "seg ((relink hs Y ys H)(H := hdr (r + 40 + m) f (last_addr p a xs) (if ys = [] then 0 else Y)))
    p a (xs @ (r + 40 + m, f) # ys) 0"
proof -
  have s: "seg hs p a xs H" "seg hs H (unat N) ((m, g) # ys) 0"
    using seg u seg_mid [of H a xs N r hs p f "(m, g) # ys"] by simp_all
  then have s': "seg hs N (unat Y) ys 0" by (simp only: seg_head [OF u(3)])
  let ?hs = "(relink hs Y ys H)(H := hdr (r + 40 + m) f (last_addr p a xs) (if ys = [] then 0 else Y))"
  have "seg ?hs H (unat Y) ys 0" using seg_relink [OF s' u(4), of H] u by simp
  moreover have "seg ?hs p a xs H" using s(1) u by simp
  ultimately show ?thesis using seg_mid [of H a xs Y "r + 40 + m" ?hs p f ys] u(1,2,3) by simp
qed

lemma seg_flag:
  fixes H N Y :: ptr
  assumes seg: "seg hs p a (xs @ (n, f) # ys) 0" and u: "unat H = a + span xs" "unat Y = unat H + 40 + n" "unat Y + span ys \<le> 2 ^ 64"
  shows "seg (hs(H := bh_free_update (\<lambda>_. g) (hs H))) p a (xs @ (n, g) # ys) 0"
proof -
  note at = seg_mid [OF u(1,2), THEN iffD1, OF seg]
  have "seg (hs(H := bh_free_update (\<lambda>_. g) (hs H))) p a xs H" "seg (hs(H := bh_free_update (\<lambda>_. g) (hs H))) H (unat Y) ys 0"
    using at u by simp_all
  then show ?thesis using at by (simp add: seg_mid [OF u(1,2)])
qed

lemma seg_extend:
  fixes H N Y :: ptr
  assumes seg: "seg hs p a (xs @ [(n, f)]) 0" and u: "unat H = a + span xs" "unat N = unat H + 40 + n" "unat N + 40 + m < 2 ^ 64"
  shows "seg (hs(N := hdr m True H 0, H := bh_next_update (\<lambda>_. N) (hs H))) p a (xs @ [(n, f), (m, True)]) 0"
proof -
  note at = seg_mid [OF u(1,2), THEN iffD1, OF seg]
  let ?hs = "hs(N := hdr m True H 0, H := bh_next_update (\<lambda>_. N) (hs H))"
  have ne: "N \<noteq> H" using u by auto
  have "seg ?hs p a xs H" using at u by simp
  moreover have "seg ?hs H (unat N) [(m, True)] 0" using ne by simp
  moreover have "?hs H = hdr n f (last_addr p a xs) N" using at by simp
  ultimately show ?thesis using seg_mid [OF u(1,2), of ?hs p f "[(m, True)]"] ne by simp
qed

section \<open>The operations on the abstract heap\<close>

lemma last_addr_block: "last_addr p a (xs @ [b]) = block_addr a xs"
  by (simp add: block_addr_def)

lemma split_block_frame [simp]:
  "hp_mem (split_block s h r) = hp_mem s" "hp_pg (split_block s h r) = hp_pg s"
  by (simp_all add: split_block_def upd_hdr_def Let_def)

definition cut :: "nat \<Rightarrow> nat \<Rightarrow> bool \<Rightarrow> block list" where
  "cut n r f = (if n < r + 48 then [(n, f)] else [(r, f), (n - r - 40, True)])"

lemma new_hdr:
  "b\<lparr>bh_magic := MAGIC, bh_free := f, bh_size := of_nat n, bh_prev := p, bh_next := x\<rparr> = hdr n f p x"
  by (cases b) (simp add: hdr_def)

lemma split_block_ok:
  assumes ok: "heap_ok s a (xs @ (n, f) # ys)" and r: "r \<le> n" "8 dvd r"
  shows "heap_ok (split_block s (block_addr a xs) (of_nat r)) a (xs @ cut n r f @ ys)"
proof -
  define H Y where "H = block_addr a xs" and "Y = block_addr a (xs @ [(n, f)])"
  note at = heap_ok_at [OF ok, folded H_def, folded Y_def]
  have "(of_nat n :: u64) < of_nat (r + 48) \<longleftrightarrow> n < r + 48"
    using ok r by (intro of_nat_less) (auto simp: heap_ok_def)
  then have c: "bh_size (hdrs s H) < of_nat r + MIN_SPLIT_SIZE \<longleftrightarrow> n < r + 48" by (simp add: at(7))
  let ?s = "split_block s H (of_nat r)"
  show ?thesis
  proof (cases "n < r + 48")
    case True
    with c ok show ?thesis by (simp add: split_block_def H_def cut_def)
  next
    case False
    define m where "m = n - r - 40"
    have n: "n = r + 40 + m" and m: "8 \<le> m" "8 dvd m" using False at(6) r(2) by (auto simp: m_def)
    define N where "N = H + HDR + of_nat r"
    have N: "unat N = unat H + 40 + r"
      using at(2,3) n by (simp add: N_def unat_word_ariths unat_of_nat)
    have ne: "N \<noteq> H" "H \<noteq> N" "Y \<noteq> H" "Y \<noteq> N" "N \<noteq> Y" "H \<noteq> Y" using N at(2) n m by auto
    have sz: "of_nat n - of_nat r - HDR = (of_nat m :: u64)" by (simp add: n)
    have fields: "heap_head ?s = heap_head s" "heap_start_virt ?s = heap_start_virt s" "heap_end_virt ?s = heap_end_virt s"
      "heap_current_size ?s = heap_current_size s" "heap_tail ?s = (if ys = [] then N else heap_tail s)"
      using at(8) c False at(4) by (simp_all add: split_block_def upd_hdr_def Let_def N_def header_to_payload_def)
    have "hdrs ?s = (relink (hdrs s) Y ys N)(N := hdr m True H (if ys = [] then 0 else Y), H := hdr r f (last_addr 0 a xs) N)"
      using c False at(4,5) ne
      by (intro ext) (simp add: split_block_def upd_hdr_def Let_def header_to_payload_def N_def [symmetric] at(7) sz
        relink_def new_hdr)
    moreover have "seg (hdrs s) 0 a (xs @ (r + 40 + m, f) # ys) 0" using ok n by (simp add: heap_ok_def)
    ultimately have "seg (hdrs ?s) 0 a (xs @ (r, f) # (m, True) # ys) 0"
      using seg_cut [of "hdrs s" 0 a xs r m f ys H N Y] at(1-3) N n by simp
    moreover have "last_addr 0 a (xs @ (r, f) # (m, True) # ys) = heap_tail ?s"
    proof (cases ys)
      case Nil
      have "N = of_nat (a + span xs + 40 + r)" using N at(1) by (metis of_nat_unat ucast_id)
      then show ?thesis using Nil by (simp add: fields)
    next
      case (Cons y zs)
      then show ?thesis using ok by (simp add: fields heap_ok_def n add.commute add.left_commute)
    qed
    ultimately have "heap_ok ?s a (xs @ (r, f) # (m, True) # ys)"
      using ok m r by (auto simp: heap_ok_def fields n)
    then show ?thesis using False by (simp add: cut_def H_def m_def)
  qed
qed

lemma join_ok:
  assumes ok: "heap_ok s a (xs @ (r, f) # (m, g) # ys)"
    and H: "H = block_addr a xs" and Y: "Y = block_addr a (xs @ [(r, f), (m, g)])"
    and s': "hdrs s' = (relink (hdrs s) Y ys H)(H := hdr (r + 40 + m) f (last_addr 0 a xs) (if ys = [] then 0 else Y))"
      "heap_tail s' = (if ys = [] then H else heap_tail s)" "heap_head s' = heap_head s" "heap_start_virt s' = heap_start_virt s"
      "heap_end_virt s' = heap_end_virt s" "heap_current_size s' = heap_current_size s"
  shows "heap_ok s' a (xs @ (r + 40 + m, f) # ys)"
proof -
  let ?N = "block_addr a (xs @ [(r, f)])"
  have ok': "heap_ok s a ((xs @ [(r, f)]) @ (m, g) # ys)" using ok by simp
  note at = heap_ok_at [OF ok, folded H] and at' = heap_ok_at [OF ok', simplified, folded Y]
  have "seg (hdrs s') 0 a (xs @ (r + 40 + m, f) # ys) 0"
    using seg_join [of "hdrs s" 0 a xs r f m g ys H ?N Y] ok at(1,2) at'(2,3) s' by (simp add: heap_ok_def)
  moreover have "last_addr 0 a (xs @ (r + 40 + m, f) # ys) = heap_tail s'"
    using ok by (cases ys) (simp_all add: s' H block_addr_def heap_ok_def add.commute add.left_commute)
  ultimately show ?thesis using ok by (auto simp: heap_ok_def s')
qed

lemma flag_ok:
  assumes ok: "heap_ok s a (xs @ (n, f) # ys)"
  shows "heap_ok (upd_hdr (block_addr a xs) (bh_free_update (\<lambda>_. g)) s) a (xs @ (n, g) # ys)"
proof -
  note at = heap_ok_at [OF ok]
  have "seg (hdrs s) 0 a (xs @ (n, f) # ys) 0" using ok by (simp add: heap_ok_def)
  from seg_flag [OF this at(1,2), of g] at(3) ok show ?thesis by (auto simp: heap_ok_def upd_hdr_def)
qed

definition merge_right :: "nat \<Rightarrow> block list \<Rightarrow> nat \<times> block list" where
  "merge_right n ys = (case ys of (m, True) # zs \<Rightarrow> (n + 40 + m, zs) | _ \<Rightarrow> (n, ys))"

definition merge_left :: "block list \<Rightarrow> nat \<Rightarrow> block list \<times> nat" where
  "merge_left xs n = (if xs \<noteq> [] \<and> snd (last xs) then (butlast xs, fst (last xs) + 40 + n) else (xs, n))"

lemma coalesce_next_frame [simp]:
  "hp_mem (coalesce_next s h) = hp_mem s" "hp_pg (coalesce_next s h) = hp_pg s" "heap_head (coalesce_next s h) = heap_head s"
  "heap_start_virt (coalesce_next s h) = heap_start_virt s" "heap_end_virt (coalesce_next s h) = heap_end_virt s"
  "heap_current_size (coalesce_next s h) = heap_current_size s"
  by (simp_all add: coalesce_next_def upd_hdr_def Let_def)

lemma coalesce_prev_frame [simp]:
  "hp_mem (coalesce_prev s h) = hp_mem s" "hp_pg (coalesce_prev s h) = hp_pg s" "heap_head (coalesce_prev s h) = heap_head s"
  "heap_start_virt (coalesce_prev s h) = heap_start_virt s" "heap_end_virt (coalesce_prev s h) = heap_end_virt s"
  "heap_current_size (coalesce_prev s h) = heap_current_size s"
  by (simp_all add: coalesce_prev_def upd_hdr_def Let_def)

lemma coalesce_frame [simp]:
  "hp_mem (coalesce s h) = hp_mem s" "hp_pg (coalesce s h) = hp_pg s"
  by (simp_all add: coalesce_def)

lemma coalesce_next_ok:
  assumes ok: "heap_ok s a (xs @ (n, f) # ys)" and mr: "merge_right n ys = (n', ys')"
  shows "heap_ok (coalesce_next s (block_addr a xs)) a (xs @ (n', f) # ys')"
proof -
  define H N where "H = block_addr a xs" and "N = block_addr a (xs @ [(n, f)])"
  note at = heap_ok_at [OF ok, folded H_def, folded N_def]
  show ?thesis
  proof (cases "\<exists>m zs. ys = (m, True) # zs")
    case True
    then obtain m zs where ys: "ys = (m, True) # zs" by blast
    with mr have e: "n' = n + 40 + m" "ys' = zs" by (simp_all add: merge_right_def)
    have ok': "heap_ok s a ((xs @ [(n, f)]) @ (m, True) # zs)" using ok ys by simp
    define Y where "Y = block_addr a ((xs @ [(n, f)]) @ [(m, True)])"
    note at' = heap_ok_at [OF ok', folded N_def, folded Y_def]
    have ne: "N \<noteq> H" "H \<noteq> N" "H \<noteq> Y" "Y \<noteq> H" "N \<noteq> Y" "Y \<noteq> N" using at(2) at'(2) by auto
    have sz: "of_nat n + HDR + of_nat m = (of_nat (n + 40 + m) :: u64)" by simp
    have hH: "hdrs s H = hdr n f (last_addr 0 a xs) N" using at(7) ys by simp
    obtain q where hN: "hdrs s N = hdr m True q (if zs = [] then 0 else Y)" using at'(7) by blast
    have "hdrs (coalesce_next s H) = (relink (hdrs s) Y zs H)(H := hdr (n + 40 + m) f (last_addr 0 a xs) (if zs = [] then 0 else Y))"
      using ne hH hN at'(4,5) unfolding coalesce_next_def
      by (intro ext, cases "zs = []") (simp_all add: upd_hdr_def Let_def relink_def sz del: of_nat_add)
    moreover have "heap_tail (coalesce_next s H) = (if zs = [] then H else heap_tail s)"
      using hH hN at'(4,8) unfolding coalesce_next_def by (cases "zs = []") (simp_all add: upd_hdr_def Let_def)
    ultimately have "heap_ok (coalesce_next s H) a (xs @ (n + 40 + m, f) # zs)"
      using join_ok [of s a xs n f m True zs H Y "coalesce_next s H"] ok ys by (simp add: H_def Y_def)
    then show ?thesis by (simp add: H_def e)
  next
    case False
    then have "merge_right n ys = (n, ys)" by (auto simp: merge_right_def split: list.splits prod.splits bool.splits)
    moreover have "coalesce_next s H = s"
    proof (cases ys)
      case (Cons y zs)
      with False obtain m where y: "y = (m, False)" by (cases y) auto
      have ok': "heap_ok s a ((xs @ [(n, f)]) @ (m, False) # zs)" using ok Cons y by simp
      from heap_ok_at(7) [OF ok', folded N_def] at(7) Cons show ?thesis by (simp add: coalesce_next_def)
    qed (use at(7) in \<open>simp add: coalesce_next_def\<close>)
    ultimately show ?thesis using mr ok by (simp add: H_def)
  qed
qed

lemma coalesce_prev_ok:
  assumes ok: "heap_ok s a (xs @ (n, True) # ys)" and ml: "merge_left xs n = (xs', n')"
  shows "heap_ok (coalesce_prev s (block_addr a xs)) a (xs' @ (n', True) # ys)"
proof -
  define H Y where "H = block_addr a xs" and "Y = block_addr a (xs @ [(n, True)])"
  note at = heap_ok_at [OF ok, folded H_def, folded Y_def]
  show ?thesis
  proof (cases xs rule: rev_cases)
    case Nil
    then show ?thesis using ok ml at(7) by (simp add: coalesce_prev_def merge_left_def H_def)
  next
    case (snoc ws b)
    obtain k g where b: "b = (k, g)" by (cases b)
    define P where "P = block_addr a ws"
    have ok': "heap_ok s a (ws @ (k, g) # (n, True) # ys)" using ok snoc b by simp
    note at' = heap_ok_at [OF ok', folded P_def, simplified]
    have la: "last_addr 0 a xs = P" unfolding snoc by (simp add: P_def block_addr_def)
    have HP: "block_addr a (ws @ [(k, g)]) = H" by (simp add: H_def snoc b)
    have hp: "hdrs s P = hdr k g (last_addr 0 a ws) H" using at'(7) by (simp add: HP)
    show ?thesis
    proof (cases g)
      case False
      then have "coalesce_prev s H = s" using at(7) hp by (simp add: coalesce_prev_def la)
      moreover have "xs' = xs" "n' = n" using ml False by (simp_all add: merge_left_def snoc b)
      ultimately show ?thesis using ok by (simp add: H_def)
    next
      case True
      have ne: "P \<noteq> H" "H \<noteq> P" "P \<noteq> Y" "Y \<noteq> P" "H \<noteq> Y" "Y \<noteq> H" using at(2) at'(2) unfolding HP by auto
      have sz: "of_nat k + HDR + of_nat n = (of_nat (k + 40 + n) :: u64)" by simp
      have "hdrs (coalesce_prev s H) = (relink (hdrs s) Y ys P)(P := hdr (k + 40 + n) True (last_addr 0 a ws) (if ys = [] then 0 else Y))"
        using ne at(5,7) at'(4) hp True unfolding coalesce_prev_def
        by (intro ext, cases "ys = []") (simp_all add: upd_hdr_def Let_def relink_def sz la del: of_nat_add)
      moreover have "heap_tail (coalesce_prev s H) = (if ys = [] then P else heap_tail s)"
        using at(7,8) at'(4) hp True unfolding coalesce_prev_def by (cases "ys = []") (simp_all add: upd_hdr_def Let_def la)
      ultimately have "heap_ok (coalesce_prev s H) a (ws @ (k + 40 + n, True) # ys)"
        using join_ok [of s a ws k True n True ys P Y "coalesce_prev s H"] ok' snoc b True by (simp add: P_def Y_def)
      then show ?thesis using ml snoc b True by (simp add: merge_left_def H_def)
    qed
  qed
qed

definition release :: "block list \<Rightarrow> nat \<Rightarrow> block list \<Rightarrow> block list" where
  "release xs n ys = (let (n, ys) = merge_right n ys; (xs, n) = merge_left xs n in xs @ (n, True) # ys)"

lemma coalesce_ok:
  assumes ok: "heap_ok s a (xs @ (n, True) # ys)"
  shows "heap_ok (coalesce s (block_addr a xs)) a (release xs n ys)"
proof -
  obtain n' ys' where mr: "merge_right n ys = (n', ys')" by (cases "merge_right n ys")
  obtain xs' n'' where ml: "merge_left xs n' = (xs', n'')" by (cases "merge_left xs n'")
  have "heap_ok (coalesce_prev (coalesce_next s (block_addr a xs)) (block_addr a xs)) a (xs' @ (n'', True) # ys')"
    by (rule coalesce_prev_ok [OF coalesce_next_ok [OF ok mr] ml])
  then show ?thesis using heap_ok_at(4) [OF ok] mr ml by (simp add: coalesce_def release_def)
qed

lemma payload_header [simp]: "payload_to_header (header_to_payload h) = h"
  by (simp add: payload_to_header_def header_to_payload_def)

lemma payload_nonzero:
  assumes "heap_ok s a (xs @ (n, f) # ys)"
  shows "header_to_payload (block_addr a xs) \<noteq> 0"
    "unat (header_to_payload (block_addr a xs)) = a + span xs + 40"
proof -
  note at = heap_ok_at [OF assms]
  have "unat (block_addr a xs) + unat (40 :: u64) < 2 ^ LENGTH(64)" using at(2,3) by simp
  then have "unat (header_to_payload (block_addr a xs)) = unat (block_addr a xs) + 40"
    using unat_add_lem [of "block_addr a xs" 40] by (simp add: header_to_payload_def)
  then show "unat (header_to_payload (block_addr a xs)) = a + span xs + 40" using at(1) by simp
  then show "header_to_payload (block_addr a xs) \<noteq> 0" by auto
qed

lemma free_ok:
  assumes ok: "heap_ok s a (xs @ (n, False) # ys)"
  obtains s' where "free s (header_to_payload (block_addr a xs)) = Ret s'" "heap_ok s' a (release xs n ys)"
    "hp_mem s' = hp_mem s" "hp_pg s' = hp_pg s"
proof -
  note at = heap_ok_at [OF ok]
  have "free s (header_to_payload (block_addr a xs)) =
      Ret (coalesce (upd_hdr (block_addr a xs) (bh_free_update (\<lambda>_. True)) s) (block_addr a xs))"
    using payload_nonzero(1) [OF ok] at(7) by (simp add: free_def Let_def)
  moreover note coalesce_ok [OF flag_ok [OF ok, of True]]
  ultimately show ?thesis using that by (simp add: upd_hdr_def)
qed

lemma free_twice_panics:
  assumes ok: "heap_ok s a (xs @ (n, True) # ys)"
  shows "free s (header_to_payload (block_addr a xs)) = Panic ''DOUBLE FREE''"
  using payload_nonzero(1) [OF ok] heap_ok_at(7) [OF ok] by (simp add: free_def)

subsection \<open>First fit\<close>

definition fits :: "nat \<Rightarrow> block \<Rightarrow> bool" where "fits r b \<longleftrightarrow> snd b \<and> r \<le> fst b"

lemma find_fit_from_seg:
  assumes "seg hs p a bs 0" "0 < a" "a + span bs < 2 ^ 64" "r < 2 ^ 64"
  shows "find_fit_from hs (if bs = [] then 0 else of_nat a) (of_nat r) =
    Some (if \<exists>b \<in> set bs. fits r b then block_addr a (takeWhile (\<lambda>b. \<not> fits r b) bs) else 0)"
  using assms
proof (induction bs arbitrary: p a)
  case Nil
  then show ?case by (simp add: find_fit_from.simps)
next
  case (Cons b bs)
  have nz: "(of_nat a :: u64) \<noteq> 0" using Cons.prems by (intro of_nat_nonzero) simp_all
  have c: "(of_nat r :: u64) \<le> of_nat (fst b) \<longleftrightarrow> r \<le> fst b" using Cons.prems by (intro of_nat_le) simp_all
  have hs: "hs (of_nat a) = hdr (fst b) (snd b) p (if bs = [] then 0 else of_nat (a + 40 + fst b))" using Cons.prems by simp
  have IH: "find_fit_from hs (if bs = [] then 0 else of_nat (a + 40 + fst b)) (of_nat r) =
    Some (if \<exists>b \<in> set bs. fits r b then block_addr (a + 40 + fst b) (takeWhile (\<lambda>b. \<not> fits r b) bs) else 0)"
    using Cons.prems by (intro Cons.IH [of "of_nat a"]) simp_all
  have e: "block_addr (a + 40 + fst b) xs = block_addr a (b # xs)" for xs by (simp add: block_addr_def)
  show ?case
  proof (cases "fits r b")
    case True
    then show ?thesis using nz c hs by (simp add: find_fit_from.simps [of hs "of_nat a"] fits_def block_addr_def)
  next
    case False
    then have "find_fit_from hs (of_nat a) (of_nat r) = find_fit_from hs (if bs = [] then 0 else of_nat (a + 40 + fst b)) (of_nat r)"
      using nz c hs by (subst find_fit_from.simps) (auto simp: fits_def)
    then show ?thesis using IH False by (simp add: e)
  qed
qed

lemma find_fit_ok:
  assumes "heap_ok s a bs" "r < 2 ^ 64"
  shows "find_fit s (of_nat r) =
    Some (if \<exists>b \<in> set bs. fits r b then block_addr a (takeWhile (\<lambda>b. \<not> fits r b) bs) else 0)"
  using find_fit_from_seg [of "hdrs s" 0 a bs r] assms by (simp add: heap_ok_def find_fit_def)

subsection \<open>Growth\<close>

lemma unat_align_up:
  assumes "unat n + 7 < 2 ^ 64"
  shows "unat (align_up n) = (unat n + 7) div 8 * 8"
proof -
  have "unat (n + 7) = unat n + 7" using unat_add_lem [of n 7] assms by simp
  then have "unat (align_up n) = unat (n + 7) - unat (n + 7) mod 8"
    using unat_and_not_mask [of "n + 7" 3] by (simp add: align_up_def mask_eq_exp_minus_1)
  then show ?thesis using \<open>unat (n + 7) = unat n + 7\<close> by (simp add: minus_mod_eq_div_mult)
qed

lemma expand_map_panic: "expand_map k i v ph pg = Panic msg \<Longrightarrow> msg = ''PAGING: Failed to allocate page table''"
proof (induction k arbitrary: i pg)
  case (Suc k)
  have g: "get_next_level pg t i fl al = Panic m \<Longrightarrow> m = ''PAGING: Failed to allocate page table''" for pg t i fl al m
    by (auto simp: get_next_level_def Let_def split: if_splits prod.splits)
  have "paging_map_page pg c va pa fl = Panic m \<Longrightarrow> m = ''PAGING: Failed to allocate page table''" for c va pa fl m
    by (auto simp: paging_map_page_def Let_def obind_Panic_iff dest: g split: if_splits prod.splits)
  with Suc show ?case by (auto simp: obind_Panic_iff split: prod.splits)
qed simp

definition grown_size :: "nat \<Rightarrow> nat" where "grown_size r = (r + 40 + 4095) div 4096 * 4096 - 40"

lemma grown_size: "r \<le> grown_size r" "8 dvd grown_size r" "grown_size r + 40 = (r + 40 + 4095) div 4096 * 4096"
proof -
  have "r + 40 \<le> (r + 40 + 4095) div 4096 * 4096"
    using div_mult_mod_eq [of "r + 40 + 4095" 4096] mod_less_divisor [of 4096 "r + 40 + 4095"] by linarith
  then show "r \<le> grown_size r" "grown_size r + 40 = (r + 40 + 4095) div 4096 * 4096" by (simp_all add: grown_size_def)
  have "(8 :: nat) dvd (r + 40 + 4095) div 4096 * 4096" "(8 :: nat) dvd 40" by simp_all
  then show "8 dvd grown_size r" unfolding grown_size_def by (rule dvd_diff_nat)
qed

lemma append_ok:
  assumes ok: "heap_ok s a bs" and room: "span bs + 40 + m \<le> 2 ^ 62" and m: "8 dvd m" and N: "N = heap_end_virt s"
    and s': "hdrs s' = (hdrs s)(N := hdr m True (heap_tail s) 0, heap_tail s := bh_next_update (\<lambda>_. N) (hdrs s (heap_tail s)))"
      "heap_tail s' = N" "heap_head s' = heap_head s" "heap_start_virt s' = heap_start_virt s"
      "heap_end_virt s' = N + of_nat (m + 40)" "heap_current_size s' = heap_current_size s + of_nat (m + 40)"
  shows "heap_ok s' a (bs @ [(m, True)])"
proof -
  obtain xs n f where bs: "bs = xs @ [(n, f)]" using ok by (cases bs rule: rev_cases) (auto simp: heap_ok_def)
  note at = heap_ok_at [of s a xs n f "[]", folded bs, OF ok]
  have Y: "block_addr a bs = N" using ok N by (simp add: heap_ok_def block_addr_def)
  have t: "heap_tail s = block_addr a xs" using at(8) by simp
  have b: "unat N + 40 + m < 2 ^ 64" 
  proof -
    have "unat N = a + span bs" using at(1,2) Y by (simp add: bs)
    then show ?thesis using room ok by (simp add: heap_ok_def)
  qed
  have "seg (hdrs s) 0 a (xs @ [(n, f)]) 0" using ok by (simp add: heap_ok_def bs)
  from seg_extend [OF this at(1) at(2) [unfolded Y] b] have "seg (hdrs s') 0 a (bs @ [(m, True)]) 0"
    by (simp add: bs s' t)
  moreover have "last_addr 0 a (bs @ [(m, True)]) = N" using Y by (simp add: block_addr_def)
  ultimately show ?thesis using ok room m Y by (auto simp: heap_ok_def s' block_addr_def)
qed

lemma tail_end:
  assumes ok: "heap_ok s a bs"
  shows "heap_tail s \<noteq> 0" "heap_tail s \<noteq> heap_end_virt s"
proof -
  obtain xs n f where bs: "bs = xs @ [(n, f)]" using ok by (cases bs rule: rev_cases) (auto simp: heap_ok_def)
  note at = heap_ok_at [of s a xs n f "[]", folded bs, OF ok]
  have "heap_end_virt s = block_addr a bs" using ok by (simp add: heap_ok_def block_addr_def)
  moreover have "unat (block_addr a bs) = unat (heap_tail s) + 40 + n" "heap_tail s \<noteq> 0" using at(2,4,8) by simp_all
  ultimately show "heap_tail s \<noteq> 0" "heap_tail s \<noteq> heap_end_virt s" by auto
qed

lemma heap_expand_ok:
  assumes ok: "heap_ok s a bs" and r: "r \<le> 2 ^ 63" "8 dvd r"
  shows "case heap_expand s (of_nat r) of
      Panic msg \<Rightarrow> msg = ''PAGING: Failed to allocate page table''
    | Ret (False, s') \<Rightarrow> heap_ok s' a bs
    | Ret (True, s') \<Rightarrow> heap_ok s' a (bs @ [(grown_size r, True)])"
proof -
  let ?k = "(r + 40 + 4095) div 4096"
  have kb: "?k * 4096 \<le> r + 40 + 4095" by simp
  have need: "align_up (of_nat r + HDR) = of_nat (r + 40)"
  proof -
    have "unat (of_nat (r + 40) :: u64) = r + 40" using r by (simp add: unat_of_nat del: of_nat_add)
    moreover from this have "unat (align_up (of_nat (r + 40))) = (r + 40 + 7) div 8 * 8"
      using unat_align_up [of "of_nat (r + 40)"] r by (simp del: of_nat_add)
    moreover have "(r + 40 + 7) div 8 * 8 = r + 40" using r(2) by (elim dvdE) simp
    ultimately have "align_up (of_nat (r + 40)) = of_nat (r + 40)" by (metis of_nat_unat ucast_id)
    then show ?thesis by simp
  qed
  have pages: "(of_nat (r + 40) + PAGE_SIZE - 1) div PAGE_SIZE = (of_nat ?k :: u64)"
  proof -
    have "of_nat (r + 40) + PAGE_SIZE - 1 = (of_nat (r + 40 + 4095) :: u64)" by simp
    moreover have "of_nat (r + 40 + 4095) div (of_nat 4096 :: u64) = of_nat ?k"
      using r by (intro word_unat_eq_iff [THEN iffD2]) (simp add: unat_div unat_of_nat del: of_nat_add)
    ultimately show ?thesis by simp
  qed
  have size: "of_nat ?k * PAGE_SIZE = (of_nat (grown_size r + 40) :: u64)" unfolding grown_size(3) by simp
  have cur: "heap_current_size s = of_nat (span bs)" using ok by (simp add: heap_ok_def)
  have lim: "heap_current_size s + of_nat (grown_size r + 40) > HEAP_MAX_SIZE \<longleftrightarrow> 536870912 < span bs + (grown_size r + 40)"
  proof -
    have "span bs + (grown_size r + 40) < 2 ^ 64" 
    proof -
      have "span bs \<le> 2 ^ 62" using ok by (simp add: heap_ok_def)
      moreover have "grown_size r + 40 \<le> r + 4135" using kb grown_size(3) [of r] by linarith
      ultimately show ?thesis using r(1) by simp
    qed
    from of_nat_less [of 536870912 "span bs + (grown_size r + 40)"] this show ?thesis unfolding cur by simp
  qed
  show ?thesis
  proof (cases "536870912 < span bs + (grown_size r + 40)")
    case True
    then have "heap_expand s (of_nat r) = Ret (False, s)"
      unfolding heap_expand_def Let_def need pages size using lim by (simp del: of_nat_add)
    then show ?thesis using ok by simp
  next
    case False
    obtain phys pmm mem where al: "pmm_alloc_range (pg_pmm (hp_pg s)) (hp_mem s) (ucast (of_nat ?k :: u64)) = (phys, pmm, mem)"
      by (metis prod_cases3)
    let ?s = "s\<lparr>hp_pg := (hp_pg s)\<lparr>pg_pmm := pmm\<rparr>, hp_mem := mem\<rparr>"
    have ok': "heap_ok ?s a bs" using ok by (simp add: heap_ok_def)
    show ?thesis
    proof (cases "phys = 0")
      case True
      then have "heap_expand s (of_nat r) = Ret (False, ?s)"
        unfolding heap_expand_def Let_def need pages size al using lim False by (simp del: of_nat_add)
      then show ?thesis using ok' by simp
    next
      case phys: False
      let ?m = "expand_map (unat (of_nat ?k :: u64)) 0 (heap_end_virt s) phys ((hp_pg s)\<lparr>pg_pmm := pmm\<rparr>)"
      define N where "N = heap_end_virt s"
      have t: "heap_tail s \<noteq> 0" "heap_tail s \<noteq> N" "N \<noteq> heap_tail s" "heap_tail ?s \<noteq> 0"
        using tail_end [OF ok] by (auto simp: N_def)
      have sz: "of_nat (grown_size r + 40) - HDR = (of_nat (grown_size r) :: u64)" by simp
      show ?thesis
      proof (cases ?m)
        case (Panic msg)
        then have "heap_expand s (of_nat r) = Panic msg"
          unfolding heap_expand_def Let_def need pages size al using lim False phys by (simp del: of_nat_add)
        then show ?thesis using expand_map_panic [OF Panic] by simp
      next
        case (Ret pg)
        then have "\<exists>s'. heap_expand s (of_nat r) = Ret (True, s') \<and> heap_ok s' a (bs @ [(grown_size r, True)])"
          unfolding heap_expand_def Let_def need pages size al sz using lim False phys t grown_size(2) [of r]
          by (simp del: of_nat_add add: upd_hdr_def new_hdr N_def [symmetric])
            (rule append_ok [OF ok _ _ N_def], simp_all del: of_nat_add add: N_def)
        then show ?thesis by auto
      qed
    qed
  qed
qed

subsection \<open>Allocation\<close>

definition prefix_of_fit :: "nat \<Rightarrow> block list \<Rightarrow> block list" where
  "prefix_of_fit r bs = takeWhile (\<lambda>b. \<not> fits r b) bs"

definition place :: "nat \<Rightarrow> block list \<Rightarrow> block list" where
  "place r bs = (let rest = dropWhile (\<lambda>b. \<not> fits r b) bs
     in prefix_of_fit r bs @ cut (fst (hd rest)) r False @ tl rest)"

lemma fit_split:
  assumes "\<exists>b \<in> set bs. fits r b"
  obtains n ys where "bs = prefix_of_fit r bs @ (n, True) # ys" "r \<le> n" "place r bs = prefix_of_fit r bs @ cut n r False @ ys"
proof -
  let ?rest = "dropWhile (\<lambda>b. \<not> fits r b) bs"
  have ne: "?rest \<noteq> []" using assms by (simp add: dropWhile_eq_Nil_conv)
  then obtain n f ys where e: "?rest = (n, f) # ys" by (cases ?rest) auto
  then have "fits r (n, f)" using hd_dropWhile [OF ne] by simp
  then have "f" "r \<le> n" by (simp_all add: fits_def)
  moreover have "bs = prefix_of_fit r bs @ ?rest" by (simp add: prefix_of_fit_def)
  ultimately show ?thesis using that [of n ys] e by (simp add: place_def)
qed

lemma cut_cons: obtains m ys where "cut n r f = (m, f) # ys" "\<And>g. cut n r g = (m, g) # ys" "r \<le> n \<Longrightarrow> r \<le> m" "m < r + 48"
  by (cases "n < r + 48") (auto simp: cut_def intro: that)

definition take_block :: "heap_t \<Rightarrow> ptr \<Rightarrow> nat \<Rightarrow> heap_t" where
  "take_block s fit r = upd_hdr fit (bh_free_update (\<lambda>_. False)) (split_block s fit (of_nat r))"

lemma take_block_frame [simp]:
  "hp_mem (take_block s fit r) = hp_mem s" "hp_pg (take_block s fit r) = hp_pg s"
  by (simp_all add: take_block_def upd_hdr_def)

lemma take_block_ok:
  assumes ok: "heap_ok s a bs" and fit: "\<exists>b \<in> set bs. fits r b" and r: "8 dvd r"
  shows "heap_ok (take_block s (block_addr a (prefix_of_fit r bs)) r) a (place r bs)"
proof -
  obtain n ys where e: "bs = prefix_of_fit r bs @ (n, True) # ys" "r \<le> n" "place r bs = prefix_of_fit r bs @ cut n r False @ ys"
    using fit_split [OF fit] by blast
  obtain m zs where c: "cut n r True = (m, True) # zs" "cut n r False = (m, False) # zs" using cut_cons by metis
  from split_block_ok [of s a "prefix_of_fit r bs" n True ys r] ok e(1,2) r
  have "heap_ok (split_block s (block_addr a (prefix_of_fit r bs)) (of_nat r)) a (prefix_of_fit r bs @ (m, True) # zs @ ys)"
    by (simp add: c)
  from flag_ok [OF this, of False] show ?thesis by (simp add: take_block_def e(3) c)
qed

lemma fit_addr_nonzero:
  assumes ok: "heap_ok s a bs" and fit: "\<exists>b \<in> set bs. fits r b"
  shows "block_addr a (prefix_of_fit r bs) \<noteq> 0"
proof -
  obtain n ys where "bs = prefix_of_fit r bs @ (n, True) # ys" using fit_split [OF fit] by blast
  with heap_ok_at(4) [of s a "prefix_of_fit r bs" n True ys] ok show ?thesis by simp
qed

definition rounded :: "u64 \<Rightarrow> nat" where "rounded sz = (unat sz + 7) div 8 * 8"

lemma rounded:
  assumes "unat sz < 2 ^ 63"
  shows "align_up sz = of_nat (rounded sz)" "unat sz \<le> rounded sz" "8 dvd rounded sz" "rounded sz \<le> 2 ^ 63"
    "rounded sz < unat sz + 8"
proof -
  have "unat (align_up sz) = rounded sz" using unat_align_up [of sz] assms by (simp add: rounded_def)
  then show "align_up sz = of_nat (rounded sz)" by (metis of_nat_unat ucast_id)
  show "unat sz \<le> rounded sz" "8 dvd rounded sz" "rounded sz < unat sz + 8" by (simp_all add: rounded_def)
  show "rounded sz \<le> 2 ^ 63" using assms by (simp add: rounded_def)
qed

lemma malloc_fit:
  assumes ok: "heap_ok s a bs" and sz: "sz \<noteq> 0" "unat sz < 2 ^ 63" and fit: "\<exists>b \<in> set bs. fits (rounded sz) b"
  defines "fp \<equiv> block_addr a (prefix_of_fit (rounded sz) bs)"
  shows "malloc s sz = Some (Ret (header_to_payload fp, take_block s fp (rounded sz)))"
    "heap_ok (take_block s fp (rounded sz)) a (place (rounded sz) bs)"
proof -
  note r = rounded [OF sz(2)]
  have "find_fit s (of_nat (rounded sz)) = Some fp"
    using find_fit_ok [OF ok, of "rounded sz"] fit r(4) by (simp add: fp_def prefix_of_fit_def)
  moreover have "fp \<noteq> 0" using fit_addr_nonzero [OF ok fit] by (simp add: fp_def)
  then have "grow_until_fit k s z fp = Some (Ret (fp, s))" for k z by (cases k) simp_all
  ultimately show "malloc s sz = Some (Ret (header_to_payload fp, take_block s fp (rounded sz)))"
    using sz(1) by (simp add: malloc_def r(1) take_block_def Let_def)
  show "heap_ok (take_block s fp (rounded sz)) a (place (rounded sz) bs)"
    unfolding fp_def by (rule take_block_ok [OF ok fit r(3)])
qed

lemma malloc_grow:
  assumes ok: "heap_ok s a bs" and sz: "sz \<noteq> 0" "unat sz < 2 ^ 63" and nofit: "\<not> (\<exists>b \<in> set bs. fits (rounded sz) b)"
  shows "malloc s sz = Some (Panic ''KERNEL HEAP EXPANSION FAILED'') \<or> malloc s sz = Some (Panic ''PAGING: Failed to allocate page table'') \<or>
    (\<exists>s'. malloc s sz = Some (Ret (header_to_payload (block_addr a bs), take_block s' (block_addr a bs) (rounded sz))) \<and>
       heap_ok s' a (bs @ [(grown_size (rounded sz), True)]))"
proof -
  note r = rounded [OF sz(2)]
  let ?r = "rounded sz"
  have r64: "?r < 2 ^ 64" using r(4) by simp
  have ff: "find_fit s (of_nat ?r) = Some 0" using find_fit_ok [OF ok r64] nofit by auto
  have ten: "(10 :: nat) = Suc 9" by simp
  have e: "malloc s sz = Option.bind (case heap_expand s (of_nat ?r) of Panic msg \<Rightarrow> Some (Panic msg)
      | Ret (ok, s) \<Rightarrow> if \<not> ok then Some (Panic ''KERNEL HEAP EXPANSION FAILED'')
          else Option.bind (find_fit s (of_nat ?r)) (grow_until_fit 9 s (of_nat ?r))) (\<lambda>r. Some (obind r (\<lambda>(fit, s).
      Ret (header_to_payload fit, take_block s fit ?r))))"
    unfolding malloc_def r(1) Let_def ten take_block_def using sz(1) ff by (simp only: Option.bind.simps grow_until_fit.simps if_False simp_thms)
  show ?thesis
  proof (cases "heap_expand s (of_nat ?r)")
    case (Panic msg)
    with heap_expand_ok [OF ok r(4,3)] e show ?thesis by simp
  next
    case (Ret x)
    obtain b s' where x: "x = (b, s')" by (cases x)
    show ?thesis
    proof (cases b)
      case False
      with Ret x e show ?thesis by simp
    next
      case True
      let ?bs = "bs @ [(grown_size ?r, True)]"
      have ok': "heap_ok s' a ?bs" using heap_expand_ok [OF ok r(4,3)] Ret x True by simp
      have fit: "\<exists>b \<in> set ?bs. fits ?r b" using grown_size(1) [of ?r] by (simp add: fits_def)
      have p: "prefix_of_fit ?r ?bs = bs" using nofit grown_size(1) [of ?r] by (auto simp: prefix_of_fit_def fits_def)
      have "find_fit s' (of_nat ?r) = Some (block_addr a bs)"
        using find_fit_ok [OF ok' r64] fit p by (simp add: prefix_of_fit_def)
      moreover have "block_addr a bs \<noteq> 0" using fit_addr_nonzero [OF ok' fit] p by simp
      then have "grow_until_fit k s' z (block_addr a bs) = Some (Ret (block_addr a bs, s'))" for k z by (cases k) simp_all
      ultimately have "malloc s sz = Some (Ret (header_to_payload (block_addr a bs), take_block s' (block_addr a bs) ?r))"
        using e Ret x True by simp
      with ok' show ?thesis by auto
    qed
  qed
qed

section \<open>The allocator contract\<close>

text \<open>The payloads in use, as address and size.\<close>

primrec used :: "nat \<Rightarrow> block list \<Rightarrow> (nat \<times> nat) set" where
  "used a [] = {}"
| "used a (b # bs) = (if snd b then {} else {(a + 40, fst b)}) \<union> used (a + 40 + fst b) bs"

lemma used_append [simp]: "used a (xs @ ys) = used a xs \<union> used (a + span xs) ys"
  by (induction xs arbitrary: a) (simp_all add: add.assoc Un_assoc)

lemma used_range: "(p, n) \<in> used a bs \<Longrightarrow> a + 40 \<le> p \<and> p + n \<le> a + span bs"
  by (induction bs arbitrary: a) (fastforce split: if_splits)+

lemma used_split:
  assumes "(p, n) \<in> used a bs"
  obtains xs ys where "bs = xs @ (n, False) # ys" "p = a + span xs + 40"
  using assms
proof (induction bs arbitrary: a thesis)
  case (Cons b bs)
  show ?case
  proof (cases "(p, n) \<in> used (a + 40 + fst b) bs")
    case True
    then obtain xs ys where "bs = xs @ (n, False) # ys" "p = a + 40 + fst b + span xs + 40"
      using Cons.IH [of "a + 40 + fst b"] by blast
    then show ?thesis using Cons.prems(1) [of "b # xs" ys] by simp
  next
    case False
    with Cons.prems(2) have "\<not> snd b" "p = a + 40" "n = fst b" by (auto split: if_splits)
    then show ?thesis using Cons.prems(1) [of "[]" bs] by (cases b) simp
  qed
qed simp

lemma used_cut: "used a (cut n r True) = {}"
  "used a (cut n r False) = {(a + 40, if n < r + 48 then n else r)}"
  by (simp_all add: cut_def)

lemma span_cut [simp]: "span (cut n r f) = 40 + n"
  by (simp add: cut_def)

lemma merge_right_used:
  assumes "merge_right n ys = (n', ys')"
  shows "used (a + 40 + n') ys' = used (a + 40 + n) ys \<and> n' + span ys' = n + span ys"
proof (cases ys)
  case (Cons y zs)
  then show ?thesis using assms by (cases y; cases "snd y") (auto simp: merge_right_def add.commute add.left_commute)
qed (use assms in \<open>simp add: merge_right_def\<close>)

lemma merge_left_used:
  assumes "merge_left xs n = (xs', n')"
  shows "used a xs' = used a xs \<and> span xs' + n' = span xs + n"
proof (cases xs rule: rev_cases)
  case (snoc zs z)
  then show ?thesis using assms by (auto simp: merge_left_def split: if_splits)
qed (use assms in \<open>simp add: merge_left_def\<close>)

lemma used_release: "used a (release xs n ys) = used a xs \<union> used (a + span xs + 40 + n) ys"
proof -
  obtain n' ys' where mr: "merge_right n ys = (n', ys')" by (cases "merge_right n ys")
  obtain xs' n'' where ml: "merge_left xs n' = (xs', n'')" by (cases "merge_left xs n'")
  have "a + span xs' + 40 + n'' = a + span xs + 40 + n'" using merge_left_used [OF ml] by simp
  then have "used (a + span xs' + 40 + n'') ys' = used (a + span xs + 40 + n') ys'" by (simp only:)
  then show ?thesis using merge_right_used [OF mr, of "a + span xs"] merge_left_used [OF ml, of a] mr ml
    by (simp add: release_def)
qed

lemma used_fst:
  assumes "(p, n) \<in> used a (xs @ (m, False) # ys)" "p = a + span xs + 40"
  shows "n = m"
  using assms used_range [of p n a xs] used_range [of p n "a + span xs + 40 + m" ys] by auto

lemma used_remove:
  "used a xs \<union> used (a + span xs + 40 + n) ys = used a (xs @ (n, False) # ys) - {(a + span xs + 40, n)}"
proof -
  have "(a + span xs + 40, n) \<notin> used a xs" using used_range [of "a + span xs + 40" n a xs] by auto
  moreover have "(a + span xs + 40, n) \<notin> used (a + span xs + 40 + n) ys"
    using used_range [of "a + span xs + 40" n "a + span xs + 40 + n" ys] by auto
  ultimately show ?thesis by auto
qed

text \<open>The list a heap state stands for is unique.\<close>

lemma seg_unique:
  assumes "seg hs p a bs 0" "seg hs p a bs' 0" "0 < a" "a + span bs < 2 ^ 64" "a + span bs' < 2 ^ 64" "bs = [] \<longleftrightarrow> bs' = []"
  shows "bs = bs'"
  using assms
proof (induction bs arbitrary: p a bs')
  case (Cons b bs)
  then obtain b' cs where c: "bs' = b' # cs" by (cases bs') auto
  have e: "hdr (fst b) (snd b) p (if bs = [] then 0 else of_nat (a + 40 + fst b)) =
      hdr (fst b') (snd b') p (if cs = [] then 0 else of_nat (a + 40 + fst b'))" using Cons.prems c by simp
  then have "(of_nat (fst b) :: u64) = of_nat (fst b')" "snd b = snd b'" by (simp_all add: hdr_def)
  moreover from this have "fst b = fst b'" using of_nat_eq [of "fst b" "fst b'"] Cons.prems(4,5) c by simp
  ultimately have b: "b = b'" by (simp add: prod_eq_iff)
  have nz: "(of_nat (a + 40 + fst b) :: u64) \<noteq> 0" using Cons.prems(4) by (intro of_nat_nonzero) simp_all
  have "bs = [] \<longleftrightarrow> cs = []" using e nz b by (auto simp: hdr_def split: if_splits)
  then have "bs = cs" using Cons.IH [of "of_nat a" "a + 40 + fst b" cs] Cons.prems c b by simp
  then show ?case using b c by simp
qed simp

lemma heap_ok_unique:
  assumes "heap_ok s a bs" "heap_ok s a' bs'"
  shows "a = a' \<and> bs = bs'"
proof -
  have "a = a'" using assms of_nat_eq [of a a'] by (simp add: heap_ok_def)
  moreover have "bs = bs'"
    by (rule seg_unique [of "hdrs s" 0 a]) (use assms \<open>a = a'\<close> in \<open>simp_all add: heap_ok_def\<close>)
  ultimately show ?thesis by simp
qed

definition heap_good :: "heap_t \<Rightarrow> bool" where
  "heap_good s \<longleftrightarrow> (\<exists>a bs. heap_ok s a bs)"

definition live :: "heap_t \<Rightarrow> (nat \<times> nat) set" where
  "live s = {x. \<exists>a bs. heap_ok s a bs \<and> x \<in> used a bs}"

lemma live_eq: "heap_ok s a bs \<Longrightarrow> live s = used a bs"
  unfolding live_def using heap_ok_unique by blast

lemma used_disjoint:
  "(p, n) \<in> used a bs \<Longrightarrow> (q, m) \<in> used a bs \<Longrightarrow> (p, n) = (q, m) \<or> p + n < q \<or> q + m < p"
proof (induction bs arbitrary: a)
  case (Cons b bs)
  then show ?case using used_range [of p n "a + 40 + fst b" bs] used_range [of q m "a + 40 + fst b" bs]
    by (auto split: if_splits)
qed simp

lemma place_used:
  assumes "\<exists>b \<in> set bs. fits r b"
  obtains n where "used a (place r bs) = insert (a + span (prefix_of_fit r bs) + 40, n) (used a bs)" "r \<le> n" "n < r + 48"
    "\<And>m. (a + span (prefix_of_fit r bs) + 40, m) \<notin> used a bs"
proof -
  let ?xs = "prefix_of_fit r bs"
  obtain n ys where e: "bs = ?xs @ (n, True) # ys" "r \<le> n" "place r bs = ?xs @ cut n r False @ ys" using fit_split [OF assms] .
  have u: "used a bs = used a ?xs \<union> used (a + span ?xs + 40 + n) ys" by (subst e(1)) simp
  have "used a (place r bs) = insert (a + span ?xs + 40, if n < r + 48 then n else r) (used a bs)"
    unfolding u by (simp add: e(3) used_cut add.assoc)
  moreover have "(a + span ?xs + 40, m) \<notin> used a bs" for m
    unfolding u using used_range [of "a + span ?xs + 40" m a ?xs] used_range [of "a + span ?xs + 40" m "a + span ?xs + 40 + n" ys] e(2)
    by auto
  ultimately show ?thesis using that e(2) by (metis less_add_same_cancel1 not_less zero_less_numeral order_refl linorder_not_le)
qed

lemma payload_at:
  assumes "heap_ok s a bs" "\<exists>b \<in> set bs. fits r b"
  shows "unat (header_to_payload (block_addr a (prefix_of_fit r bs))) = a + span (prefix_of_fit r bs) + 40"
    "8 dvd unat (header_to_payload (block_addr a (prefix_of_fit r bs)))"
proof -
  obtain n ys where e: "bs = prefix_of_fit r bs @ (n, True) # ys" using fit_split [OF assms(2)] .
  with assms(1) have ok: "heap_ok s a (prefix_of_fit r bs @ (n, True) # ys)" by simp
  show u: "unat (header_to_payload (block_addr a (prefix_of_fit r bs))) = a + span (prefix_of_fit r bs) + 40"
    by (rule payload_nonzero(2) [OF ok])
  have "\<forall>b \<in> set xs. 8 dvd fst b \<Longrightarrow> 8 dvd span xs" for xs :: "block list" by (induction xs) simp_all
  then show "8 dvd unat (header_to_payload (block_addr a (prefix_of_fit r bs)))" using ok u by (simp add: heap_ok_def)
qed

lemma take_block_law:
  assumes ok: "heap_ok s a bs" and fit: "\<exists>b \<in> set bs. fits r b" and r: "8 dvd r"
  defines "fp \<equiv> block_addr a (prefix_of_fit r bs)"
  obtains n bs' where "heap_ok (take_block s fp r) a bs'" "r \<le> n" "used a bs' = insert (unat (header_to_payload fp), n) (used a bs)"
    "\<forall>m. (unat (header_to_payload fp), m) \<notin> used a bs"
    "8 dvd unat (header_to_payload fp)" "header_to_payload fp \<noteq> 0"
proof -
  note p = payload_at [OF ok fit, folded fp_def]
  obtain n where n: "used a (place r bs) = insert (unat (header_to_payload fp), n) (used a bs)" "r \<le> n"
    "\<And>m. (unat (header_to_payload fp), m) \<notin> used a bs" using place_used [OF fit, of a] unfolding p(1) by metis
  have "header_to_payload fp \<noteq> 0" using p(1) by auto
  with that take_block_ok [OF ok fit r] n p(2) show ?thesis by (simp add: fp_def)
qed

lemma malloc_law:
  assumes ok: "heap_ok s a bs" and sz: "sz \<noteq> 0" "unat sz < 2 ^ 63"
  obtains msg where "malloc s sz = Some (Panic msg)" "\<not> (\<exists>b \<in> set bs. fits (rounded sz) b)"
      "msg \<in> {''KERNEL HEAP EXPANSION FAILED'', ''PAGING: Failed to allocate page table''}"
  | p s' n bs' where "malloc s sz = Some (Ret (p, s'))" "heap_ok s' a bs'" "unat sz \<le> n"
      "used a bs' = insert (unat p, n) (used a bs)" "\<forall>m. (unat p, m) \<notin> used a bs" "8 dvd unat p" "p \<noteq> 0"
proof (cases "\<exists>b \<in> set bs. fits (rounded sz) b")
  case True
  let ?fp = "block_addr a (prefix_of_fit (rounded sz) bs)"
  from take_block_law [OF ok True rounded(3) [OF sz(2)]] obtain n bs' where
    n: "heap_ok (take_block s ?fp (rounded sz)) a bs'" "rounded sz \<le> n"
    "used a bs' = insert (unat (header_to_payload ?fp), n) (used a bs)" "\<forall>m. (unat (header_to_payload ?fp), m) \<notin> used a bs"
    "8 dvd unat (header_to_payload ?fp)" "header_to_payload ?fp \<noteq> 0" .
  have "unat sz \<le> n" using n(2) rounded(2) [OF sz(2)] by simp
  from that(2) [OF malloc_fit(1) [OF ok sz True] n(1) this n(3-6)] show thesis .
next
  case False
  let ?bs = "bs @ [(grown_size (rounded sz), True)]"
  have fit: "\<exists>b \<in> set ?bs. fits (rounded sz) b" using grown_size(1) [of "rounded sz"] by (simp add: fits_def)
  have pf: "prefix_of_fit (rounded sz) ?bs = bs"
    using False grown_size(1) [of "rounded sz"] by (auto simp: prefix_of_fit_def fits_def)
  from malloc_grow [OF ok sz False] consider msg where "malloc s sz = Some (Panic msg)"
      "msg \<in> {''KERNEL HEAP EXPANSION FAILED'', ''PAGING: Failed to allocate page table''}"
    | s' where "malloc s sz = Some (Ret (header_to_payload (block_addr a bs), take_block s' (block_addr a bs) (rounded sz)))"
       "heap_ok s' a ?bs" by blast
  then show thesis
  proof cases
    case 1
    with False that(1) show thesis by blast
  next
    case 2
    have ub: "used a ?bs = used a bs" by simp
    from take_block_law [OF 2(2) fit rounded(3) [OF sz(2)], unfolded pf ub] obtain n bs' where
      n: "heap_ok (take_block s' (block_addr a bs) (rounded sz)) a bs'" "rounded sz \<le> n"
      "used a bs' = insert (unat (header_to_payload (block_addr a bs)), n) (used a bs)"
      "\<forall>m. (unat (header_to_payload (block_addr a bs)), m) \<notin> used a bs"
      "8 dvd unat (header_to_payload (block_addr a bs))" "header_to_payload (block_addr a bs) \<noteq> 0" .
    have "unat sz \<le> n" using n(2) rounded(2) [OF sz(2)] by simp
    from that(2) [OF 2(1) n(1) this n(3-6)] show thesis .
  qed
qed

lemma heap_ok_mem [simp]: "heap_ok (s\<lparr>hp_mem := m\<rparr>) a bs = heap_ok s a bs"
  by (simp add: heap_ok_def)

lemma used_block:
  assumes ok: "heap_ok s a bs" and p: "(unat p, n) \<in> used a bs"
  obtains xs ys where "bs = xs @ (n, False) # ys" "p = header_to_payload (block_addr a xs)" "unat p = a + span xs + 40"
proof -
  obtain xs ys where e: "bs = xs @ (n, False) # ys" "unat p = a + span xs + 40" using used_split [OF p] .
  have "unat (header_to_payload (block_addr a xs)) = a + span xs + 40" using payload_nonzero(2) ok e(1) by blast
  then have "p = header_to_payload (block_addr a xs)" using e(2) by (simp add: word_unat_eq_iff)
  with e that show ?thesis by blast
qed

lemma span_dvd: "\<forall>b \<in> set xs. 8 dvd fst b \<Longrightarrow> 8 dvd span xs"
  by (induction xs) simp_all

lemma used_payload:
  assumes ok: "heap_ok s a bs" and p: "(unat p, n) \<in> used a bs"
  shows "p \<noteq> 0" "bh_magic (hdrs s (payload_to_header p)) = MAGIC" "bh_size (hdrs s (payload_to_header p)) = of_nat n"
    "unat p + n < 2 ^ 64" "8 dvd n" "8 dvd unat p"
proof -
  obtain xs ys where e: "bs = xs @ (n, False) # ys" "p = header_to_payload (block_addr a xs)" "unat p = a + span xs + 40"
    using used_block [OF ok p] .
  have ok': "heap_ok s a (xs @ (n, False) # ys)" using ok e by simp
  note at = heap_ok_at [OF ok']
  show "p \<noteq> 0" using payload_nonzero(1) [OF ok'] e by simp
  show "bh_magic (hdrs s (payload_to_header p)) = MAGIC" "bh_size (hdrs s (payload_to_header p)) = of_nat n" "8 dvd n"
    using at(6,7) e(2) by simp_all
  show "unat p + n < 2 ^ 64" using at(1-3) e(3) by simp
  show "8 dvd unat p" using span_dvd [of xs] ok' e(3) by (simp add: heap_ok_def)
qed

lemma free_law:
  assumes ok: "heap_ok s a bs" and p: "(unat p, n) \<in> used a bs"
  obtains s' bs' where "free s p = Ret s'" "heap_ok s' a bs'" "used a bs' = used a bs - {(unat p, n)}" "hp_mem s' = hp_mem s"
proof -
  obtain xs ys where e: "bs = xs @ (n, False) # ys" "p = header_to_payload (block_addr a xs)" "unat p = a + span xs + 40"
    using used_block [OF ok p] .
  from free_ok [of s a xs n ys] ok e(1) obtain s' where
    s': "free s p = Ret s'" "heap_ok s' a (release xs n ys)" "hp_mem s' = hp_mem s" unfolding e(2) by blast
  have "used a (release xs n ys) = used a bs - {(unat p, n)}" unfolding used_release used_remove e(3) using e(1) by simp
  with s' that show ?thesis by blast
qed

lemma shrink_law:
  assumes ok: "heap_ok s a bs" and p: "(unat p, n) \<in> used a bs" and r: "r \<le> n" "8 dvd r"
  obtains m bs' where "heap_ok (split_block s (payload_to_header p) (of_nat r)) a bs'" "r \<le> m"
    "used a bs' = insert (unat p, m) (used a bs - {(unat p, n)})"
proof -
  obtain xs ys where e: "bs = xs @ (n, False) # ys" "p = header_to_payload (block_addr a xs)" "unat p = a + span xs + 40"
    using used_block [OF ok p] .
  have "heap_ok (split_block s (payload_to_header p) (of_nat r)) a (xs @ cut n r False @ ys)"
    using split_block_ok [of s a xs n False ys r] ok e r by simp
  moreover have "used a (xs @ cut n r False @ ys) = insert (unat p, if n < r + 48 then n else r) (used a bs - {(unat p, n)})"
    unfolding e(1,3) used_remove [symmetric] by (simp add: used_cut add.assoc)
  ultimately show ?thesis using that [of "xs @ cut n r False @ ys" "if n < r + 48 then n else r"] r(1) by (simp del: used_append)
qed

lemma realloc_law:
  assumes ok: "heap_ok s a bs" and p: "(unat p, n) \<in> used a bs" and sz: "sz \<noteq> 0" "unat sz \<le> 2 ^ 62"
  obtains msg where "realloc s p sz = Some (Panic msg)" "\<not> (\<exists>b \<in> set bs. fits (rounded sz) b)"
      "msg \<in> {''KERNEL HEAP EXPANSION FAILED'', ''PAGING: Failed to allocate page table''}"
  | q s' m bs' where "realloc s p sz = Some (Ret (q, s'))" "heap_ok s' a bs'" "unat sz \<le> m"
      "used a bs' = insert (unat q, m) (used a bs - {(unat p, n)})" "\<forall>k. (unat q, k) \<notin> used a bs - {(unat p, n)}"
      "8 dvd unat q" "q \<noteq> 0"
proof -
  have sz': "unat sz < 2 ^ 63" using sz(2) by simp
  note r = rounded [OF sz'] and u = used_payload [OF ok p]
  have r2: "unat (align_up sz) = rounded sz" "rounded sz < 2 ^ 63"
    using unat_align_up [of sz] sz(2) r(5) by (simp_all add: rounded_def)
  then have r0: "align_up sz \<noteq> 0" "rounded (align_up sz) = rounded sz"
    using sz(1) r(2,3) by (auto simp: rounded_def [of "align_up sz"] unat_gt_0 [symmetric])
  have uniq: "\<forall>k. (unat p, k) \<notin> used a bs - {(unat p, n)}" using used_disjoint p by fastforce
  have c: "align_up sz \<le> bh_size (hdrs s (payload_to_header p)) \<longleftrightarrow> rounded sz \<le> n"
    using u(3,4) r2 by (simp add: word_le_nat_alt unat_of_nat)
  show thesis
  proof (cases "rounded sz \<le> n")
    case True
    obtain m bs' where m: "heap_ok (split_block s (payload_to_header p) (of_nat (rounded sz))) a bs'" "rounded sz \<le> m"
      "used a bs' = insert (unat p, m) (used a bs - {(unat p, n)})" using shrink_law [OF ok p True r(3)] .
    have "realloc s p sz = Some (Ret (p, split_block s (payload_to_header p) (of_nat (rounded sz))))"
      using u(1,2) sz(1) c True r(1) by (simp add: realloc_def Let_def)
    from that(2) [OF this m(1) _ m(3) uniq u(6,1)] m(2) r(2) show thesis by simp
  next
    case False
    have re: "realloc s p sz = Option.bind (malloc s (align_up sz)) (\<lambda>r. Some (obind r (\<lambda>(newp, s).
              if newp = 0 then Ret (0, s)
              else obind (free (s\<lparr>hp_mem := memcpy (hp_mem s) newp p (bh_size (hdrs s (payload_to_header p)))\<rparr>) p) (\<lambda>s. Ret (newp, s)))))"
      unfolding realloc_def Let_def using u(1,2) sz(1) c False by simp
    show thesis
    proof (rule malloc_law [OF ok r0(1), unfolded r2(1), OF r2(2)])
      fix msg assume "malloc s (align_up sz) = Some (Panic msg)" "\<not> (\<exists>b \<in> set bs. fits (rounded (align_up sz)) b)"
        "msg \<in> {''KERNEL HEAP EXPANSION FAILED'', ''PAGING: Failed to allocate page table''}"
      with that(1) [of msg] re r0(2) show thesis by simp
    next
      fix q s' m bs' assume q: "malloc s (align_up sz) = Some (Ret (q, s'))" "heap_ok s' a bs'" "rounded sz \<le> m"
        "used a bs' = insert (unat q, m) (used a bs)" "\<forall>m. (unat q, m) \<notin> used a bs" "8 dvd unat q" "q \<noteq> 0"
      let ?s = "s'\<lparr>hp_mem := memcpy (hp_mem s') q p (bh_size (hdrs s' (payload_to_header p)))\<rparr>"
      have "heap_ok ?s a bs'" "(unat p, n) \<in> used a bs'" using q p by simp_all
      from free_law [OF this] obtain s'' bs'' where f: "free ?s p = Ret s''" "heap_ok s'' a bs''"
        "used a bs'' = used a bs' - {(unat p, n)}" by metis
      have "realloc s p sz = Some (Ret (q, s''))" using re q f by simp
      moreover have "used a bs'' = insert (unat q, m) (used a bs - {(unat p, n)})" using f(3) q(4,5) p by auto
      ultimately show thesis using that(2) [of q s'' bs'' m] f(2) q r(2) by simp
    qed
  qed
qed

text \<open>
  A history of calls: the requests that succeeded, with the pointers that are outstanding and the sizes that were asked
  for. Callers free and resize only pointers they hold.
\<close>

inductive heap_history ::
  "('s \<Rightarrow> u64 \<Rightarrow> (ptr \<times> 's) outcome option) \<Rightarrow> ('s \<Rightarrow> ptr \<Rightarrow> 's outcome) \<Rightarrow>
   ('s \<Rightarrow> ptr \<Rightarrow> u64 \<Rightarrow> (ptr \<times> 's) outcome option) \<Rightarrow> 's \<Rightarrow> 's \<Rightarrow> (ptr \<rightharpoonup> u64) \<Rightarrow> bool"
  for alloc release resize s where
  hh_start: "heap_history alloc release resize s s Map.empty"
| hh_alloc: "\<lbrakk>heap_history alloc release resize s t H; sz \<noteq> 0; unat sz \<le> 2 ^ 62; alloc t sz = Some (Ret (p, t'))\<rbrakk> \<Longrightarrow>
    heap_history alloc release resize s t' (H(p \<mapsto> sz))"
| hh_free: "\<lbrakk>heap_history alloc release resize s t H; p \<in> dom H; release t p = Ret t'\<rbrakk> \<Longrightarrow>
    heap_history alloc release resize s t' (H(p := None))"
| hh_resize: "\<lbrakk>heap_history alloc release resize s t H; p \<in> dom H; sz \<noteq> 0; unat sz \<le> 2 ^ 62; resize t p sz = Some (Ret (q, t'))\<rbrakk> \<Longrightarrow>
    heap_history alloc release resize s t' (H(p := None, q \<mapsto> sz))"

text \<open>Every outstanding pointer is aligned and stands for a block of at least the size asked for.\<close>

definition covers :: "(nat \<times> nat) set \<Rightarrow> (ptr \<rightharpoonup> u64) \<Rightarrow> bool" where
  "covers B H \<longleftrightarrow> (\<forall>p sz. H p = Some sz \<longrightarrow> 8 dvd unat p \<and> (\<exists>n \<ge> unat sz. (unat p, n) \<in> B))"

lemma covers_insert: "covers B H \<Longrightarrow> 8 dvd unat p \<Longrightarrow> unat sz \<le> n \<Longrightarrow> covers (insert (unat p, n) B) (H(p \<mapsto> sz))"
  unfolding covers_def by (metis fun_upd_apply insertCI option.inject)

lemma covers_remove: "covers B H \<Longrightarrow> covers (B - {(unat p, n)}) (H(p := None))"
  unfolding covers_def by (metis DiffI fun_upd_apply option.distinct(1) prod.inject singletonD unsigned_word_eqI)

locale heap_allocator =
  fixes alloc :: "'s \<Rightarrow> u64 \<Rightarrow> (ptr \<times> 's) outcome option"
    and release :: "'s \<Rightarrow> ptr \<Rightarrow> 's outcome"
    and resize :: "'s \<Rightarrow> ptr \<Rightarrow> u64 \<Rightarrow> (ptr \<times> 's) outcome option"
    and blocks :: "'s \<Rightarrow> (nat \<times> nat) set"
    and good :: "'s \<Rightarrow> bool"
  assumes alloc_block: "\<lbrakk>good s; sz \<noteq> 0; unat sz \<le> 2 ^ 62; alloc s sz = Some (Ret (p, s'))\<rbrakk> \<Longrightarrow>
      good s' \<and> (\<exists>n \<ge> unat sz. blocks s' = insert (unat p, n) (blocks s)) \<and> (\<forall>n. (unat p, n) \<notin> blocks s) \<and> 8 dvd unat p"
    and free_block: "\<lbrakk>good s; (unat p, n) \<in> blocks s\<rbrakk> \<Longrightarrow>
      \<exists>s'. release s p = Ret s' \<and> good s' \<and> blocks s' = blocks s - {(unat p, n)}"
    and resize_block: "\<lbrakk>good s; (unat p, n) \<in> blocks s; sz \<noteq> 0; unat sz \<le> 2 ^ 62; resize s p sz = Some (Ret (q, s'))\<rbrakk> \<Longrightarrow>
      good s' \<and> (\<exists>m \<ge> unat sz. blocks s' = insert (unat q, m) (blocks s - {(unat p, n)})) \<and>
      (\<forall>m. (unat q, m) \<notin> blocks s - {(unat p, n)}) \<and> 8 dvd unat q"
    and blocks_disjoint: "\<lbrakk>good s; (i, n) \<in> blocks s; (j, m) \<in> blocks s\<rbrakk> \<Longrightarrow> (i, n) = (j, m) \<or> i + n < j \<or> j + m < i"
begin

lemma history_inv:
  assumes "heap_history alloc release resize s t H" "good s"
  shows "good t \<and> covers (blocks t) H"
  using assms(1)
proof induction
  case hh_start
  then show ?case using assms(2) by (simp add: covers_def)
next
  case (hh_alloc t H sz p t')
  with alloc_block [of t sz p t'] obtain n where "good t'" "unat sz \<le> n" "blocks t' = insert (unat p, n) (blocks t)" "8 dvd unat p" by blast
  with hh_alloc.IH show ?case by (metis covers_insert)
next
  case (hh_free t H p t')
  then obtain n where n: "(unat p, n) \<in> blocks t" by (auto simp: covers_def)
  with free_block [of t p n] hh_free have "good t'" "blocks t' = blocks t - {(unat p, n)}" by auto
  with hh_free.IH show ?case by (metis covers_remove)
next
  case (hh_resize t H p sz q t')
  then obtain n where n: "(unat p, n) \<in> blocks t" by (auto simp: covers_def)
  have "good t" using hh_resize.IH by simp
  from resize_block [OF this n hh_resize(3-5)] obtain m where
    "good t'" "unat sz \<le> m" "blocks t' = insert (unat q, m) (blocks t - {(unat p, n)})" "8 dvd unat q" by blast
  with hh_resize.IH show ?case by (metis covers_insert covers_remove)
qed

lemma history_disjoint:
  assumes "heap_history alloc release resize s t H" "good s" "H p = Some sz" "H q = Some sz'" "p \<noteq> q"
  shows "unat p + unat sz \<le> unat q \<or> unat q + unat sz' \<le> unat p"
proof -
  note inv = history_inv [OF assms(1,2)]
  then obtain n m where nm: "unat sz \<le> n" "(unat p, n) \<in> blocks t" "unat sz' \<le> m" "(unat q, m) \<in> blocks t"
    using assms(3,4) unfolding covers_def by blast
  moreover have "unat p \<noteq> unat q" using assms(5) by (simp add: word_unat_eq_iff)
  ultimately show ?thesis using blocks_disjoint [of t "unat p" n "unat q" m] inv by auto
qed

lemma history_free:
  assumes "heap_history alloc release resize s t H" "good s" "p \<in> dom H"
  shows "\<exists>t'. release t p = Ret t'"
proof -
  note inv = history_inv [OF assms(1,2)]
  then obtain n where "(unat p, n) \<in> blocks t" using assms(3) by (auto simp: covers_def)
  with free_block inv show ?thesis by blast
qed

end

interpretation hp: heap_allocator malloc free realloc live heap_good
proof
  fix s sz p s'
  assume g: "heap_good s" and sz: "sz \<noteq> 0" "unat sz \<le> 2 ^ 62" and m: "malloc s sz = Some (Ret (p, s'))"
  then obtain a bs where ok: "heap_ok s a bs" by (auto simp: heap_good_def)
  have sz': "unat sz < 2 ^ 63" using sz(2) by simp
  show "heap_good s' \<and> (\<exists>n \<ge> unat sz. live s' = insert (unat p, n) (live s)) \<and> (\<forall>n. (unat p, n) \<notin> live s) \<and> 8 dvd unat p"
  proof (rule malloc_law [OF ok sz(1) sz'])
    fix q t n bs'
    assume "malloc s sz = Some (Ret (q, t))" "heap_ok t a bs'" "unat sz \<le> n"
      "used a bs' = insert (unat q, n) (used a bs)" "\<forall>m. (unat q, m) \<notin> used a bs" "8 dvd unat q" "q \<noteq> 0"
    then show ?thesis using m live_eq [OF ok] live_eq [of t a bs'] by (auto simp: heap_good_def)
  qed (use m in simp)
next
  fix s n and p :: ptr
  assume g: "heap_good s" and p: "(unat p, n) \<in> live s"
  then obtain a bs where ok: "heap_ok s a bs" by (auto simp: heap_good_def)
  with p have "(unat p, n) \<in> used a bs" by (simp add: live_eq)
  from free_law [OF ok this] obtain s' bs' where "free s p = Ret s'" "heap_ok s' a bs'" "used a bs' = used a bs - {(unat p, n)}" by blast
  then show "\<exists>s'. free s p = Ret s' \<and> heap_good s' \<and> live s' = live s - {(unat p, n)}"
    using live_eq [OF ok] live_eq [of s' a bs'] by (auto simp: heap_good_def)
next
  fix s n sz q s' and p :: ptr
  assume g: "heap_good s" and p: "(unat p, n) \<in> live s" and sz: "sz \<noteq> 0" "unat sz \<le> 2 ^ 62" and m: "realloc s p sz = Some (Ret (q, s'))"
  then obtain a bs where ok: "heap_ok s a bs" by (auto simp: heap_good_def)
  with p have p': "(unat p, n) \<in> used a bs" by (simp add: live_eq)
  show "heap_good s' \<and> (\<exists>m \<ge> unat sz. live s' = insert (unat q, m) (live s - {(unat p, n)})) \<and>
      (\<forall>m. (unat q, m) \<notin> live s - {(unat p, n)}) \<and> 8 dvd unat q"
  proof (rule realloc_law [OF ok p' sz])
    fix r t k bs'
    assume "realloc s p sz = Some (Ret (r, t))" "heap_ok t a bs'" "unat sz \<le> k"
      "used a bs' = insert (unat r, k) (used a bs - {(unat p, n)})" "\<forall>m. (unat r, m) \<notin> used a bs - {(unat p, n)}"
      "8 dvd unat r" "r \<noteq> 0"
    then show ?thesis using m live_eq [OF ok] live_eq [of t a bs'] by (auto simp: heap_good_def)
  qed (use m in simp)
next
  fix s p n q m
  assume g: "heap_good s" and p: "(p, n) \<in> live s" "(q, m) \<in> live s"
  then obtain a bs where ok: "heap_ok s a bs" by (auto simp: heap_good_def)
  then show "(p, n) = (q, m) \<or> p + n < q \<or> q + m < p" using used_disjoint p by (simp add: live_eq)
qed

lemma malloc_init_ok:
  assumes "malloc_init s0 start len = (0, s)" "8 dvd unat start" "8 dvd unat len" "unat start + 2 ^ 62 < 2 ^ 64" "unat len \<le> 2 ^ 62"
  shows "heap_ok s (unat start) [(unat len - 40, True)]"
proof -
  have c: "start \<noteq> 0" "40 \<le> unat len" using assms(1) by (auto simp: malloc_init_def word_less_nat_alt split: if_splits)
  have sz: "len - HDR = of_nat (unat len - 40)" using c by (simp add: of_nat_diff)
  have e: "start + len = of_nat (unat start + unat len)" by simp
  have d: "8 dvd unat len - 40" using assms(3) by (intro dvd_diff_nat) simp_all
  have s: "s = upd_hdr start (\<lambda>b. b\<lparr>bh_magic := MAGIC, bh_size := len - HDR, bh_free := True, bh_prev := 0, bh_next := 0\<rparr>)
      (s0\<lparr>heap_start_virt := start, heap_end_virt := start + len, heap_current_size := len, heap_head := start\<rparr>)\<lparr>heap_tail := start\<rparr>"
  proof -
    have "s = snd (malloc_init s0 start len)" using assms(1) by simp
    then show ?thesis using c by (simp add: malloc_init_def Let_def upd_hdr_def word_less_nat_alt)
  qed
  have "hdrs s start = hdr (unat len - 40) True 0 0" unfolding s by (simp add: upd_hdr_def sz hdr_def del: of_nat_diff)
  moreover have "0 < unat start" using c by (simp add: unat_gt_0)
  ultimately show ?thesis
    using assms(2,4,5) c d by (simp add: heap_ok_def s upd_hdr_def)
qed

lemma coalesce_flags:
  "bh_free (hdrs (coalesce s h) x) = bh_free (hdrs s x) \<and> bh_magic (hdrs (coalesce s h) x) = bh_magic (hdrs s x)"
proof -
  have n: "bh_free (hdrs (coalesce_next s h) x) = bh_free (hdrs s x) \<and> bh_magic (hdrs (coalesce_next s h) x) = bh_magic (hdrs s x)" for s
    by (simp add: coalesce_next_def upd_hdr_def Let_def)
  have p: "bh_free (hdrs (coalesce_prev s h) x) = bh_free (hdrs s x) \<and> bh_magic (hdrs (coalesce_prev s h) x) = bh_magic (hdrs s x)" for s
    by (simp add: coalesce_prev_def upd_hdr_def Let_def)
  show ?thesis using n [of s] p [of "coalesce_next s h"] by (simp add: coalesce_def)
qed

text \<open>The statistics walk on the abstract list.\<close>

definition tally :: "block \<Rightarrow> kmalloc_stats_t \<Rightarrow> kmalloc_stats_t" where
  "tally b st = (if snd b then st\<lparr>num_blocks := num_blocks st + 1, total_managed := total_managed st + of_nat (40 + fst b),
       num_free := num_free st + 1, free_payload := free_payload st + of_nat (fst b), largest_free := max (largest_free st) (of_nat (fst b))\<rparr>
     else st\<lparr>num_blocks := num_blocks st + 1, total_managed := total_managed st + of_nat (40 + fst b),
       num_used := num_used st + 1, used_payload := used_payload st + of_nat (fst b)\<rparr>)"

lemma stats_from_seg:
  assumes "seg hs p a bs 0" "0 < a" "a + span bs < 2 ^ 64"
  shows "stats_from hs (if bs = [] then 0 else of_nat a) st = Some (fold tally bs st)"
  using assms
proof (induction bs arbitrary: p a st)
  case Nil
  then show ?case by (simp add: stats_from.simps)
next
  case (Cons b bs)
  have nz: "(of_nat a :: u64) \<noteq> 0" using Cons.prems by (intro of_nat_nonzero) simp_all
  have hs: "hs (of_nat a) = hdr (fst b) (snd b) p (if bs = [] then 0 else of_nat (a + 40 + fst b))" using Cons.prems by simp
  have "stats_from hs (of_nat a) st = stats_from hs (if bs = [] then 0 else of_nat (a + 40 + fst b)) (tally b st)"
    using nz by (subst stats_from.simps) (auto simp: hs Let_def tally_def max_def not_less)
  also have "\<dots> = Some (fold tally bs (tally b st))" using Cons.prems by (intro Cons.IH [of "of_nat a"]) simp_all
  finally show ?case by simp
qed

definition payload_sum :: "bool \<Rightarrow> block list \<Rightarrow> nat" where
  "payload_sum f bs = (\<Sum>b\<leftarrow>filter (\<lambda>b. snd b = f) bs. fst b)"

lemma fold_tally:
  "total_managed (fold tally bs st) = total_managed st + of_nat (span bs)"
  "num_blocks (fold tally bs st) = num_blocks st + of_nat (length bs)"
  "used_payload (fold tally bs st) = used_payload st + of_nat (payload_sum False bs)"
  "free_payload (fold tally bs st) = free_payload st + of_nat (payload_sum True bs)"
  by (induction bs arbitrary: st) (simp_all add: tally_def payload_sum_def)

lemma payload_sums: "payload_sum True bs + payload_sum False bs + 40 * length bs = span bs"
  by (induction bs) (auto simp: payload_sum_def)

section \<open>Properties\<close>


definition sample_heap :: heap_t where
  "sample_heap = \<lparr>heap_head = 0, heap_tail = 0, heap_start_virt = 0, heap_end_virt = 0, heap_current_size = 0,
     hdrs = (\<lambda>_. \<lparr>bh_magic = 0, bh_size = 0, bh_free = False, bh_prev = 0, bh_next = 0\<rparr>), hp_mem = (\<lambda>_. 7), hp_pg = sample_paging\<rparr>"

definition heap1 :: heap_t where "heap1 = snd (malloc_init sample_heap 0x100000 0x1000)"

lemma heap1_init: "malloc_init sample_heap 0x100000 0x1000 = (0, heap1)"
  by (simp add: heap1_def malloc_init_def Let_def)

lemma heap1_ok: "heap_ok heap1 0x100000 [(4056, True)]"
  using malloc_init_ok [OF heap1_init] by simp

lemma heap1_good: "heap_good heap1" using heap1_ok by (auto simp: heap_good_def)

definition heap2 :: heap_t where "heap2 = take_block heap1 0x100000 104"

lemma heap1_malloc: "malloc heap1 100 = Some (Ret (0x100028, heap2))" "heap_ok heap2 0x100000 [(104, False), (3912, True)]"
  using malloc_fit [OF heap1_ok, of 100]
  by (simp_all add: rounded_def fits_def prefix_of_fit_def block_addr_def header_to_payload_def heap2_def place_def cut_def)

lemma heap2_malloc: "malloc heap2 5 = Some (Ret (0x1000B8, take_block heap2 0x100090 8))"
  using malloc_fit(1) [OF heap1_malloc(2), of 5]
  by (simp add: rounded_def fits_def prefix_of_fit_def block_addr_def header_to_payload_def)






text \<open>
  C14 (error). A block that is in use can be freed, and freeing it again at once panics.
\<close>

theorem double_free_panics:
  assumes "heap_good s" "(unat p, n) \<in> live s"
  shows "\<exists>s'. free s p = Ret s' \<and> heap_good s' \<and> live s' = live s - {(unat p, n)} \<and> free s' p = Panic ''DOUBLE FREE''"
proof -
  from hp.free_block [OF assms] obtain s' where
    s': "free s p = Ret s'" "heap_good s'" "live s' = live s - {(unat p, n)}" by blast
  obtain a bs where ok: "heap_ok s a bs" using assms(1) by (auto simp: heap_good_def)
  have u: "(unat p, n) \<in> used a bs" using assms(2) ok by (simp add: live_eq)
  let ?h = "payload_to_header p"
  have "s' = coalesce (upd_hdr ?h (bh_free_update (\<lambda>_. True)) s) ?h"
    using s'(1) used_payload(1,2) [OF ok u] by (auto simp: free_def Let_def split: if_splits)
  then have "bh_free (hdrs s' ?h)" "bh_magic (hdrs s' ?h) = MAGIC"
    using used_payload(2) [OF ok u] by (simp_all add: coalesce_flags upd_hdr_def)
  then have "free s' p = Panic ''DOUBLE FREE''" using used_payload(1) [OF ok u] by (simp add: free_def Let_def)
  with s' show ?thesis by blast
qed

theorem double_free_panics_witness:
  "\<exists>s'. free heap2 0x100028 = Ret s' \<and> live s' = {} \<and> free s' 0x100028 = Panic ''DOUBLE FREE''"
proof -
  have l: "live heap2 = {(0x100028, 104)}" using live_eq [OF heap1_malloc(2)] by simp
  have "heap_good heap2" using heap1_malloc(2) by (auto simp: heap_good_def)
  from double_free_panics [OF this, of "0x100028" 104] l show ?thesis by auto
qed

lemma malloc_fit_law:
  assumes ok: "heap_ok s a bs" and sz: "sz \<noteq> 0" "unat sz < 2 ^ 63" and fit: "\<exists>b \<in> set bs. fits (rounded sz) b"
  obtains p s' n bs' where "malloc s sz = Some (Ret (p, s'))" "heap_ok s' a bs'" "unat sz \<le> n"
      "used a bs' = insert (unat p, n) (used a bs)" "\<forall>m. (unat p, m) \<notin> used a bs" "p \<noteq> 0" "hp_mem s' = hp_mem s"
proof (rule malloc_law [OF ok sz])
  fix p s' n bs'
  assume "malloc s sz = Some (Ret (p, s'))" "heap_ok s' a bs'" "unat sz \<le> n"
      "used a bs' = insert (unat p, n) (used a bs)" "\<forall>m. (unat p, m) \<notin> used a bs" "p \<noteq> 0"
  with that malloc_fit(1) [OF ok sz fit] show thesis by simp
qed (use fit in simp)

lemma memcpy_disjoint:
  assumes "unat p + n < unat q \<or> unat q + n \<le> unat p" "unat q + n < 2 ^ 64" "unat p + n < 2 ^ 64" "i < n"
  shows "memcpy mem q p (of_nat n) (q + of_nat i) = mem (p + of_nat i)"
proof -
  have n: "unat (of_nat n :: u64) = n" "unat (of_nat i :: u64) = i" using assms(2,4) by (simp_all add: unat_of_nat)
  have "n \<le> unat (q - p)" using assms(1-3) by (auto simp: unat_sub_if')
  then have "memcpy mem q p (of_nat n) = copied mem q p n"
    using movsb_copied [of n q p mem] n assms(4) by (auto simp: memcpy_def copied_same)
  then show ?thesis using n assms(4) by (simp add: copied_def)
qed

lemma align_up_rounded:
  assumes "sz \<noteq> 0" "unat sz \<le> 2 ^ 62"
  shows "align_up sz \<noteq> 0" "unat (align_up sz) < 2 ^ 63" "unat (align_up sz) = rounded sz" "rounded (align_up sz) = rounded sz"
proof -
  have sz': "unat sz < 2 ^ 63" using assms(2) by simp
  note r = rounded [OF sz']
  show r2: "unat (align_up sz) = rounded sz" "unat (align_up sz) < 2 ^ 63"
    using unat_align_up [of sz] assms(2) r(5) by (simp_all add: rounded_def)
  then show "align_up sz \<noteq> 0" "rounded (align_up sz) = rounded sz"
    using assms(1) r(2,3) by (auto simp: rounded_def [of "align_up sz"] unat_gt_0 [symmetric])
qed

text \<open>
  C10 (functional). Where a free block is large enough, \<^verbatim>\<open>realloc\<close> of a block in use returns, the new block has the new size and
  its bytes are those of the old one.
\<close>

theorem realloc_keeps_contents:
  assumes "heap_ok s a bs" "(unat p, n) \<in> live s" "sz \<noteq> 0" "unat sz \<le> 2 ^ 62" "\<exists>b \<in> set bs. fits (rounded sz) b"
  shows "\<exists>q s' m. realloc s p sz = Some (Ret (q, s')) \<and> heap_good s' \<and> (unat q, m) \<in> live s' \<and> unat sz \<le> m \<and>
    (\<forall>i < min n (unat sz). hp_mem s' (q + of_nat i) = hp_mem s (p + of_nat i))"
proof -
  have p: "(unat p, n) \<in> used a bs" using assms(1,2) by (simp add: live_eq)
  note u = used_payload [OF assms(1) p] and al = align_up_rounded [OF assms(3,4)]
  have r: "align_up sz = of_nat (rounded sz)" "unat sz \<le> rounded sz" "8 dvd rounded sz"
    using rounded [of sz] assms(4) by simp_all
  have c: "align_up sz \<le> bh_size (hdrs s (payload_to_header p)) \<longleftrightarrow> rounded sz \<le> n"
    using u(3,4) al(3) by (simp add: word_le_nat_alt unat_of_nat)
  show ?thesis
  proof (cases "rounded sz \<le> n")
    case True
    obtain m bs' where m: "heap_ok (split_block s (payload_to_header p) (of_nat (rounded sz))) a bs'" "rounded sz \<le> m"
      "used a bs' = insert (unat p, m) (used a bs - {(unat p, n)})" using shrink_law [OF assms(1) p True r(3)] .
    have "realloc s p sz = Some (Ret (p, split_block s (payload_to_header p) (of_nat (rounded sz))))"
      using u(1,2) assms(3) c True r(1) by (simp add: realloc_def Let_def)
    moreover have "(unat p, m) \<in> live (split_block s (payload_to_header p) (of_nat (rounded sz)))"
      using live_eq [OF m(1)] m(3) by simp
    ultimately show ?thesis using m(1,2) r(2) by (fastforce simp: heap_good_def)
  next
    case False
    obtain q s' m bs' where q: "malloc s (align_up sz) = Some (Ret (q, s'))" "heap_ok s' a bs'" "unat (align_up sz) \<le> m"
      "used a bs' = insert (unat q, m) (used a bs)" "\<forall>m. (unat q, m) \<notin> used a bs" "q \<noteq> 0" "hp_mem s' = hp_mem s"
      using malloc_fit_law [OF assms(1) al(1,2)] assms(5) al(4) by metis
    have p': "(unat p, n) \<in> used a bs'" and q': "(unat q, m) \<in> used a bs'" using q(4) p by simp_all
    let ?s = "s'\<lparr>hp_mem := memcpy (hp_mem s) q p (of_nat n)\<rparr>"
    have "heap_ok ?s a bs'" using q(2) by simp
    from free_law [OF this p'] obtain s'' bs'' where
      f: "free ?s p = Ret s''" "heap_ok s'' a bs''" "used a bs'' = used a bs' - {(unat p, n)}" "hp_mem s'' = hp_mem ?s" .
    have "bh_size (hdrs s' (payload_to_header p)) = of_nat n" by (rule used_payload(3) [OF q(2) p'])
    then have "realloc s p sz = Some (Ret (q, s''))"
      using u(1,2) assms(3) c False q(1,6,7) f(1) by (simp add: realloc_def Let_def)
    moreover have "(unat q, m) \<in> live s''" using live_eq [OF f(2)] f(3) q' q(5) p by auto
    moreover have "hp_mem s'' (q + of_nat i) = hp_mem s (p + of_nat i)" if "i < n" for i
    proof -
      have "unat p + n < unat q \<or> unat q + m < unat p" using used_disjoint [OF p' q'] q(5) p by auto
      moreover have "n \<le> m" using False q(3) al(3) by simp
      ultimately show ?thesis using memcpy_disjoint [of p n q i "hp_mem s"] that u(4) used_payload(4) [OF q(2) q'] f(4) by auto
    qed
    ultimately show ?thesis using f(2) q(3) al(3) r(2) by (fastforce simp: heap_good_def)
  qed
qed

theorem realloc_keeps_contents_witness:
  "\<exists>q s' m. realloc heap2 0x100028 200 = Some (Ret (q, s')) \<and> (unat q, m) \<in> live s' \<and> 200 \<le> m \<and> hp_mem s' (q + of_nat 99) = 7"
proof -
  have l: "live heap2 = {(0x100028, 104)}" using live_eq [OF heap1_malloc(2)] by simp
  have h: "hp_mem heap2 a = 7" for a by (simp add: heap2_def heap1_def malloc_init_def Let_def upd_hdr_def sample_heap_def)
  from realloc_keeps_contents [OF heap1_malloc(2), of "0x100028" 104 200] l obtain q s' m where
    r: "realloc heap2 0x100028 200 = Some (Ret (q, s'))" "(unat q, m) \<in> live s'" "200 \<le> m"
    "\<forall>i < 104. hp_mem s' (q + of_nat i) = hp_mem heap2 (0x100028 + of_nat i)" by (auto simp: rounded_def fits_def)
  have "hp_mem s' (q + of_nat 99) = 7" using r(4) [rule_format, of 99] h by simp
  with r(1-3) show ?thesis by blast
qed



text \<open>
  C35 (invariant). The statistics walk ends; the bytes it reports as managed are the size of the heap, and they are exactly the
  used and the free payload and one header for each block.
\<close>

theorem stats_account_for_heap:
  assumes "heap_ok s a bs"
  shows "\<exists>st. get_kmalloc_stats s = Some st \<and> total_managed st = heap_current_size s \<and> num_blocks st = of_nat (length bs) \<and>
    used_payload st = of_nat (payload_sum False bs) \<and> total_managed st = used_payload st + free_payload st + 40 * num_blocks st"
proof -
  have s: "seg (hdrs s) 0 a bs 0" "0 < a" "a + span bs < 2 ^ 64" "heap_head s = (if bs = [] then 0 else of_nat a)"
    "heap_current_size s = of_nat (span bs)" using assms by (auto simp: heap_ok_def)
  have "(of_nat (span bs) :: u64) = of_nat (payload_sum False bs) + of_nat (payload_sum True bs) + 40 * of_nat (length bs)"
    unfolding payload_sums [of bs, symmetric] by (simp add: add.commute)
  then show ?thesis
    unfolding get_kmalloc_stats_def s(4) stats_from_seg [OF s(1-3)] using s(5) by (simp add: fold_tally)
qed

theorem stats_account_for_heap_witness:
  "\<exists>st. get_kmalloc_stats heap2 = Some st \<and> total_managed st = 0x1000 \<and> used_payload st = 104 \<and> free_payload st = 3912"
proof -
  have "heap_current_size heap2 = 0x1000" using heap1_malloc(2) by (simp add: heap_ok_def)
  with stats_account_for_heap [OF heap1_malloc(2)] show ?thesis by (auto simp: payload_sum_def)
qed

text \<open>\<^verbatim>\<open>malloc\<close> rounds a request close to the largest size up to zero and hands out a block of a few bytes.\<close>

lemma malloc_size_wraps:
  assumes "heap_ok s a ((n, True) # bs)"
  shows "\<exists>p s' m bs'. malloc s 0xFFFFFFFFFFFFFFFF = Some (Ret (p, s')) \<and> heap_ok s' a ((m, False) # bs') \<and> m < 48 \<and> p = of_nat (a + 40)"
proof -
  have z: "align_up 0xFFFFFFFFFFFFFFFF = of_nat 0" by (simp add: align_up_def)
  have fit: "\<exists>b \<in> set ((n, True) # bs). fits 0 b" by (simp add: fits_def)
  have pf: "prefix_of_fit 0 ((n, True) # bs) = []" by (simp add: prefix_of_fit_def fits_def)
  have nz: "block_addr a [] \<noteq> 0" using fit_addr_nonzero [OF assms fit] pf by simp
  have "find_fit s (of_nat 0) = Some (block_addr a [])" using find_fit_ok [OF assms, of 0] fit by (simp add: fits_def)
  moreover have "grow_until_fit k s z (block_addr a []) = Some (Ret (block_addr a [], s))" for k z using nz by (cases k) simp_all
  ultimately have "malloc s 0xFFFFFFFFFFFFFFFF = Some (Ret (header_to_payload (block_addr a []), take_block s (block_addr a []) 0))"
    unfolding malloc_def z Let_def take_block_def by simp
  moreover have "heap_ok (take_block s (block_addr a []) 0) a (place 0 ((n, True) # bs))"
    using take_block_ok [OF assms fit] pf by simp
  moreover obtain m ys where "place 0 ((n, True) # bs) = (m, False) # ys" "m < 48"
    by (cases "n < 48") (auto simp: place_def prefix_of_fit_def fits_def cut_def)
  ultimately show ?thesis by (auto simp: header_to_payload_def block_addr_def)
qed

lemma load_store: "load_u64 (store_u64 mem a v) a = v"
proof (rule bit_word_eqI)
  fix n assume n: "n < LENGTH(64)"
  then have d: "n div 8 < 8" by simp
  then have u: "unat (of_nat (n div 8) :: u64) = n div 8" by (simp add: unat_of_nat)
  then have "(of_nat (n div 8) :: u64) < 8" using d by (simp add: word_less_nat_alt)
  then show "bit (load_u64 (store_u64 mem a v) a) n = bit v n"
    using n u by (simp add: bit_load_u64 store_u64_def bit_ucast_iff bit_drop_bit_eq)
qed

lemma power_two_word:
  assumes "k < 64"
  shows "unat (2 ^ k :: u64) = 2 ^ k" "(2 ^ k :: u64) - 1 = mask k" "(2 ^ k :: u64) AND (2 ^ k - 1) = 0"
proof -
  have "unat (of_nat (2 ^ k) :: u64) = 2 ^ k" 
  proof -
    have "(2 :: nat) ^ k < 2 ^ 64" using assms by (rule power_strict_increasing) simp
    then show ?thesis by (simp add: unat_of_nat del: of_nat_power of_nat_numeral)
  qed
  then show "unat (2 ^ k :: u64) = 2 ^ k" by simp
  show m: "(2 ^ k :: u64) - 1 = mask k" by (simp add: mask_eq_exp_minus_1)
  show "(2 ^ k :: u64) AND (2 ^ k - 1) = 0" unfolding m by (rule bit_word_eqI) (simp add: bit_simps)
qed

text \<open>
  C24 (roundtrip). \<^verbatim>\<open>malloc_aligned\<close> with a power of two returns an address of that alignment inside a block of the heap, with
  room for the size asked for, and \<^verbatim>\<open>free_aligned\<close> on that address frees exactly the block.
\<close>

theorem malloc_aligned_roundtrip:
  assumes "heap_ok s a bs" "unat sz \<le> 2 ^ 61" "3 \<le> k" "k \<le> 61"
    and "\<exists>b \<in> set bs. fits (rounded (sz + 2 ^ k + 7)) b"
  shows "\<exists>q s' s'' b n. malloc_aligned s sz (2 ^ k) = Some (Ret (q, s')) \<and> 2 ^ k dvd unat q \<and>
    live s' = insert (b, n) (live s) \<and> b + 8 \<le> unat q \<and> unat q + unat sz \<le> b + n \<and>
    free_aligned s' q = Ret s'' \<and> live s'' = live s"
proof -
  have k64: "k < 64" using assms(4) by simp
  note A = power_two_word [OF k64]
  have k: "(2 :: nat) ^ k \<le> 2 ^ 61" "(2 :: nat) ^ 3 \<le> 2 ^ k"
    using power_increasing [OF assms(4), of "2 :: nat"] power_increasing [OF assms(3), of "2 :: nat"] by linarith+
  let ?t = "sz + 2 ^ k + 7"
  have tot: "unat ?t = unat sz + 2 ^ k + 7"
    using assms(2) k A(1) by (simp add: unat_word_ariths)
  have t: "?t \<noteq> 0" "unat ?t < 2 ^ 63" using tot k assms(2) by auto
  obtain p s1 n bs' where p: "malloc s ?t = Some (Ret (p, s1))" "heap_ok s1 a bs'" "unat ?t \<le> n"
      "used a bs' = insert (unat p, n) (used a bs)" "\<forall>m. (unat p, m) \<notin> used a bs" "p \<noteq> 0" "hp_mem s1 = hp_mem s"
    using malloc_fit_law [OF assms(1) t assms(5)] .
  have pn: "(unat p, n) \<in> used a bs'" using p(4) by simp
  define q where "q = (p + 8 + 2 ^ k - 1) AND NOT (mask k)"
  let ?u = "unat p + 7 + 2 ^ k"
  have "p + 8 + 2 ^ k - 1 = of_nat ?u" by simp
  moreover have "?u < 2 ^ 64" using used_payload(4) [OF p(2) pn] p(3) tot by linarith
  ultimately have "unat (p + 8 + 2 ^ k - 1) = ?u" by (simp only: unat_of_nat) simp
  then have q: "unat q = ?u - ?u mod 2 ^ k" unfolding q_def unat_and_not_mask by (simp only:)
  have mod: "?u mod 2 ^ k < 2 ^ k" by simp
  have dv: "2 ^ k dvd unat q" unfolding q by (rule dvd_minus_mod)
  have qb: "unat p + 8 \<le> unat q" "unat q + unat sz \<le> unat p + n"
    using q mod p(3) tot by linarith+
  let ?s = "s1\<lparr>hp_mem := store_u64 (hp_mem s1) (q - 8) p\<rparr>"
  have e: "sz + 2 ^ k - 1 + 8 = ?t" by simp
  have "malloc_aligned s sz (2 ^ k) = Some (Ret (q, ?s))"
  proof -
    have lt: "\<not> (2 ^ k :: u64) < 8" using A(1) k by (simp add: word_less_nat_alt)
    show ?thesis unfolding malloc_aligned_def Let_def if_not_P [OF lt] e p(1) q_def A(2) [symmetric]
      using A(3) p(6) by simp
  qed
  moreover have ok': "heap_ok ?s a bs'" using p(2) by simp
  moreover obtain s'' bs'' where f: "free ?s p = Ret s''" "heap_ok s'' a bs''" "used a bs'' = used a bs' - {(unat p, n)}"
      "hp_mem s'' = hp_mem ?s" using free_law [OF ok' pn] .
  moreover have "q \<noteq> 0" using qb(1) by auto
  then have "free_aligned ?s q = Ret s''" using f(1) by (simp add: free_aligned_def load_store)
  moreover have "live ?s = insert (unat p, n) (live s)" "live s'' = live s"
    using live_eq [OF ok'] live_eq [OF f(2)] live_eq [OF assms(1)] p(4,5) f(3) by auto
  ultimately show ?thesis using qb dv by blast
qed

theorem malloc_aligned_roundtrip_witness:
  "\<exists>q s' s''. malloc_aligned heap1 100 256 = Some (Ret (q, s')) \<and> 256 dvd unat q \<and> free_aligned s' q = Ret s'' \<and> live s'' = {}"
proof -
  have "live heap1 = {}" using live_eq [OF heap1_ok] by simp
  moreover have "(2 :: u64) ^ 8 = 256" "(2 :: nat) ^ 8 = 256" by simp_all
  ultimately show ?thesis using malloc_aligned_roundtrip [OF heap1_ok, of 100 8] by (simp add: rounded_def fits_def) blast
qed

end
