(* ===== verification/KTss.thy ===== *)
theory KTss
  imports KPrelude
begin

text \<open>
  The task state segment, \<^verbatim>\<open>src/kernel/tss.c\<close> and \<^verbatim>\<open>src/include/kernel/tss.h\<close>: the structure the processor takes the
  kernel stack pointer from, its initialisation, and the descriptor written to entries 5 and 6 of the global
  descriptor table. The address of the segment and the end of the boot stack are link-time symbols and parameters of
  the model. Loading the task register is not modelled.

  \<open>desc_base\<close>, \<open>desc_limit\<close> and \<open>desc_access\<close> read a descriptor the way the processor does. The descriptor is right
  for a segment in the low 16 MiB, where the kernel is linked, and for no other address.
\<close>

section \<open>Definitions\<close>

record tss_t =
  rsp0 :: u64
  rsp1 :: u64
  rsp2 :: u64
  ist :: "u64 list"
  iopb_offset :: u16

record tss_state =
  tss_ptr :: ptr
  tss :: tss_t
  gdt5 :: u64
  gdt6 :: u64

abbreviation (input) sizeof_tss :: "'a::len word" where "sizeof_tss \<equiv> 104"

definition tss_lower :: "u64 \<Rightarrow> u64" where
  "tss_lower tss_addr =
     (let tss_limit = sizeof_tss - 1 :: u16;
          lower = 0;
          lower = lower OR (ucast tss_limit AND 0xFFFF);
          lower = lower OR push_bit 16 (tss_addr AND 0xFFFFFF);
          lower = lower OR push_bit 40 0x89;
          lower = lower OR push_bit 48 (drop_bit 24 tss_addr AND 0xFFFF)
      in lower)"

definition tss_upper :: "u64 \<Rightarrow> u64" where
  "tss_upper tss_addr = drop_bit 40 tss_addr AND 0xFFFFFFFF"

definition tss_init :: "ptr \<Rightarrow> tss_state \<Rightarrow> tss_state outcome" where
  "tss_init stack_end s =
     (if tss_ptr s = 0 then Panic ''TSS_ALLOCATION_FAILED''
      else let t = \<lparr>rsp0 = 0, rsp1 = 0, rsp2 = 0, ist = replicate 7 0, iopb_offset = 0\<rparr>;
               t = t\<lparr>rsp0 := stack_end\<rparr>
      in if rsp0 t = 0 then Panic ''TSS_INVALID_RSP0''
         else let t = t\<lparr>iopb_offset := sizeof_tss\<rparr>
         in Ret (s\<lparr>tss := t, gdt5 := tss_lower (tss_ptr s), gdt6 := tss_upper (tss_ptr s)\<rparr>))"

definition tss_update_rsp0 :: "u64 \<Rightarrow> tss_state \<Rightarrow> tss_state" where
  "tss_update_rsp0 v s = (if tss_ptr s \<noteq> 0 then s\<lparr>tss := (tss s)\<lparr>rsp0 := v\<rparr>\<rparr> else s)"

section \<open>The descriptor as the processor reads it\<close>

definition desc_limit :: "u64 \<Rightarrow> u64" where
  "desc_limit lo = (lo AND 0xFFFF) OR push_bit 16 (drop_bit 48 lo AND 0xF)"

definition desc_base :: "u64 \<Rightarrow> u64 \<Rightarrow> u64" where
  "desc_base lo hi = (drop_bit 16 lo AND 0xFFFFFF) OR push_bit 24 (drop_bit 56 lo AND 0xFF) OR push_bit 32 (hi AND 0xFFFFFFFF)"

definition desc_access :: "u64 \<Rightarrow> u64" where "desc_access lo = drop_bit 40 lo AND 0xFF"

lemma mask_words: "(0xFFFFFF :: u64) = mask 24" "(0xFFFF :: u64) = mask 16" "(0xFFFFFFFF :: u64) = mask 32"
  "(0xFF :: u64) = mask 8" "(0xF :: u64) = mask 4"
  by (simp_all add: mask_eq_exp_minus_1)

lemma high_bits_zero:
  fixes a :: u64
  assumes "unat a < 2 ^ k" "bit a n"
  shows "n < k"
proof -
  have "take_bit k a = a" using assms(1) by (simp add: word_unat_eq_iff unsigned_take_bit_eq take_bit_nat_eq_self)
  then show ?thesis using assms(2) by (metis bit_take_bit_iff)
qed

lemma const_bits: "bit (0x67 :: u64) n \<Longrightarrow> n < 7" "bit (0x89 :: u64) n \<Longrightarrow> n < 8"
  using high_bits_zero [of "0x67" 7 n] high_bits_zero [of "0x89" 8 n] by simp_all

lemma tss_lower_low:
  assumes "a < 2 ^ 24"
  shows "tss_lower a = 0x67 OR push_bit 16 a OR push_bit 40 0x89"
proof -
  have hz: "bit a n \<Longrightarrow> n < 24" for n using assms high_bits_zero [of a 24 n] by (simp add: word_less_nat_alt)
  have "a AND 0xFFFFFF = a" unfolding mask_words using hz by (intro bit_word_eqI) (auto simp: bit_simps)
  moreover have "drop_bit 24 a = 0" using hz by (intro bit_word_eqI) (fastforce simp: bit_simps)
  ultimately show ?thesis by (simp add: tss_lower_def Let_def or.assoc)
qed

section \<open>Properties\<close>


text \<open>Above 4 GiB the base the processor reads is another address.\<close>

lemma tss_base_wrong: "desc_base (tss_lower 0x123456789000) (tss_upper 0x123456789000) = 0x1234789000"
  by (simp add: desc_base_def tss_lower_def tss_upper_def)

definition sample_tss :: tss_state where
  "sample_tss = \<lparr>tss_ptr = 0x109000, tss = \<lparr>rsp0 = 0, rsp1 = 0, rsp2 = 0, ist = [], iopb_offset = 0\<rparr>, gdt5 = 0, gdt6 = 0\<rparr>"


end
