(* ===== verification/KSched.thy ===== *)
theory KSched
  imports KHeap KTss
begin

text \<open>
  The scheduler, \<^verbatim>\<open>src/kernel/sched.c\<close> and \<^verbatim>\<open>src/include/kernel/sched.h\<close>: kernel threads and user tasks on a circular
  list, round-robin selection from the timer interrupt, exit, stop and deferred release of what a task owns.

  The file-scope variables are the record \<open>sched_t\<close>; \<open>tasks\<close> is the typed store of the task structures. \<open>kheap\<close> is the
  state of the kernel heap the tasks and their stacks come from, and through it of paging and of the page allocator. The
  addresses of \<^verbatim>\<open>init_task\<close>, of its stack and of its name are fixed by the linker; they are fields of the state that no
  operation changes. \<open>int_enabled\<close> is the interrupt flag that \<^verbatim>\<open>cli\<close> and \<^verbatim>\<open>sti\<close> set.

  A spin lock that is taken is never released by another processor in this model, so waiting for it has no result.
  Walks of the ring are partial functions. A task that ends waits in a loop for the interrupt that replaces it; the value
  \<open>Halted\<close> is the state in which it waits.

  The abstract scheduler is the list of tasks in the order in which they run. The lemmas show that creation appends to it,
  that unlinking removes from it, that selection is the first runnable task after the current one, and that every
  operation keeps the memory of the tasks apart and live.
\<close>

section \<open>State\<close>

datatype task_state_t = TASK_RUNNING | TASK_READY | TASK_BLOCKED | TASK_ZOMBIE

record task_t =
  pid :: u32
  state :: task_state_t
  regs :: ptr
  kstack :: ptr
  kstack_size :: u64
  exit_code :: u32
  next_task :: ptr
  znext :: ptr
  user_mem :: ptr
  user_mem_size :: u64
  task_name :: ptr
  page_table :: ptr
  program_break :: ptr
  heap_begin :: ptr
  heap_limit :: ptr

abbreviation (input) sizeof_task :: u64 where "sizeof_task \<equiv> 376"
abbreviation (input) KSTACK_SIZE :: u64 where "KSTACK_SIZE \<equiv> 8192"
abbreviation (input) INIT_STACK_SIZE :: u64 where "INIT_STACK_SIZE \<equiv> 16384"
abbreviation (input) USER_CS :: u64 where "USER_CS \<equiv> 0x1B"
abbreviation (input) USER_SS :: u64 where "USER_SS \<equiv> 0x23"

text \<open>\<^verbatim>\<open>memset(t, 0, sizeof(*t))\<close>.\<close>

definition zero_task :: task_t where
  "zero_task = \<lparr>pid = 0, state = TASK_RUNNING, regs = 0, kstack = 0, kstack_size = 0, exit_code = 0, next_task = 0, znext = 0,
     user_mem = 0, user_mem_size = 0, task_name = 0, page_table = 0, program_break = 0, heap_begin = 0, heap_limit = 0\<rparr>"

record sched_t =
  tasks :: "ptr \<Rightarrow> task_t"
  task_ring :: ptr
  current :: ptr
  next_pid :: u32
  zombie_list :: ptr
  need_reschedule :: bool
  g_syscall_kstack_top :: u64
  create_lock :: bool
  ucreate_lock :: bool
  int_enabled :: bool
  tss_st :: tss_state
  kheap :: heap_t
  init_task :: ptr
  init_task_stack :: ptr
  init_name :: ptr

definition upd_task :: "ptr \<Rightarrow> (task_t \<Rightarrow> task_t) \<Rightarrow> sched_t \<Rightarrow> sched_t" where
  "upd_task t f s = s\<lparr>tasks := (tasks s)(t := f (tasks s t))\<rparr>"

definition cli :: "sched_t \<Rightarrow> sched_t" where "cli s = s\<lparr>int_enabled := False\<rparr>"
definition sti :: "sched_t \<Rightarrow> sched_t" where "sti s = s\<lparr>int_enabled := True\<rparr>"

definition spinlock_lock :: "bool \<Rightarrow> bool option" where
  "spinlock_lock lock = (if lock then None else Some True)"

definition spinlock_unlock :: "bool \<Rightarrow> bool" where "spinlock_unlock lock = False"

section \<open>Creation\<close>

definition prepare_initial_stack :: "mem \<Rightarrow> ptr \<Rightarrow> ptr \<Rightarrow> ptr \<Rightarrow> u32 \<Rightarrow> u64 \<Rightarrow> bool \<Rightarrow> ptr \<times> mem" where
  "prepare_initial_stack mem entry kstack_top user_stack_top argc argv_ptr user_mode =
     (let sp = (kstack_top AND NOT 0xF) - 8 * 22;
          frame = [(0, 32), (1, 0), (2, 0), (3, 0), (4, 0), (5, 0), (6, 0), (7, 0), (8, 0), (9, 0),
            (10, scast argc), (11, argv_ptr), (12, 0), (13, 0), (14, 0), (15, 0), (16, 0), (17, entry), (19, 0x202)] @
            (if user_mode then [(18, USER_CS), (20, user_stack_top), (21, USER_SS)]
             else [(18, 0x08), (20, kstack_top), (21, 0x10)])
      in (sp, fold (\<lambda>(i, v) mem. store_u64 mem (sp + 8 * i) v) frame mem))"

definition scheduler_init :: "ptr \<Rightarrow> sched_t \<Rightarrow> sched_t outcome" where
  "scheduler_init stack_end s =
     (let i = init_task s;
          s = upd_task i (\<lambda>_. zero_task\<lparr>pid := 0, state := TASK_RUNNING, task_name := init_name s, regs := 0, kstack := 0,
                kstack_size := 0, next_task := i\<rparr>) s;
          s = s\<lparr>task_ring := i, current := 0, next_pid := 1\<rparr>
      in obind (tss_init stack_end (tss_st s)) (\<lambda>t. Ret (s\<lparr>tss_st := t\<rparr>)))"

definition ring_insert :: "sched_t \<Rightarrow> ptr \<Rightarrow> sched_t" where
  "ring_insert s t =
     (if task_ring s = 0 then upd_task t (next_task_update (\<lambda>_. t)) (s\<lparr>task_ring := t\<rparr>)
      else let s = upd_task t (next_task_update (\<lambda>_. next_task (tasks s (task_ring s)))) s;
               s = upd_task (task_ring s) (next_task_update (\<lambda>_. t)) s
      in s\<lparr>task_ring := t\<rparr>)"

text \<open>A call of the heap on behalf of the scheduler.\<close>

definition heap_call :: "(heap_t \<Rightarrow> ('a \<times> heap_t) outcome option) \<Rightarrow> sched_t \<Rightarrow> ('a \<times> sched_t) outcome option" where
  "heap_call f s = rbind (f (kheap s)) (\<lambda>(x, h). Some (Ret (x, s\<lparr>kheap := h\<rparr>)))"

definition heap_free :: "ptr \<Rightarrow> sched_t \<Rightarrow> sched_t outcome" where
  "heap_free p s = obind (free (kheap s) p) (\<lambda>h. Ret (s\<lparr>kheap := h\<rparr>))"

definition task_create :: "sched_t \<Rightarrow> ptr \<Rightarrow> u64 \<Rightarrow> ptr \<Rightarrow> sched_t outcome option" where
  "task_create s entry stack_size name =
     (if entry = 0 then Some (Panic ''TASK_CREATE_NULL_ENTRY'')
      else case spinlock_lock (create_lock s) of None \<Rightarrow> None | Some l \<Rightarrow>
        let s = s\<lparr>create_lock := l\<rparr>;
            stack_size = (if stack_size = 0 then KSTACK_SIZE else stack_size) in
        rbind (heap_call (\<lambda>h. malloc h sizeof_task) s) (\<lambda>(t, s).
        if t = 0 then Some (Panic ''TASK_ALLOCATION_FAILED'') else
        rbind (heap_call (\<lambda>h. malloc h stack_size) s) (\<lambda>(ks, s).
        if ks = 0 then Some (obind (heap_free t s) (\<lambda>s. Panic ''TASK_STACK_ALLOCATION_FAILED'')) else
        let p = next_pid s; s = s\<lparr>next_pid := p + 1\<rparr> in
        rbind (heap_call (\<lambda>h. strdup h name) s) (\<lambda>(nm, s).
        let kstack_top = ks + stack_size;
            (sp, mem) = prepare_initial_stack (hp_mem (kheap s)) entry kstack_top kstack_top 0 0 False;
            s = s\<lparr>kheap := (kheap s)\<lparr>hp_mem := mem\<rparr>\<rparr>;
            s = upd_task t (\<lambda>_. zero_task\<lparr>pid := p, state := TASK_READY, kstack := ks, kstack_size := stack_size,
                  exit_code := 0, next_task := 0, task_name := nm, page_table := 0, regs := sp\<rparr>) s;
            s = sti (ring_insert (cli s) t)
        in Some (Ret (s\<lparr>create_lock := spinlock_unlock (create_lock s)\<rparr>))))))"

text \<open>The address of a task that could not be created is 0; the lock is left as it is on every path.\<close>

definition utask_create :: "sched_t \<Rightarrow> ptr \<Rightarrow> u64 \<Rightarrow> ptr \<Rightarrow> u64 \<Rightarrow> u32 \<Rightarrow> u64 \<Rightarrow> ptr \<Rightarrow> (u64 \<times> sched_t) outcome option" where
  "utask_create s entry stack_size umem umem_size argc argv_ptr name =
     (case spinlock_lock (ucreate_lock s) of None \<Rightarrow> None | Some l \<Rightarrow>
        let s = s\<lparr>ucreate_lock := l\<rparr> in
        if entry = 0 then Some (Panic ''UTASK_CREATE_NULL_ENTRY'')
        else if umem = 0 \<or> umem_size = 0 then Some (Panic ''UTASK_CREATE_INVALID_MEMORY'')
        else let stack_size = (if stack_size = 0 then KSTACK_SIZE else stack_size) in
        rbind (heap_call (\<lambda>h. malloc h sizeof_task) s) (\<lambda>(t, s).
        if t = 0 then Some (Ret (0, s)) else
        rbind (heap_call (\<lambda>h. malloc h stack_size) s) (\<lambda>(ks, s).
        if ks = 0 then Some (obind (heap_free t s) (\<lambda>s. Ret (0, s))) else
        let p = next_pid s; s = s\<lparr>next_pid := p + 1\<rparr> in
        rbind (heap_call (\<lambda>h. strdup h name) s) (\<lambda>(nm, s).
        rbind (paging_create_user_task (hp_pg (kheap s)) umem umem_size) (\<lambda>(pt, pg).
        let s = s\<lparr>kheap := (kheap s)\<lparr>hp_pg := pg\<rparr>\<rparr> in
        if pt = 0 then Some (obind (heap_free ks s) (\<lambda>s. obind (heap_free t s) (\<lambda>s. Ret (0, s))))
        else let user_stack_top = umem + umem_size;
                 kstack_top = ks + stack_size;
                 (sp, mem) = prepare_initial_stack (hp_mem (kheap s)) entry kstack_top user_stack_top argc argv_ptr True;
                 s = s\<lparr>kheap := (kheap s)\<lparr>hp_mem := mem\<rparr>\<rparr>;
                 s = upd_task t (\<lambda>_. zero_task\<lparr>pid := p, state := TASK_READY, kstack := ks, kstack_size := stack_size,
                       user_mem := umem, heap_begin := umem, program_break := umem, heap_limit := umem + umem_size,
                       user_mem_size := umem_size, task_name := nm, page_table := pt, regs := sp, exit_code := 0\<rparr>) s;
                 s = sti (ring_insert (cli s) t)
        in Some (Ret (scast p, s)))))))"

section \<open>Selection\<close>

definition runnable :: "task_state_t \<Rightarrow> bool" where
  "runnable st \<longleftrightarrow> st = TASK_READY \<or> st = TASK_RUNNING"

partial_function (option) pick_from :: "(ptr \<Rightarrow> task_t) \<Rightarrow> ptr \<Rightarrow> ptr \<Rightarrow> ptr option" where
  "pick_from ts start it =
     (if runnable (state (ts it)) then Some it
      else let it = next_task (ts it) in if it \<noteq> start then pick_from ts start it else Some 0)"

definition pick_next :: "sched_t \<Rightarrow> ptr option" where
  "pick_next s =
     (if task_ring s = 0 then Some 0
      else let start = (if current s \<noteq> 0 then next_task (tasks s (current s)) else next_task (tasks s (task_ring s)))
      in pick_from (tasks s) start start)"

text \<open>The result is the register frame to continue from.\<close>

definition schedule_from_isr :: "sched_t \<Rightarrow> ptr \<Rightarrow> (ptr \<times> sched_t) outcome option" where
  "schedule_from_isr s r =
     (if r = 0 then Some (Panic ''SCHEDULER_NULL_REGS'')
      else if current s = 0 then
        let s = upd_task (init_task s) (\<lambda>t. t\<lparr>kstack := init_task_stack s, kstack_size := INIT_STACK_SIZE, regs := r,
                  state := TASK_RUNNING\<rparr>) s;
            s = s\<lparr>current := init_task s\<rparr>;
            s = s\<lparr>g_syscall_kstack_top := kstack (tasks s (current s)) + kstack_size (tasks s (current s))\<rparr>;
            s = s\<lparr>tss_st := tss_update_rsp0 (g_syscall_kstack_top s) (tss_st s)\<rparr>
        in Some (Ret (regs (tasks s (current s)), s\<lparr>need_reschedule := False\<rparr>))
      else
        let s = upd_task (current s) (regs_update (\<lambda>_. r)) s;
            s = (if state (tasks s (current s)) = TASK_RUNNING
                 then upd_task (current s) (state_update (\<lambda>_. TASK_READY)) s else s) in
        case (if need_reschedule s then
                Option.bind (pick_next s) (\<lambda>n.
                let s = (if n \<noteq> 0 \<and> n \<noteq> current s then s\<lparr>current := n\<rparr> else s)
                in Some (s\<lparr>need_reschedule := False\<rparr>))
              else Some s) of None \<Rightarrow> None | Some s \<Rightarrow>
        let s = upd_task (current s) (state_update (\<lambda>_. TASK_RUNNING)) s;
            out = regs (tasks s (current s));
            s = s\<lparr>g_syscall_kstack_top := kstack (tasks s (current s)) + kstack_size (tasks s (current s))\<rparr>;
            s = s\<lparr>tss_st := tss_update_rsp0 (g_syscall_kstack_top s) (tss_st s)\<rparr>;
            s = s\<lparr>kheap := (kheap s)\<lparr>hp_pg := paging_switch (page_table (tasks s (current s))) (hp_pg (kheap s))\<rparr>\<rparr>
        in Some (Ret (out, s)))"

definition get_current_task :: "sched_t \<Rightarrow> ptr" where "get_current_task s = current s"

section \<open>Removal\<close>

definition add_to_zombie_list :: "sched_t \<Rightarrow> ptr \<Rightarrow> sched_t" where
  "add_to_zombie_list s t =
     (if t = 0 then s else (upd_task t (znext_update (\<lambda>_. zombie_list s)) s)\<lparr>zombie_list := t\<rparr>)"

text \<open>The walk of \<^verbatim>\<open>unlink_from_ring\<close>: the predecessor of \<^verbatim>\<open>t\<close>, or 0 when it is not on the ring.\<close>

partial_function (option) find_prev :: "(ptr \<Rightarrow> task_t) \<Rightarrow> ptr \<Rightarrow> ptr \<Rightarrow> ptr \<Rightarrow> ptr \<Rightarrow> ptr option" where
  "find_prev ts first t prev it =
     (if it = t then Some prev
      else let prev = it; it = next_task (ts it)
      in if it \<noteq> first then find_prev ts first t prev it else Some 0)"

definition unlink_from_ring :: "sched_t \<Rightarrow> ptr \<Rightarrow> (int \<times> sched_t) option" where
  "unlink_from_ring s t =
     (if task_ring s = 0 \<or> t = 0 then Some (- 1, s)
      else if next_task (tasks s (task_ring s)) = task_ring s then
        (if task_ring s = t then
           (if init_task s = t then Some (- 1, s)
            else Some (0, upd_task (init_task s) (next_task_update (\<lambda>_. init_task s)) (s\<lparr>task_ring := init_task s\<rparr>)))
         else Some (- 1, s))
      else case find_prev (tasks s) (next_task (tasks s (task_ring s))) t (task_ring s) (next_task (tasks s (task_ring s))) of
          None \<Rightarrow> None
        | Some prev \<Rightarrow>
            if prev = 0 then Some (- 1, s)
            else let s = upd_task prev (next_task_update (\<lambda>_. next_task (tasks s t))) s
            in Some (0, if task_ring s = t then s\<lparr>task_ring := prev\<rparr> else s))"

definition free_task_resources :: "sched_t \<Rightarrow> ptr \<Rightarrow> sched_t outcome" where
  "free_task_resources s t =
     (if t = 0 \<or> t = init_task s then Ret s
      else
        obind (if kstack (tasks s t) \<noteq> 0 then heap_free (kstack (tasks s t)) s else Ret s) (\<lambda>s.
        obind (if user_mem (tasks s t) \<noteq> 0 then
                 obind (heap_free (user_mem (tasks s t)) s) (\<lambda>s. Ret (upd_task t (\<lambda>x. x\<lparr>user_mem := 0, user_mem_size := 0\<rparr>) s))
               else Ret s) (\<lambda>s.
        obind (if task_name (tasks s t) \<noteq> 0 then
                 obind (heap_free (task_name (tasks s t)) s) (\<lambda>s. Ret (upd_task t (\<lambda>x. x\<lparr>task_name := 0\<rparr>) s))
               else Ret s) (\<lambda>s.
        let s = (if page_table (tasks s t) \<noteq> 0 then
                   upd_task t (\<lambda>x. x\<lparr>page_table := 0\<rparr>)
                     (s\<lparr>kheap := (kheap s)\<lparr>hp_pg := paging_destroy_user_task (hp_pg (kheap s)) (page_table (tasks s t))\<rparr>\<rparr>)
                 else s)
        in heap_free t s))))"

partial_function (option) reap_from :: "sched_t \<Rightarrow> ptr \<Rightarrow> sched_t outcome option" where
  "reap_from s z =
     (if z = 0 then Some (Ret s)
      else let next_z = znext (tasks s z) in
        case unlink_from_ring (cli s) z of None \<Rightarrow> None | Some (r, s) \<Rightarrow>
        (case free_task_resources (sti s) z of
           Panic msg \<Rightarrow> Some (Panic msg)
         | Ret s \<Rightarrow> reap_from s next_z))"

definition reap_zombies :: "sched_t \<Rightarrow> sched_t outcome option" where
  "reap_zombies s = (let s = cli s; z = zombie_list s; s = sti (s\<lparr>zombie_list := 0\<rparr>) in reap_from s z)"

text \<open>What \<^verbatim>\<open>task_list\<close> writes to its buffer is the list it returns here.\<close>

record task_info_t =
  ti_pid :: u32
  ti_state :: task_state_t
  ti_name :: ptr

partial_function (option) list_from :: "sched_t \<Rightarrow> ptr \<Rightarrow> int \<Rightarrow> int \<Rightarrow> task_info_t list \<Rightarrow> (task_info_t list \<times> sched_t) outcome option" where
  "list_from s it count cap buf =
     (if count \<ge> cap then Some (Ret (buf, s))
      else case heap_call (\<lambda>h. strdup h (task_name (tasks s it))) s of
          None \<Rightarrow> None
        | Some (Panic msg) \<Rightarrow> Some (Panic msg)
        | Some (Ret (nm, s)) \<Rightarrow>
            let buf = buf @ [\<lparr>ti_pid = pid (tasks s it), ti_state = state (tasks s it), ti_name = nm\<rparr>];
                it = next_task (tasks s it)
            in if it \<noteq> next_task (tasks s (task_ring s)) then list_from s it (count + 1) cap buf else Some (Ret (buf, s)))"

definition task_list :: "sched_t \<Rightarrow> u64 \<Rightarrow> (task_info_t list \<times> sched_t) outcome option" where
  "task_list s cap =
     (let s = cli s in
      if task_ring s = 0 then Some (Ret ([], sti s))
      else rbind (list_from s (next_task (tasks s (task_ring s))) 0 (sint (ucast cap :: u32)) []) (\<lambda>(buf, s).
        Some (Ret (buf, sti s))))"

partial_function (option) find_pid :: "(ptr \<Rightarrow> task_t) \<Rightarrow> ptr \<Rightarrow> u32 \<Rightarrow> ptr \<Rightarrow> ptr option" where
  "find_pid ts first p it =
     (if pid (ts it) = p then Some it
      else let it = next_task (ts it) in if it \<noteq> first then find_pid ts first p it else Some 0)"

datatype 'a flow = Returned 'a sched_t | Halted sched_t

definition task_stop :: "sched_t \<Rightarrow> u32 \<Rightarrow> int flow outcome option" where
  "task_stop s p =
     rbind (reap_zombies s) (\<lambda>s.
     let s = cli s in
     if task_ring s = 0 then Some (Ret (Returned (- 1) (sti s)))
     else case find_pid (tasks s) (next_task (tasks s (task_ring s))) p (next_task (tasks s (task_ring s))) of
         None \<Rightarrow> None
       | Some found \<Rightarrow>
           if found = 0 then Some (Ret (Returned (- 1) (sti s)))
           else if found = current s then
             let s = upd_task (current s) (state_update (\<lambda>_. TASK_ZOMBIE)) s;
                 s = add_to_zombie_list s (current s)
             in Option.bind (unlink_from_ring s (current s)) (\<lambda>(r, s). Some (Ret (Halted (sti s))))
           else Option.bind (unlink_from_ring s found) (\<lambda>(r, s).
             Some (obind (free_task_resources (sti s) found) (\<lambda>s. Ret (Returned 0 s)))))"

definition task_exit :: "sched_t \<Rightarrow> u32 \<Rightarrow> unit flow outcome option" where
  "task_exit s code =
     rbind (reap_zombies s) (\<lambda>s.
     let s = cli s in
     if current s = 0 \<or> current s = init_task s then Some (Ret (Returned () (sti s)))
     else let s = upd_task (current s) (\<lambda>t. t\<lparr>exit_code := code, state := TASK_ZOMBIE\<rparr>) s;
              s = add_to_zombie_list s (current s)
     in Option.bind (unlink_from_ring s (current s)) (\<lambda>(r, s). Some (Ret (Halted (sti s)))))"

definition task_is_alive :: "sched_t \<Rightarrow> u32 \<Rightarrow> (bool \<times> sched_t) outcome option" where
  "task_is_alive s p =
     (if sint p < 0 then Some (Ret (False, s))
      else if p = 0 then Some (Ret (True, s))
      else rbind (reap_zombies s) (\<lambda>s.
        let s = cli s in
        if task_ring s = 0 then Some (Ret (False, sti s))
        else Option.bind (find_pid (tasks s) (next_task (tasks s (task_ring s))) p (next_task (tasks s (task_ring s)))) (\<lambda>it.
          if it = 0 then Some (Ret (False, sti s)) else Some (Ret (state (tasks s it) \<noteq> TASK_ZOMBIE, sti s)))))"

partial_function (option) kill_from :: "sched_t \<Rightarrow> ptr \<Rightarrow> ptr \<Rightarrow> sched_t option" where
  "kill_from s start it =
     (let s = (if pid (tasks s it) \<noteq> 0 \<and> it \<noteq> init_task s then
                 add_to_zombie_list (upd_task it (\<lambda>t. t\<lparr>state := TASK_ZOMBIE, exit_code := - 1\<rparr>) s) it
               else s);
          it = next_task (tasks s it)
      in if it \<noteq> start then kill_from s start it else Some s)"

definition kill_all_tasks :: "sched_t \<Rightarrow> sched_t outcome option" where
  "kill_all_tasks s =
     (let s = cli s in
      if task_ring s = 0 then Some (Ret (sti s))
      else let start = next_task (tasks s (task_ring s)) in
        case kill_from s start start of None \<Rightarrow> None | Some s \<Rightarrow>
        rbind (reap_zombies s) (\<lambda>s.
        let s = s\<lparr>current := init_task s\<rparr>;
            s = upd_task (current s) (state_update (\<lambda>_. TASK_RUNNING)) s;
            s = (if pid (tasks s (task_ring s)) \<noteq> 0 then
                   upd_task (init_task s) (next_task_update (\<lambda>_. init_task s)) (s\<lparr>task_ring := init_task s\<rparr>)
                 else s)
        in Some (Ret (sti s))))"

partial_function (option) collect_from :: "sched_t \<Rightarrow> ptr \<Rightarrow> ptr \<Rightarrow> ptr list \<Rightarrow> ptr list option" where
  "collect_from s start it acc =
     (let acc = (if pid (tasks s it) \<noteq> 0 \<and> it \<noteq> init_task s then
                   (if length acc < 256 then acc @ [it] else acc) else acc);
          it = next_task (tasks s it)
      in if it \<noteq> start \<and> length acc < 256 then collect_from s start it acc else Some acc)"

fun unlink_all :: "ptr list \<Rightarrow> sched_t \<Rightarrow> sched_t option" where
  "unlink_all [] s = Some s"
| "unlink_all (t # ts) s = (case unlink_from_ring s t of None \<Rightarrow> None | Some (r, s) \<Rightarrow> unlink_all ts s)"

fun free_all :: "ptr list \<Rightarrow> sched_t \<Rightarrow> sched_t outcome" where
  "free_all [] s = Ret s"
| "free_all (t # ts) s = obind (free_task_resources s t) (free_all ts)"

definition emergency_terminate_all :: "sched_t \<Rightarrow> sched_t outcome option" where
  "emergency_terminate_all s =
     (let s = cli s in
      if task_ring s = 0 then Some (Ret (sti s))
      else let start = next_task (tasks s (task_ring s)) in
        case collect_from s start start [] of None \<Rightarrow> None | Some ts \<Rightarrow>
        case unlink_all ts s of None \<Rightarrow> None | Some s \<Rightarrow>
        Some (obind (free_all ts s) (\<lambda>s.
          let s = upd_task (init_task s) (next_task_update (\<lambda>_. init_task s)) (s\<lparr>task_ring := init_task s\<rparr>);
              s = s\<lparr>current := init_task s\<rparr>;
              s = upd_task (current s) (state_update (\<lambda>_. TASK_RUNNING)) s;
              s = s\<lparr>zombie_list := 0\<rparr>
          in Ret (sti s))))"

section \<open>The ring as a list\<close>

text \<open>\<open>links ts r x\<close>: each task of \<open>r\<close> points to the one behind it, the last one to \<open>x\<close>.\<close>

primrec links :: "(ptr \<Rightarrow> task_t) \<Rightarrow> ptr list \<Rightarrow> ptr \<Rightarrow> bool" where
  "links ts [] x \<longleftrightarrow> True"
| "links ts (t # r) x \<longleftrightarrow> next_task (ts t) = (if r = [] then x else hd r) \<and> links ts r x"

definition is_ring :: "(ptr \<Rightarrow> task_t) \<Rightarrow> ptr \<Rightarrow> ptr list \<Rightarrow> bool" where
  "is_ring ts tail r \<longleftrightarrow> r \<noteq> [] \<and> distinct r \<and> 0 \<notin> set r \<and> tail = last r \<and> links ts r (hd r)"

lemma links_append: "links ts (xs @ ys) x \<longleftrightarrow> links ts xs (if ys = [] then x else hd ys) \<and> links ts ys x"
  by (induction xs) auto

lemma links_cong: "\<forall>t \<in> set r. next_task (ts' t) = next_task (ts t) \<Longrightarrow> links ts' r x = links ts r x"
  by (induction r) auto

lemma links_upd [simp]: "t \<notin> set r \<Longrightarrow> links (ts(t := v)) r x = links ts r x"
  by (intro links_cong) auto

lemma links_rotate: "links ts (xs @ ys) (hd (xs @ ys)) \<Longrightarrow> ys \<noteq> [] \<Longrightarrow> links ts (ys @ xs) (hd ys)"
  by (cases xs) (auto simp: links_append)

definition rot :: "ptr list \<Rightarrow> ptr \<Rightarrow> ptr list" where
  "rot r n = dropWhile (\<lambda>t. t \<noteq> n) r @ takeWhile (\<lambda>t. t \<noteq> n) r"

lemma rot_split: "n \<notin> set xs \<Longrightarrow> rot (xs @ n # ys) n = n # ys @ xs"
proof -
  assume n: "n \<notin> set xs"
  then have "dropWhile (\<lambda>t. t \<noteq> n) (xs @ n # ys) = n # ys" "takeWhile (\<lambda>t. t \<noteq> n) (xs @ n # ys) = xs"
    by (induction xs) auto
  then show ?thesis by (simp add: rot_def)
qed

lemma is_ring_split:
  assumes "is_ring ts tail r" "n \<in> set r"
  obtains xs ys where "r = xs @ n # ys" "n \<notin> set xs" "n \<notin> set ys" "rot r n = n # ys @ xs" "links ts (n # ys @ xs) n"
proof -
  obtain xs ys where r: "r = xs @ n # ys" using assms(2) by (meson split_list)
  moreover have "n \<notin> set xs" "n \<notin> set ys" using assms(1) r by (auto simp: is_ring_def)
  moreover have "links ts (n # ys @ xs) n" using links_rotate [of ts xs "n # ys"] assms(1) r by (simp add: is_ring_def)
  ultimately show ?thesis using that rot_split by blast
qed

lemma rot_set: "is_ring ts tail r \<Longrightarrow> n \<in> set r \<Longrightarrow> set (rot r n) = set r"
  by (elim is_ring_split) auto

text \<open>The task behind \<open>c\<close>, and the order in which the tasks follow it.\<close>

lemma next_in_ring:
  assumes "is_ring ts tail r" "c \<in> set r"
  obtains xs ys where "r = xs @ c # ys" "rot r (next_task (ts c)) = ys @ xs @ [c]" "next_task (ts c) \<in> set r"
proof -
  obtain xs ys where r: "r = xs @ c # ys" "c \<notin> set xs" "c \<notin> set ys" "links ts (c # ys @ xs) c"
    using is_ring_split [OF assms] by metis
  have d: "distinct r" using assms(1) by (simp add: is_ring_def)
  have n: "next_task (ts c) = (if ys @ xs = [] then c else hd (ys @ xs))" using r(4) by simp
  have e: "rot r (next_task (ts c)) = ys @ xs @ [c]"
  proof (cases ys)
    case (Cons y zs)
    then have "y \<notin> set (xs @ [c])" using d r(1) by auto
    with Cons show ?thesis using n r(1) rot_split [of y "xs @ [c]" zs] by simp
  next
    case Nil
    show ?thesis
    proof (cases xs)
      case (Cons y zs)
      then show ?thesis using n r(1) Nil rot_split [of y "[]" "zs @ [c]"] by simp
    qed (use n r(1) Nil in \<open>simp add: rot_def\<close>)
  qed
  have "next_task (ts c) \<in> set r" using n r(1) by (cases ys; cases xs) auto
  with that r(1) e show ?thesis by blast
qed

section \<open>Selection\<close>

definition ready :: "(ptr \<Rightarrow> task_t) \<Rightarrow> ptr \<Rightarrow> bool" where "ready ts t \<longleftrightarrow> runnable (state (ts t))"

definition selected :: "(ptr \<Rightarrow> task_t) \<Rightarrow> ptr list \<Rightarrow> ptr" where
  "selected ts w = (case find (ready ts) w of None \<Rightarrow> 0 | Some t \<Rightarrow> t)"

lemma pick_from_links:
  "links ts w start \<Longrightarrow> w \<noteq> [] \<Longrightarrow> start \<notin> set (tl w) \<Longrightarrow> pick_from ts start (hd w) = Some (selected ts w)"
proof (induction w)
  case (Cons t w)
  show ?case
  proof (cases "ready ts t")
    case True
    then show ?thesis by (simp add: pick_from.simps [of ts start t] selected_def ready_def)
  next
    case False
    show ?thesis
    proof (cases w)
      case Nil
      then show ?thesis using False Cons.prems by (simp add: pick_from.simps [of ts start t] selected_def ready_def)
    next
      case w: (Cons u v)
      then have "pick_from ts start (hd w) = Some (selected ts w)" using Cons.prems Cons.IH w by simp
      moreover have "u \<noteq> start" using Cons.prems w by auto
      ultimately show ?thesis using False Cons.prems w by (simp add: pick_from.simps [of ts start t] selected_def ready_def)
    qed
  qed
qed simp

lemma pick_from_ring:
  assumes "is_ring ts tail r" "n \<in> set r"
  shows "pick_from ts n n = Some (selected ts (rot r n))"
proof -
  obtain xs ys where r: "n \<notin> set xs" "n \<notin> set ys" "rot r n = n # ys @ xs" "links ts (n # ys @ xs) n"
    using is_ring_split [OF assms] by metis
  from pick_from_links [OF r(4)] r show ?thesis by simp
qed

text \<open>The task selection starts from: the one behind the current task, or the first of the ring.\<close>

definition from_task :: "sched_t \<Rightarrow> ptr" where
  "from_task s = (if current s \<noteq> 0 then next_task (tasks s (current s)) else next_task (tasks s (task_ring s)))"

lemma pick_next_ring:
  assumes "is_ring (tasks s) (task_ring s) r" "from_task s \<in> set r"
  shows "pick_next s = Some (selected (tasks s) (rot r (from_task s)))"
proof -
  have "task_ring s \<noteq> 0" using assms(1) unfolding is_ring_def by (metis last_in_set)
  then have "pick_next s = pick_from (tasks s) (from_task s) (from_task s)" by (simp add: pick_next_def from_task_def Let_def)
  then show ?thesis using pick_from_ring [OF assms] by simp
qed

lemma find_prev_links:
  "links ts w first \<Longrightarrow> w \<noteq> [] \<Longrightarrow> first \<notin> set (tl w) \<Longrightarrow>
   find_prev ts first t p (hd w) = Some (if t \<in> set w then last (p # takeWhile (\<lambda>x. x \<noteq> t) w) else 0)"
proof (induction w arbitrary: p)
  case (Cons u w)
  show ?case
  proof (cases "u = t")
    case True
    then show ?thesis by (simp add: find_prev.simps [of ts first t p])
  next
    case False
    show ?thesis
    proof (cases w)
      case Nil
      then show ?thesis using False Cons.prems by (simp add: find_prev.simps [of ts first t p])
    next
      case w: (Cons v x)
      then have "find_prev ts first t u (hd w) = Some (if t \<in> set w then last (u # takeWhile (\<lambda>x. x \<noteq> t) w) else 0)"
        using Cons.prems Cons.IH w by simp
      moreover have "v \<noteq> first" using Cons.prems w by auto
      ultimately show ?thesis using False Cons.prems w by (simp add: find_prev.simps [of ts first t p])
    qed
  qed
qed simp

lemma ring_tail:
  assumes "is_ring ts tail r"
  shows "tail \<in> set r" "tail \<noteq> 0" "next_task (ts tail) = hd r" "hd r \<in> set r"
proof -
  obtain xs where r: "r = xs @ [tail]" using assms by (metis append_butlast_last_id is_ring_def)
  then show t: "tail \<in> set r" by simp
  then show "tail \<noteq> 0" using assms unfolding is_ring_def by metis
  show "next_task (ts tail) = hd r" using assms r by (simp add: is_ring_def links_append)
  show "hd r \<in> set r" using assms by (simp add: is_ring_def)
qed

lemma ring_insert_ring:
  assumes ring: "is_ring (tasks s) (task_ring s) r" and t: "t \<notin> set r" "t \<noteq> 0"
  shows "is_ring (tasks (ring_insert s t)) (task_ring (ring_insert s t)) (r @ [t])"
proof -
  note tl = ring_tail [OF ring]
  obtain xs where r: "r = xs @ [task_ring s]" using ring by (metis append_butlast_last_id is_ring_def)
  have ne: "t \<noteq> task_ring s" "task_ring s \<noteq> t" using tl(1) t(1) by auto
  have d: "distinct r" "0 \<notin> set r" "links (tasks s) r (hd r)" using ring by (simp_all add: is_ring_def)
  let ?ts = "tasks (ring_insert s t)"
  have ts: "?ts = (tasks s)(t := next_task_update (\<lambda>_. hd r) (tasks s t), task_ring s := next_task_update (\<lambda>_. t) (tasks s (task_ring s)))"
    using tl ne by (simp add: ring_insert_def upd_task_def Let_def)
  have "links (tasks s) xs (task_ring s)" using d(3) r by (simp add: links_append)
  then have "links ?ts xs (task_ring s)" using d(1) t(1) r unfolding ts by (simp add: links_upd)
  moreover have "hd (r @ [t]) = hd r" using r by (cases xs) simp_all
  ultimately have "links ?ts (r @ [t]) (hd (r @ [t]))" using ne r ts by (simp add: links_append)
  moreover have "task_ring (ring_insert s t) = t" using tl(2) by (simp add: ring_insert_def upd_task_def Let_def)
  ultimately show ?thesis using d t r ne by (simp add: is_ring_def)
qed

lemma ring_insert_fields [simp]:
  "kheap (ring_insert s t) = kheap s" "current (ring_insert s t) = current s" "zombie_list (ring_insert s t) = zombie_list s"
  "init_task (ring_insert s t) = init_task s" "next_pid (ring_insert s t) = next_pid s" "create_lock (ring_insert s t) = create_lock s"
  "ucreate_lock (ring_insert s t) = ucreate_lock s" "need_reschedule (ring_insert s t) = need_reschedule s"
  by (simp_all add: ring_insert_def upd_task_def Let_def)

lemma ring_insert_tasks:
  "pid (tasks (ring_insert s t) x) = pid (tasks s x)" "state (tasks (ring_insert s t) x) = state (tasks s x)"
  "kstack (tasks (ring_insert s t) x) = kstack (tasks s x)" "task_name (tasks (ring_insert s t) x) = task_name (tasks s x)"
  "user_mem (tasks (ring_insert s t) x) = user_mem (tasks s x)" "znext (tasks (ring_insert s t) x) = znext (tasks s x)"
  "regs (tasks (ring_insert s t) x) = regs (tasks s x)" "page_table (tasks (ring_insert s t) x) = page_table (tasks s x)"
  by (simp_all add: ring_insert_def upd_task_def Let_def)

lemma links_set_next:
  assumes "links ts (xs @ p # t # ys) x" "distinct (xs @ p # t # ys)" "n = next_task (ts t)"
  shows "links (ts(p := next_task_update (\<lambda>_. n) (ts p))) (xs @ p # ys) x"
  using assms by (cases ys) (auto simp: links_append)

text \<open>Two task stores that differ in the links of the ring at most.\<close>

definition same_tasks :: "(ptr \<Rightarrow> task_t) \<Rightarrow> (ptr \<Rightarrow> task_t) \<Rightarrow> bool" where
  "same_tasks ts ts' \<longleftrightarrow> (\<forall>x. next_task_update (\<lambda>_. 0) (ts' x) = next_task_update (\<lambda>_. 0) (ts x))"

lemma same_tasks_refl [simp]: "same_tasks ts ts" by (simp add: same_tasks_def)

lemma same_tasks_upd [simp]: "same_tasks ts (ts(p := next_task_update (\<lambda>_. n) (ts p)))"
  by (simp add: same_tasks_def)

lemma same_tasks_fields:
  assumes "same_tasks ts ts'"
  shows "pid (ts' x) = pid (ts x)" "state (ts' x) = state (ts x)" "kstack (ts' x) = kstack (ts x)" "user_mem (ts' x) = user_mem (ts x)"
    "task_name (ts' x) = task_name (ts x)" "znext (ts' x) = znext (ts x)" "page_table (ts' x) = page_table (ts x)"
    "regs (ts' x) = regs (ts x)"
proof -
  have e: "next_task_update (\<lambda>_. 0) (ts' x) = next_task_update (\<lambda>_. 0) (ts x)" using assms by (simp add: same_tasks_def)
  show "pid (ts' x) = pid (ts x)" using arg_cong [OF e, of pid] by simp
  show "state (ts' x) = state (ts x)" using arg_cong [OF e, of state] by simp
  show "kstack (ts' x) = kstack (ts x)" using arg_cong [OF e, of kstack] by simp
  show "user_mem (ts' x) = user_mem (ts x)" using arg_cong [OF e, of user_mem] by simp
  show "task_name (ts' x) = task_name (ts x)" using arg_cong [OF e, of task_name] by simp
  show "znext (ts' x) = znext (ts x)" using arg_cong [OF e, of znext] by simp
  show "page_table (ts' x) = page_table (ts x)" using arg_cong [OF e, of page_table] by simp
  show "regs (ts' x) = regs (ts x)" using arg_cong [OF e, of regs] by simp
qed

lemma unlink_many:
  assumes ring: "is_ring (tasks s) (task_ring s) r" and t: "t \<in> set r" and r: "r \<noteq> [t]"
  obtains s' where "unlink_from_ring s t = Some (0, s')" "is_ring (tasks s') (task_ring s') (remove1 t r)"
    "same_tasks (tasks s) (tasks s')" "s' = s\<lparr>tasks := tasks s', task_ring := task_ring s'\<rparr>"
    "next_task (tasks s' t) = next_task (tasks s t)"
proof -
  note tl = ring_tail [OF ring]
  have d: "distinct r" "0 \<notin> set r" "links (tasks s) r (hd r)" "task_ring s = last r" "r \<noteq> []" using ring by (simp_all add: is_ring_def)
  obtain xs ys where e: "r = xs @ t # ys" "t \<notin> set xs" using t by (meson split_list_first)
  have nt: "t \<noteq> 0" "t \<notin> set ys" using t d(1,2) e by auto
  have single: "hd r \<noteq> task_ring s" using d(1,4) e r by (cases xs; cases ys) auto
  define p where "p = last (task_ring s # xs)"
  have pr: "p \<in> set (remove1 t r)" "p \<noteq> 0" "p \<noteq> t"
  proof -
    have "p \<in> set (xs @ ys)" using e d(4) r by (cases "xs = []") (auto simp: p_def)
    then show "p \<in> set (remove1 t r)" "p \<noteq> 0" "p \<noteq> t" using e nt d(2) by (auto simp: remove1_append)
  qed
  have "find_prev (tasks s) (hd r) t (task_ring s) (hd r) = Some p"
  proof -
    have "hd r \<notin> set (List.tl r)" using d(1,5) by (cases r) auto
    moreover have "takeWhile (\<lambda>x. x \<noteq> t) r = xs" unfolding e(1) using e(2) by (induction xs) auto
    ultimately show ?thesis using find_prev_links [OF d(3,5), of t "task_ring s"] t by (simp add: p_def)
  qed
  let ?ts = "(tasks s)(p := next_task_update (\<lambda>_. next_task (tasks s t)) (tasks s p))"
  let ?s = "s\<lparr>tasks := ?ts, task_ring := (if task_ring s = t then p else task_ring s)\<rparr>"
  have "unlink_from_ring s t = Some (0, ?s)"
    using \<open>find_prev _ _ _ _ _ = _\<close> single tl nt pr by (simp add: unlink_from_ring_def upd_task_def)
  moreover have "is_ring ?ts (if task_ring s = t then p else task_ring s) (remove1 t r)"
  proof (cases xs rule: rev_cases)
    case Nil
    then obtain zs where z: "ys = zs @ [p]" using e(1) r d(4) by (cases ys rule: rev_cases) (auto simp: p_def)
    have "links (tasks s) (zs @ [p]) t" "next_task (tasks s t) = hd ys" using d(3) e(1) Nil z by auto
    then have "links ?ts ys (hd ys)" using d(1) e(1) z by (simp add: links_append links_upd)
    then show ?thesis using d e nt Nil z pr(3) by (auto simp: is_ring_def)
  next
    case (snoc us q)
    then have q: "q = p" by (simp add: p_def)
    have "links ?ts (us @ p # ys) (hd r)"
      by (rule links_set_next [where t = t]) (use d(1,3) e(1) snoc q in simp_all)
    moreover have "hd (us @ p # ys) = hd r" using e(1) snoc q by (cases us) simp_all
    moreover have "remove1 t r = us @ p # ys" using e snoc q pr(3) by (simp add: remove1_append)
    ultimately show ?thesis using d e nt snoc q by (auto simp: is_ring_def)
  qed
  ultimately show thesis using that [of ?s] pr(3) by simp
qed

lemma unlink_absent:
  assumes ring: "is_ring (tasks s) (task_ring s) r" and t: "t \<notin> set r"
  shows "unlink_from_ring s t = Some (- 1, s)"
proof -
  note tl = ring_tail [OF ring]
  have d: "distinct r" "links (tasks s) r (hd r)" "r \<noteq> []" using ring by (simp_all add: is_ring_def)
  then have "hd r \<notin> set (List.tl r)" by (cases r) auto
  from find_prev_links [OF d(2,3) this, of t "task_ring s"] t tl show ?thesis by (auto simp: unlink_from_ring_def)
qed

section \<open>The timer interrupt\<close>

text \<open>What one interrupt does to the task store, with \<open>c\<close> interrupted and \<open>n\<close> continued.\<close>

definition switched :: "(ptr \<Rightarrow> task_t) \<Rightarrow> ptr \<Rightarrow> ptr \<Rightarrow> ptr \<Rightarrow> ptr \<Rightarrow> task_t" where
  "switched ts c r n = (\<lambda>x. let t = (if x = c then (ts c)\<lparr>regs := r, state := (if state (ts c) = TASK_RUNNING then TASK_READY else state (ts c))\<rparr> else ts x)
     in if x = n then t\<lparr>state := TASK_RUNNING\<rparr> else t)"

lemma switched_next [simp]: "next_task (switched ts c r n x) = next_task (ts x)"
  by (simp add: switched_def Let_def)

lemma switched_ready:
  assumes "ready ts n"
  shows "ready (switched ts c r n) x = ready ts x"
  using assms by (simp add: switched_def ready_def runnable_def Let_def)

lemma find_cong_set: "\<forall>x \<in> set w. P x = Q x \<Longrightarrow> find P w = find Q w"
  by (induction w) auto

lemma schedule_from_isr_ring:
  assumes ring: "is_ring (tasks s) (task_ring s) r" and fr: "from_task s \<in> set r" and c: "current s \<noteq> 0"
    and reg: "p \<noteq> 0"
  defines "n \<equiv> (let n = selected (tasks s) (rot r (from_task s)) in if n = 0 \<or> \<not> need_reschedule s then current s else n)"
  obtains s' where "schedule_from_isr s p = Some (Ret (regs (tasks s' n), s'))" "tasks s' = switched (tasks s) (current s) p n"
    "current s' = n" "task_ring s' = task_ring s" "\<not> need_reschedule s'" "init_task s' = init_task s" "zombie_list s' = zombie_list s"
    "g_syscall_kstack_top s' = kstack (tasks s' n) + kstack_size (tasks s' n)" "create_lock s' = create_lock s"
    "kheap s' = (kheap s)\<lparr>hp_pg := paging_switch (page_table (tasks s' n)) (hp_pg (kheap s))\<rparr>" "next_pid s' = next_pid s"
    "tss_st s' = tss_update_rsp0 (g_syscall_kstack_top s') (tss_st s)"
proof -
  let ?c = "current s"
  define s1 where "s1 = (let s = upd_task ?c (regs_update (\<lambda>_. p)) s in
    if state (tasks s ?c) = TASK_RUNNING then upd_task ?c (state_update (\<lambda>_. TASK_READY)) s else s)"
  have t1: "tasks s1 = (tasks s)(?c := (tasks s ?c)\<lparr>regs := p, state := (if state (tasks s ?c) = TASK_RUNNING then TASK_READY else state (tasks s ?c))\<rparr>)"
    by (auto simp: s1_def upd_task_def Let_def)
  have f1: "task_ring s1 = task_ring s" "current s1 = ?c" "need_reschedule s1 = need_reschedule s" "init_task s1 = init_task s" "zombie_list s1 = zombie_list s"
    "kheap s1 = kheap s" "create_lock s1 = create_lock s" "next_pid s1 = next_pid s"
    "tss_st s1 = tss_st s" by (auto simp: s1_def upd_task_def Let_def)
  have nx: "next_task (tasks s1 x) = next_task (tasks s x)" for x by (simp add: t1)
  have "is_ring (tasks s1) (task_ring s1) r" using ring links_cong [of r "tasks s1" "tasks s"] nx by (simp add: is_ring_def f1)
  moreover have "from_task s1 = from_task s" using nx f1 by (simp add: from_task_def)
  ultimately have "pick_next s1 = Some (selected (tasks s1) (rot r (from_task s)))" using pick_next_ring [of s1 r] fr by simp
  moreover have "ready (tasks s1) x = ready (tasks s) x" for x by (simp add: t1 ready_def runnable_def)
  then have "selected (tasks s1) w = selected (tasks s) w" for w
    using find_cong_set [of w "ready (tasks s1)" "ready (tasks s)"] by (simp add: selected_def)
  ultimately have pk: "pick_next s1 = Some (selected (tasks s) (rot r (from_task s)))" by simp
  define s2 where "s2 = s1\<lparr>current := n, need_reschedule := False\<rparr>"
  have s2: "(if need_reschedule s1 then Option.bind (pick_next s1) (\<lambda>n. let s = (if n \<noteq> 0 \<and> n \<noteq> current s1 then s1\<lparr>current := n\<rparr> else s1)
      in Some (s\<lparr>need_reschedule := False\<rparr>)) else Some s1) = Some s2"
  proof (cases "need_reschedule s")
    case True
    then show ?thesis unfolding pk s2_def n_def by (auto simp: Let_def f1)
  next
    case False
    then have "s2 = s1" unfolding s2_def n_def using f1(2,3) by (cases s1) (auto simp: Let_def)
    then show ?thesis using False f1(3) by simp
  qed
  have t3: "(tasks s1)(n := state_update (\<lambda>_. TASK_RUNNING) (tasks s1 n)) = switched (tasks s) ?c p n"
    by (rule ext) (simp add: t1 switched_def Let_def)
  define s3 where "s3 = (let s = upd_task n (state_update (\<lambda>_. TASK_RUNNING)) s2;
            s = s\<lparr>g_syscall_kstack_top := kstack (tasks s n) + kstack_size (tasks s n)\<rparr>;
            s = s\<lparr>tss_st := tss_update_rsp0 (g_syscall_kstack_top s) (tss_st s)\<rparr>
        in s\<lparr>kheap := (kheap s)\<lparr>hp_pg := paging_switch (page_table (tasks s n)) (hp_pg (kheap s))\<rparr>\<rparr>)"
  have "schedule_from_isr s p = Some (Ret (regs (tasks s3 n), s3))"
  proof -
    have "(let s = upd_task ?c (regs_update (\<lambda>_. p)) s;
            s = (if state (tasks s (current s)) = TASK_RUNNING
                 then upd_task (current s) (state_update (\<lambda>_. TASK_READY)) s else s) in s) = s1"
      by (simp add: s1_def upd_task_def Let_def)
    then have s1: "(if state (tasks (upd_task ?c (regs_update (\<lambda>_. p)) s) (current (upd_task ?c (regs_update (\<lambda>_. p)) s))) = TASK_RUNNING
        then upd_task (current (upd_task ?c (regs_update (\<lambda>_. p)) s)) (state_update (\<lambda>_. TASK_READY)) (upd_task ?c (regs_update (\<lambda>_. p)) s)
        else upd_task ?c (regs_update (\<lambda>_. p)) s) = s1" by (simp only: Let_def)
    show ?thesis unfolding schedule_from_isr_def if_not_P [OF reg] if_not_P [OF c] Let_def s1 s2 [unfolded Let_def]
      by (simp add: s3_def Let_def s2_def upd_task_def)
  qed
  moreover have "tasks s3 = switched (tasks s) ?c p n" unfolding t3 [symmetric] by (simp add: s3_def s2_def upd_task_def Let_def)
  ultimately show thesis
    by (rule that) (simp_all add: s3_def s2_def f1 upd_task_def Let_def)
qed

text \<open>A sequence of interrupts that each ask for a new selection, with the frame each one saves.\<close>

fun ticks :: "ptr list \<Rightarrow> sched_t \<Rightarrow> (ptr \<times> sched_t) option" where
  "ticks [] s = Some (0, s)"
| "ticks (p # ps) s = (case schedule_from_isr (s\<lparr>need_reschedule := True\<rparr>) p of
      Some (Ret (out, s')) \<Rightarrow> if ps = [] then Some (out, s') else ticks ps s' | _ \<Rightarrow> None)"

definition on_ring :: "sched_t \<Rightarrow> ptr list \<Rightarrow> bool" where
  "on_ring s r \<longleftrightarrow> is_ring (tasks s) (task_ring s) r \<and> current s \<in> set r"

lemma on_ring_from:
  assumes "on_ring s r"
  shows "from_task s \<in> set r" "from_task s = next_task (tasks s (current s))" "current s \<noteq> 0"
proof -
  have ring: "is_ring (tasks s) (task_ring s) r" and c: "current s \<in> set r" using assms by (simp_all add: on_ring_def)
  show nz: "current s \<noteq> 0" using ring c unfolding is_ring_def by metis
  then show e: "from_task s = next_task (tasks s (current s))" by (simp add: from_task_def)
  show "from_task s \<in> set r" unfolding e by (rule next_in_ring [OF ring c])
qed

lemma selected_prefix:
  assumes "w = us @ t # vs" "ready ts t" "0 \<notin> set w"
  obtains n where "selected ts w = n" "n \<noteq> 0" "n \<in> set us \<or> n = t" "ready ts n"
proof -
  have "\<exists>n. find (ready ts) w = Some n \<and> (n \<in> set us \<or> n = t) \<and> ready ts n"
    unfolding assms(1) using assms(2) by (induction us) auto
  then obtain n where "find (ready ts) w = Some n" "n \<in> set us \<or> n = t" "ready ts n" by blast
  then show thesis using that [of n] assms(1,3) by (auto simp: selected_def)
qed

lemma tick_ring:
  assumes on: "on_ring s r" and p: "p \<noteq> 0" and w: "rot r (from_task s) = us @ t # vs" and t: "ready (tasks s) t"
  obtains out s' n where "ticks [p] s = Some (out, s')" "on_ring s' r" "current s' = n" "n \<in> set us \<or> n = t" "ready (tasks s) n"
    "tasks s' = switched (tasks s) (current s) p n" "out = regs (tasks s' n)"
proof -
  let ?s = "s\<lparr>need_reschedule := True\<rparr>"
  note fr = on_ring_from [OF on]
  have ring: "is_ring (tasks s) (task_ring s) r" using on by (simp add: on_ring_def)
  have "0 \<notin> set (rot r (from_task s))" using rot_set [OF ring fr(1)] ring by (simp add: is_ring_def)
  from selected_prefix [OF w t this] obtain n where
    n: "selected (tasks s) (rot r (from_task s)) = n" "n \<noteq> 0" "n \<in> set us \<or> n = t" "ready (tasks s) n" .
  have ft: "from_task ?s = from_task s" by (simp add: from_task_def)
  from schedule_from_isr_ring [of ?s r p] ring fr(1,3) p n(1,2) ft obtain s' where
    s': "schedule_from_isr ?s p = Some (Ret (regs (tasks s' n), s'))" "tasks s' = switched (tasks s) (current s) p n"
    "current s' = n" "task_ring s' = task_ring s" by (auto simp: Let_def)
  have "links (tasks s') r x = links (tasks s) r x" for x by (rule links_cong) (simp add: s'(2))
  moreover have "n \<in> set r" using n(3) w rot_set [OF ring fr(1)] by auto
  ultimately have "on_ring s' r" using ring s' by (simp add: on_ring_def is_ring_def)
  with that [of "regs (tasks s' n)" s' n] s' n show thesis by simp
qed

lemma rot_next:
  assumes ring: "is_ring ts tail r" and m: "m \<in> set r" "rot r m = xs @ n # ys"
  shows "rot r (next_task (ts n)) = ys @ xs @ [n]"
proof -
  have n: "n \<in> set r" using m rot_set [OF ring m(1)] by auto
  have d: "distinct r" using ring by (simp add: is_ring_def)
  obtain as bs where a: "r = as @ m # bs" "rot r m = m # bs @ as" using is_ring_split [OF ring m(1)] by metis
  obtain xs' ys' where x: "r = xs' @ n # ys'" "rot r (next_task (ts n)) = ys' @ xs' @ [n]"
    using next_in_ring [OF ring n] by metis
  have u: "vs = vs' \<and> ws = ws'" if "l = vs @ n # ws" "l = vs' @ n # ws'" "distinct l" for l vs ws vs' ws'
  proof -
    have "n \<notin> set vs" "n \<notin> set ws" using that(1,3) by auto
    then show ?thesis using that(1,2) append_Cons_eq_iff [of n vs ws vs' ws'] by simp
  qed
  have dr: "distinct (m # bs @ as)" using d a(1) by auto
  have mr: "m # bs @ as = xs @ n # ys" using a(2) m(2) by simp
  show ?thesis
  proof (cases "n \<in> set as")
    case True
    then obtain cs ds where c: "as = cs @ n # ds" by (meson split_list)
    then have "r = cs @ n # ds @ m # bs" "m # bs @ as = (m # bs @ cs) @ n # ds" using a(1) by simp_all
    from u [OF this(1) x(1) d] u [OF this(2) mr dr] x(2) show ?thesis by auto
  next
    case False
    then obtain es fs where e: "m # bs = es @ n # fs" using n a(1) by (metis Un_iff set_append split_list)
    then have "r = (as @ es) @ n # fs" "m # bs @ as = es @ n # fs @ as" using a(1) by simp_all
    from u [OF this(1) x(1) d] u [OF this(2) mr dr] x(2) show ?thesis by auto
  qed
qed

lemma ticks_reach:
  assumes "on_ring s r" "ready (tasks s) t" "rot r (from_task s) = us @ t # vs" "length us < length ps" "0 \<notin> set ps"
  shows "\<exists>k out s'. 0 < k \<and> k \<le> Suc (length us) \<and> ticks (take k ps) s = Some (out, s') \<and> current s' = t \<and> on_ring s' r"
  using assms
proof (induction "length us" arbitrary: s us vs ps rule: less_induct)
  case less
  obtain p qs where ps: "ps = p # qs" "p \<noteq> 0" using less.prems(4,5) by (cases ps) auto
  obtain out s' n where s': "ticks [p] s = Some (out, s')" "on_ring s' r" "current s' = n" "n \<in> set us \<or> n = t" "ready (tasks s) n"
    "tasks s' = switched (tasks s) (current s) p n" "out = regs (tasks s' n)"
    using tick_ring [OF less.prems(1) ps(2) less.prems(3,2)] .
  show ?case
  proof (cases "n = t")
    case True
    then show ?thesis using s' ps by (intro exI [of _ "1 :: nat"] exI [of _ out] exI [of _ s']) simp
  next
    case False
    then obtain u1 u2 where u: "us = u1 @ n # u2" using s'(4) by (meson split_list)
    have ring: "is_ring (tasks s) (task_ring s) r" "is_ring (tasks s') (task_ring s') r"
      using less.prems(1) s'(2) by (simp_all add: on_ring_def)
    have nin: "n \<in> set r" using s'(2,3) by (simp add: on_ring_def)
    have "rot r (from_task s') = u2 @ t # (vs @ u1 @ [n])"
      using rot_next [OF ring(1) on_ring_from(1) [OF less.prems(1)], of u1 n "u2 @ t # vs"] on_ring_from(2) [OF s'(2)]
        less.prems(3) u s'(3,6) by simp
    moreover have "ready (tasks s') t" using less.prems(2) s'(5,6) by (simp add: switched_ready)
    moreover have "length u2 < length us" "length u2 < length qs" using u less.prems(4) ps by simp_all
    ultimately obtain k o2 s2 where k: "0 < k" "k \<le> Suc (length u2)" "ticks (take k qs) s' = Some (o2, s2)" "current s2 = t" "on_ring s2 r"
      using less.hyps [of u2 s' "vs @ u1 @ [n]" qs] s'(2) less.prems(5) ps by auto
    have "take k qs \<noteq> []" using k(1) \<open>length u2 < length qs\<close> by (cases qs) auto
    then have "ticks (take (Suc k) ps) s = Some (o2, s2)" using s'(1) ps k(3) by (auto split: option.splits outcome.splits prod.splits)
    with k u show ?thesis by (intro exI [of _ "Suc k"]) auto
  qed
qed

section \<open>What the scheduler uses of the heap\<close>

text \<open>Growing the heap clears pages; no other byte of memory changes in \<^verbatim>\<open>malloc\<close>.\<close>

definition zeroed :: "mem \<Rightarrow> mem \<Rightarrow> bool" where "zeroed m m' \<longleftrightarrow> (\<forall>a. m' a = m a \<or> m' a = 0)"

lemma zeroed_refl [simp]: "zeroed m m" by (simp add: zeroed_def)

lemma zeroed_trans: "zeroed a b \<Longrightarrow> zeroed b c \<Longrightarrow> zeroed a c" unfolding zeroed_def by metis

lemma pmm_alloc_range_zeroed: "pmm_alloc_range p m k = (x, p', m') \<Longrightarrow> zeroed m m'"
  by (auto simp: pmm_alloc_range_def zero_pages_def zeroed_def Let_def split: if_splits)

lemma heap_expand_zeroed: "heap_expand s b = Ret (ok, s') \<Longrightarrow> zeroed (hp_mem s) (hp_mem s')"
  by (auto simp: heap_expand_def upd_hdr_def Let_def split: if_splits prod.splits dest!: pmm_alloc_range_zeroed)

lemma grow_until_fit_zeroed: "grow_until_fit k s sz f = Some (Ret (x, s')) \<Longrightarrow> zeroed (hp_mem s) (hp_mem s')"
proof (induction k arbitrary: s f)
  case (Suc k)
  show ?case
  proof (cases "f = 0")
    case True
    with Suc.prems obtain s1 where e: "heap_expand s sz = Ret (True, s1)" "Option.bind (find_fit s1 sz) (grow_until_fit k s1 sz) = Some (Ret (x, s'))"
      by (auto split: outcome.splits prod.splits if_splits)
    then obtain g where "grow_until_fit k s1 sz g = Some (Ret (x, s'))" by (cases "find_fit s1 sz") auto
    with Suc.IH heap_expand_zeroed [OF e(1)] zeroed_trans show ?thesis by blast
  qed (use Suc.prems in simp)
qed (auto split: if_splits)

lemma malloc_zeroed: "malloc s sz = Some (Ret (p, s')) \<Longrightarrow> zeroed (hp_mem s) (hp_mem s')"
proof -
  assume m: "malloc s sz = Some (Ret (p, s'))"
  show ?thesis
  proof (cases "sz = 0")
    case False
    with m obtain f g s1 where "grow_until_fit 10 s (align_up sz) f = Some (Ret (g, s1))" "hp_mem s' = hp_mem s1"
      by (auto simp: malloc_def Let_def upd_hdr_def bind_eq_Some_conv split: prod.splits)
    with grow_until_fit_zeroed show ?thesis by metis
  qed (use m in \<open>simp add: malloc_def\<close>)
qed

definition grows :: "heap_t \<Rightarrow> heap_t \<Rightarrow> ptr \<Rightarrow> bool" where
  "grows h h' p \<longleftrightarrow> heap_good h' \<and> heap_start_virt h' = heap_start_virt h \<and>
     (\<exists>n. live h' = insert (unat p, n) (live h) \<and> (\<forall>m. (unat p, m) \<notin> live h)) \<and> unat (heap_start_virt h) < unat p"

lemma malloc_grows:
  assumes "heap_good h" "sz \<noteq> 0" "unat sz \<le> 2 ^ 62"
  obtains msg where "malloc h sz = Some (Panic msg)"
  | p h' where "malloc h sz = Some (Ret (p, h'))" "grows h h' p" "p \<noteq> 0" "zeroed (hp_mem h) (hp_mem h')"
proof -
  obtain a bs where ok: "heap_ok h a bs" using assms(1) by (auto simp: heap_good_def)
  have a: "unat (of_nat a :: u64) = a" using ok by (simp add: heap_ok_def unat_of_nat)
  have sz: "unat sz < 2 ^ 63" using assms(3) by simp
  show thesis
  proof (rule malloc_law [OF ok assms(2) sz])
    fix p h' n bs'
    assume m: "malloc h sz = Some (Ret (p, h'))" "heap_ok h' a bs'" "used a bs' = insert (unat p, n) (used a bs)"
      "\<forall>m. (unat p, m) \<notin> used a bs" "p \<noteq> 0"
    have "a + 40 \<le> unat p" using used_range [of "unat p" n a bs'] m(3) by simp
    then have "grows h h' p" using m ok a live_eq [OF ok] live_eq [OF m(2)] by (auto simp: grows_def heap_good_def heap_ok_def)
    then show thesis using that(2) m malloc_zeroed [OF m(1)] by blast
  qed (use that(1) in blast)
qed

definition terminated :: "mem \<Rightarrow> ptr \<Rightarrow> bool" where
  "terminated m p \<longleftrightarrow> (\<exists>k < 2 ^ 62. m (p + of_nat k) = 0)"

lemma terminated_zeroed: "terminated m p \<Longrightarrow> zeroed m m' \<Longrightarrow> terminated m' p"
  unfolding terminated_def zeroed_def by metis

lemma strlen_terminated:
  assumes "terminated m p"
  obtains n where "strlen m p = Some n" "unat n < 2 ^ 62"
proof -
  let ?P = "\<lambda>k. m (p + of_nat k) = 0"
  obtain k where k: "k < 2 ^ 62" "?P k" using assms by (auto simp: terminated_def)
  define l where "l = (LEAST k. ?P k)"
  have l: "?P l" "l \<le> k" unfolding l_def using k(2) by (rule LeastI, rule Least_le)
  have "m (p + of_nat i) \<noteq> 0" if "i < l" for i using not_less_Least [of i ?P] that by (simp add: l_def)
  then have "cstr m p (map (\<lambda>i. m (p + of_nat i)) [0..<l])" using l(1) by (simp add: cstr_iff)
  from strlen_cstr [OF this] have "strlen m p = Some (of_nat l)" by simp
  moreover have "unat (of_nat l :: u64) < 2 ^ 62" using l(2) k(1) by (simp add: unat_of_nat)
  ultimately show thesis by (rule that)
qed

lemma grows_mem [simp]: "grows h (h'\<lparr>hp_mem := m\<rparr>) p = grows h h' p"
proof -
  have "live (h'\<lparr>hp_mem := m\<rparr>) = live h'" "heap_good (h'\<lparr>hp_mem := m\<rparr>) = heap_good h'" by (simp_all add: live_def heap_good_def)
  then show ?thesis by (simp add: grows_def)
qed

lemma strdup_grows:
  assumes "heap_good h" "p = 0 \<or> terminated (hp_mem h) p"
  obtains msg where "strdup h p = Some (Panic msg)"
  | "strdup h p = Some (Ret (0, h))"
  | q h' where "strdup h p = Some (Ret (q, h'))" "grows h h' q" "q \<noteq> 0"
proof (cases "p = 0")
  case True
  then show thesis using that(2) by (simp add: strdup_def)
next
  case False
  then obtain n where n: "strlen (hp_mem h) p = Some n" "unat n < 2 ^ 62" using assms(2) strlen_terminated by blast
  have n1: "unat (n + 1) = unat n + 1" using n(2) unat_add_lem [of n 1] by simp
  then have ne: "n + 1 \<noteq> 0" by auto
  have le: "unat (n + 1) \<le> 2 ^ 62" using n(2) n1 by simp
  show thesis
  proof (rule malloc_grows [OF assms(1) ne le])
    fix msg assume "malloc h (n + 1) = Some (Panic msg)"
    with that(1) [of msg] n False show thesis by (simp add: strdup_def Let_def)
  next
    fix q h' assume m: "malloc h (n + 1) = Some (Ret (q, h'))" "grows h h' q" "q \<noteq> 0"
    then have "strdup h p = Some (Ret (q, h'\<lparr>hp_mem := memcpy (hp_mem h') q p (n + 1)\<rparr>))"
      using n False by (simp add: strdup_def Let_def)
    with that(3) m show thesis by simp
  qed
qed

section \<open>The invariant\<close>

text \<open>The heap blocks a task owns, in the order in which they are freed, and the condition that all tasks own live and separate blocks.\<close>

definition owned :: "(ptr \<Rightarrow> task_t) \<Rightarrow> ptr \<Rightarrow> ptr list" where
  "owned ts t = filter (\<lambda>b. b \<noteq> 0) [kstack (ts t), user_mem (ts t), task_name (ts t), t]"

definition addrs :: "heap_t \<Rightarrow> nat set" where "addrs h = fst ` live h"

definition keeps :: "nat set \<Rightarrow> (ptr \<Rightarrow> task_t) \<Rightarrow> ptr set \<Rightarrow> bool" where
  "keeps A ts T \<longleftrightarrow> (\<forall>t \<in> T. distinct (owned ts t) \<and> unat ` set (owned ts t) \<subseteq> A) \<and>
     (\<forall>t \<in> T. \<forall>u \<in> T. t \<noteq> u \<longrightarrow> set (owned ts t) \<inter> set (owned ts u) = {})"

lemma keeps_mono: "keeps A ts T \<Longrightarrow> A \<subseteq> B \<Longrightarrow> S \<subseteq> T \<Longrightarrow> keeps B ts S"
  unfolding keeps_def by (meson order_trans subsetD)

lemma keeps_cong: "(\<And>t. t \<in> T \<Longrightarrow> owned ts' t = owned ts t) \<Longrightarrow> keeps A ts' T = keeps A ts T"
  unfolding keeps_def by auto

lemma keeps_insert:
  assumes "keeps A ts T" "distinct (owned ts t)" "unat ` set (owned ts t) \<subseteq> B" "A \<subseteq> B" "unat ` set (owned ts t) \<inter> A = {}"
  shows "keeps B ts (insert t T)"
proof -
  have "set (owned ts t) \<inter> set (owned ts u) = {}" if "u \<in> T" for u
    using assms(1,5) that unfolding keeps_def by blast
  with assms show ?thesis unfolding keeps_def by blast
qed

lemma keeps_remove:
  assumes "keeps A ts T" "t \<in> T"
  shows "keeps (A - unat ` set (owned ts t)) ts (T - {t})"
proof -
  have "set (owned ts u) \<inter> set (owned ts t) = {}" if "u \<in> T - {t}" for u using assms that unfolding keeps_def by blast
  then have "unat ` set (owned ts u) \<inter> unat ` set (owned ts t) = {}" if "u \<in> T - {t}" for u
    using that by (metis image_Int inj_on_def unsigned_word_eqI image_empty)
  with assms(1) show ?thesis unfolding keeps_def by blast
qed

primrec zchain :: "(ptr \<Rightarrow> task_t) \<Rightarrow> ptr \<Rightarrow> ptr list \<Rightarrow> bool" where
  "zchain ts z [] \<longleftrightarrow> z = 0"
| "zchain ts z (x # xs) \<longleftrightarrow> z = x \<and> x \<noteq> 0 \<and> zchain ts (znext (ts x)) xs"

lemma zchain_cong: "(\<And>x. x \<in> set zs \<Longrightarrow> znext (ts' x) = znext (ts x)) \<Longrightarrow> zchain ts' z zs = zchain ts z zs"
  by (induction zs arbitrary: z) auto

text \<open>Ring \<open>r\<close>, zombies \<open>zs\<close>.\<close>

definition sched_inv :: "sched_t \<Rightarrow> ptr list \<Rightarrow> ptr list \<Rightarrow> bool" where
  "sched_inv s r zs \<longleftrightarrow> heap_good (kheap s) \<and> is_ring (tasks s) (task_ring s) r \<and> zchain (tasks s) (zombie_list s) zs \<and>
     distinct zs \<and> init_task s \<noteq> 0 \<and> init_task s \<notin> set zs \<and> unat (init_task s) < unat (heap_start_virt (kheap s)) \<and>
     keeps (addrs (kheap s)) (tasks s) (set r \<union> set zs - {init_task s}) \<and>
     set r \<inter> set zs = {} \<and> init_task s \<in> set r \<and> pid (tasks s (init_task s)) = 0 \<and> \<not> create_lock s \<and>
     current s \<in> {0} \<union> set r \<union> set zs \<and> (current s \<in> set zs \<longrightarrow> next_task (tasks s (current s)) \<in> set r)"

lemma grows_addrs: "grows h h' p \<Longrightarrow> addrs h' = insert (unat p) (addrs h) \<and> unat p \<notin> addrs h"
  by (auto simp: grows_def addrs_def image_iff)

lemma owned_self: "t \<noteq> 0 \<Longrightarrow> t \<in> set (owned ts t)" by (simp add: owned_def)

lemma heap_good_mem [simp]: "heap_good (h\<lparr>hp_mem := m\<rparr>) = heap_good h" "live (h\<lparr>hp_mem := m\<rparr>) = live h"
  "addrs (h\<lparr>hp_mem := m\<rparr>) = addrs h"
  by (simp_all add: heap_good_def live_def addrs_def)

lemma inv_task_addr:
  assumes "sched_inv s r zs" "t \<in> set r \<union> set zs" "t \<noteq> init_task s"
  shows "unat t \<in> addrs (kheap s)" "t \<noteq> 0"
proof -
  have "0 \<notin> set zs"
  proof -
    have "zchain (tasks s) z zs \<Longrightarrow> 0 \<notin> set zs" for z by (induction zs arbitrary: z) auto
    then show ?thesis using assms(1) by (auto simp: sched_inv_def)
  qed
  then show nz: "t \<noteq> 0" using assms(1,2) by (auto simp: sched_inv_def is_ring_def)
  show "unat t \<in> addrs (kheap s)" using assms owned_self [OF nz, of "tasks s"] unfolding sched_inv_def keeps_def by blast
qed

lemma new_task_inv:
  assumes inv: "sched_inv s r zs" and h: "heap_good (kheap x)" "heap_start_virt (kheap x) = heap_start_virt (kheap s)"
      "addrs (kheap s) \<subseteq> addrs (kheap x)"
    and t: "t \<noteq> 0" "unat t \<notin> addrs (kheap s)" "unat (heap_start_virt (kheap s)) < unat t"
    and own: "distinct (owned (\<lambda>_. v) t)" "unat ` set (owned (\<lambda>_. v) t) \<subseteq> addrs (kheap x)"
      "unat ` set (owned (\<lambda>_. v) t) \<inter> addrs (kheap s) = {}"
    and s1: "tasks s1 = (tasks s)(t := v)" "task_ring s1 = task_ring s"
    and x: "tasks x = tasks (ring_insert s1 t)" "task_ring x = task_ring (ring_insert s1 t)" "zombie_list x = zombie_list s"
      "init_task x = init_task s" "current x = current s" "\<not> create_lock x"
  shows "sched_inv x (r @ [t]) zs" "t \<notin> set r \<union> set zs" "t \<noteq> init_task s"
proof -
  show ti: "t \<noteq> init_task s" using inv t(3) by (auto simp: sched_inv_def)
  show tn: "t \<notin> set r \<union> set zs" using inv_task_addr(1) [OF inv, of t] t(2) ti by blast
  have "links ((tasks s)(t := v)) r (hd r) = links (tasks s) r (hd r)" using tn by simp
  then have ring: "is_ring (tasks s1) (task_ring s1) r" using inv by (simp add: sched_inv_def is_ring_def s1)
  have ring': "is_ring (tasks x) (task_ring x) (r @ [t])" unfolding x using ring_insert_ring [OF ring _ t(1)] tn by simp
  have zn: "zchain (tasks x) (zombie_list x) zs"
  proof -
    have "zchain (tasks x) (zombie_list s) zs = zchain (tasks s) (zombie_list s) zs"
      using tn by (intro zchain_cong) (auto simp: x(1) ring_insert_tasks s1)
    then show ?thesis using inv by (simp add: sched_inv_def x)
  qed
  have ow: "owned (tasks x) u = owned (tasks s) u" if "u \<noteq> t" for u using that by (simp add: owned_def x(1) ring_insert_tasks s1)
  have ot: "owned (tasks x) t = owned (\<lambda>_. v) t" by (simp add: owned_def x(1) ring_insert_tasks s1)
  have "keeps (addrs (kheap s)) (tasks x) (set r \<union> set zs - {init_task s})"
  proof -
    have "keeps (addrs (kheap s)) (tasks x) (set r \<union> set zs - {init_task s}) = keeps (addrs (kheap s)) (tasks s) (set r \<union> set zs - {init_task s})"
    proof (rule keeps_cong)
      fix u assume "u \<in> set r \<union> set zs - {init_task s}"
      then have "u \<noteq> t" using tn by auto
      then show "owned (tasks x) u = owned (tasks s) u" by (rule ow)
    qed
    then show ?thesis using inv by (simp add: sched_inv_def)
  qed
  then have "keeps (addrs (kheap x)) (tasks x) (insert t (set r \<union> set zs - {init_task s}))"
    by (rule keeps_insert) (use own h(3) ot in simp_all)
  moreover have "insert t (set r \<union> set zs - {init_task s}) = set (r @ [t]) \<union> set zs - {init_task s}" using ti by auto
  moreover have "pid (tasks x (init_task s)) = 0" using inv ti by (simp add: sched_inv_def x(1) ring_insert_tasks s1)
  moreover have "next_task (tasks x (current s)) \<in> set r" if "current s \<in> set zs"
  proof -
    note tl = ring_tail [OF ring]
    have "current s \<notin> set r" using inv that by (auto simp: sched_inv_def)
    then have "current s \<noteq> t" "current s \<noteq> task_ring s1" using that tn tl(1) by auto
    then show ?thesis using that inv tl(2) by (simp add: sched_inv_def x(1) ring_insert_def Let_def upd_task_def s1)
  qed
  moreover have "set (r @ [t]) \<inter> set zs = {}" using inv tn by (auto simp: sched_inv_def)
  moreover have "current s \<in> {0} \<union> set (r @ [t]) \<union> set zs" using inv by (auto simp: sched_inv_def)
  ultimately show "sched_inv x (r @ [t]) zs" using inv h ring' zn x by (simp add: sched_inv_def)
qed

lemma task_create_spec:
  assumes inv: "sched_inv s r zs" and entry: "entry \<noteq> 0" and stack: "unat stack_size \<le> 2 ^ 62"
    and name: "name = 0 \<or> terminated (hp_mem (kheap s)) name"
  obtains msg where "task_create s entry stack_size name = Some (Panic msg)"
  | t s' where "task_create s entry stack_size name = Some (Ret s')" "sched_inv s' (r @ [t]) zs" "t \<notin> set r \<union> set zs" "t \<noteq> init_task s"
     "pid (tasks s' t) = next_pid s" "state (tasks s' t) = TASK_READY" "next_pid s' = next_pid s + 1" "current s' = current s" "init_task s' = init_task s"
     "\<forall>u. u \<noteq> t \<longrightarrow> pid (tasks s' u) = pid (tasks s u) \<and> state (tasks s' u) = state (tasks s u) \<and> regs (tasks s' u) = regs (tasks s u)"
proof -
  note result = that
  let ?s0 = "s\<lparr>create_lock := True\<rparr>" and ?z = "if stack_size = 0 then KSTACK_SIZE else stack_size"
  have g0: "heap_good (kheap s)" and lk: "\<not> create_lock s" using inv by (simp_all add: sched_inv_def)
  have z: "?z \<noteq> 0" "unat ?z \<le> 2 ^ 62" using stack by auto
  show thesis
  proof (rule malloc_grows [OF g0, of sizeof_task], simp, simp)
    fix msg assume "malloc (kheap s) sizeof_task = Some (Panic msg)"
    then show thesis using result(1) [of msg] entry lk by (simp add: task_create_def spinlock_lock_def heap_call_def)
  next
    fix t h1 assume t: "malloc (kheap s) sizeof_task = Some (Ret (t, h1))" "grows (kheap s) h1 t" "t \<noteq> 0" "zeroed (hp_mem (kheap s)) (hp_mem h1)"
    have g1: "heap_good h1" using t(2) by (simp add: grows_def)
    show thesis
    proof (rule malloc_grows [OF g1 z])
      fix msg assume "malloc h1 ?z = Some (Panic msg)"
      then show thesis using result(1) [of msg] entry lk t by (simp add: task_create_def spinlock_lock_def heap_call_def Let_def)
    next
      fix ks h2 assume k: "malloc h1 ?z = Some (Ret (ks, h2))" "grows h1 h2 ks" "ks \<noteq> 0" "zeroed (hp_mem h1) (hp_mem h2)"
      have g2: "heap_good h2" using k(2) by (simp add: grows_def)
      have nm2: "name = 0 \<or> terminated (hp_mem h2) name" using name t(4) k(4) terminated_zeroed by blast
      define fin where "fin nm h3 = (let (sp, mem) = prepare_initial_stack (hp_mem h3) entry (ks + ?z) (ks + ?z) 0 0 False;
            s = (?s0\<lparr>next_pid := next_pid s + 1, kheap := h3\<lparr>hp_mem := mem\<rparr>\<rparr>);
            s = upd_task t (\<lambda>_. zero_task\<lparr>pid := next_pid s - 1, state := TASK_READY, kstack := ks, kstack_size := ?z,
                  exit_code := 0, next_task := 0, task_name := nm, page_table := 0, regs := sp\<rparr>) s;
            s = sti (ring_insert (cli s) t)
        in s\<lparr>create_lock := False\<rparr>)" for nm h3
      have fin: "task_create s entry stack_size name = Some (Ret (fin nm h3))" if "strdup h2 name = Some (Ret (nm, h3))" for nm h3
        using that entry lk t(1,3) k(1,3)
        by (simp add: task_create_def spinlock_lock_def spinlock_unlock_def heap_call_def Let_def fin_def case_prod_beta)
      have A: "addrs h1 = insert (unat t) (addrs (kheap s))" "unat t \<notin> addrs (kheap s)" "addrs h2 = insert (unat ks) (addrs h1)" "unat ks \<notin> addrs h1"
        using grows_addrs [OF t(2)] grows_addrs [OF k(2)] by simp_all
      have S: "heap_start_virt h2 = heap_start_virt (kheap s)" "unat (heap_start_virt (kheap s)) < unat t"
        using t(2) k(2) by (simp_all add: grows_def)
      have ok: thesis if n: "strdup h2 name = Some (Ret (nm, h3))" "heap_good h3" "heap_start_virt h3 = heap_start_virt h2"
          "addrs h2 \<subseteq> addrs h3" "nm \<noteq> 0 \<longrightarrow> unat nm \<in> addrs h3 \<and> unat nm \<notin> addrs h2" for nm h3
      proof -
        define v where "v = zero_task\<lparr>pid := next_pid s, state := TASK_READY, kstack := ks, kstack_size := ?z, exit_code := 0, next_task := 0,
            task_name := nm, page_table := 0,
            regs := fst (prepare_initial_stack (hp_mem h3) entry (ks + ?z) (ks + ?z) 0 0 False)\<rparr>"
        let ?x = "fin nm h3" and ?s1 = "s\<lparr>tasks := (tasks s)(t := v)\<rparr>"
        have v: "kstack v = ks" "user_mem v = 0" "task_name v = nm" "pid v = next_pid s" "state v = TASK_READY"
          by (simp_all add: v_def zero_task_def)
        have x: "tasks ?x = tasks (ring_insert ?s1 t)" "task_ring ?x = task_ring (ring_insert ?s1 t)" "zombie_list ?x = zombie_list s"
          "init_task ?x = init_task s" "current ?x = current s" "\<not> create_lock ?x" "next_pid ?x = next_pid s + 1"
          "heap_good (kheap ?x)" "heap_start_virt (kheap ?x) = heap_start_virt (kheap s)" "addrs (kheap ?x) = addrs h3"
          using n(2,3) S by (simp_all add: fin_def Let_def case_prod_beta sti_def cli_def upd_task_def v_def ring_insert_def)
        have own: "distinct (owned (\<lambda>_. v) t)" "unat ` set (owned (\<lambda>_. v) t) \<subseteq> addrs h3"
            "unat ` set (owned (\<lambda>_. v) t) \<inter> addrs (kheap s) = {}" using A n(4,5) v by (auto simp: owned_def)
        note inv' = new_task_inv [OF inv x(8,9) _ t(3) A(2) S(2) own(1) _ own(3) _ _ x(1-6)]
        show thesis
          by (rule result(2) [OF fin [OF n(1)]])
            (use inv' own(2) A n(4) x v in \<open>auto simp: ring_insert_tasks\<close>)
      qed
      show thesis
      proof (rule strdup_grows [OF g2 nm2])
        fix msg assume "strdup h2 name = Some (Panic msg)"
        then show thesis using result(1) [of msg] entry lk t k by (simp add: task_create_def spinlock_lock_def heap_call_def Let_def)
      next
        assume "strdup h2 name = Some (Ret (0, h2))"
        with ok [of 0 h2] g2 show thesis by simp
      next
        fix q h3 assume q: "strdup h2 name = Some (Ret (q, h3))" "grows h2 h3 q"
        with ok [of q h3] grows_addrs [OF q(2)] show thesis by (auto simp: grows_def)
      qed
    qed
  qed
qed

section \<open>Release\<close>

lemma heap_free_addrs:
  assumes "heap_good (kheap s)" "unat p \<in> addrs (kheap s)"
  obtains h where "heap_free p s = Ret (s\<lparr>kheap := h\<rparr>)" "heap_good h" "addrs h = addrs (kheap s) - {unat p}"
    "heap_start_virt h = heap_start_virt (kheap s)"
proof -
  obtain a bs where ok: "heap_ok (kheap s) a bs" using assms(1) by (auto simp: heap_good_def)
  note lv = live_eq [OF ok]
  obtain n where n: "(unat p, n) \<in> used a bs" using assms(2) by (auto simp: addrs_def lv)
  obtain h bs' where h: "free (kheap s) p = Ret h" "heap_ok h a bs'" "used a bs' = used a bs - {(unat p, n)}" "hp_mem h = hp_mem (kheap s)"
    using free_law [OF ok n] .
  have "m = n" if "(unat p, m) \<in> used a bs" for m using used_disjoint [OF n that] by auto
  then have "addrs h = addrs (kheap s) - {unat p}" unfolding addrs_def lv live_eq [OF h(2)] h(3) by force
  with that [of h] h ok show thesis by (auto simp: heap_free_def heap_good_def heap_ok_def)
qed

lemma heap_good_pg [simp]: "heap_good (h\<lparr>hp_pg := g\<rparr>) = heap_good h" "addrs (h\<lparr>hp_pg := g\<rparr>) = addrs h"
proof -
  have "heap_ok (h\<lparr>hp_pg := g\<rparr>) a bs = heap_ok h a bs" for a bs by (simp add: heap_ok_def)
  then show "heap_good (h\<lparr>hp_pg := g\<rparr>) = heap_good h" "addrs (h\<lparr>hp_pg := g\<rparr>) = addrs h" by (simp_all add: heap_good_def live_def addrs_def)
qed

text \<open>Freeing one field of a task, when it is set.\<close>

definition released :: "sched_t \<Rightarrow> sched_t \<Rightarrow> ptr \<Rightarrow> nat set \<Rightarrow> bool" where
  "released s s' t B \<longleftrightarrow> heap_good (kheap s') \<and> addrs (kheap s') = addrs (kheap s) - B \<and>
     heap_start_virt (kheap s') = heap_start_virt (kheap s) \<and> s' = s\<lparr>kheap := kheap s', tasks := tasks s'\<rparr> \<and>
     (\<forall>u. u \<noteq> t \<longrightarrow> tasks s' u = tasks s u) \<and> next_task (tasks s' t) = next_task (tasks s t) \<and> znext (tasks s' t) = znext (tasks s t)"

lemma released_fields:
  assumes "released s s' t B"
  shows "task_ring s' = task_ring s" "current s' = current s" "zombie_list s' = zombie_list s" "init_task s' = init_task s"
    "create_lock s' = create_lock s" "next_pid s' = next_pid s"
proof -
  have e: "s' = s\<lparr>kheap := kheap s', tasks := tasks s'\<rparr>" using assms by (simp add: released_def)
  show "task_ring s' = task_ring s" using arg_cong [OF e, of task_ring] by simp
  show "current s' = current s" using arg_cong [OF e, of current] by simp
  show "zombie_list s' = zombie_list s" using arg_cong [OF e, of zombie_list] by simp
  show "init_task s' = init_task s" using arg_cong [OF e, of init_task] by simp
  show "create_lock s' = create_lock s" using arg_cong [OF e, of create_lock] by simp
  show "next_pid s' = next_pid s" using arg_cong [OF e, of next_pid] by simp
qed

definition nz :: "ptr \<Rightarrow> nat set" where "nz x = (if x = 0 then {} else {unat x})"

lemma obind_Ret [simp]: "obind m Ret = m" by (cases m) simp_all

lemma upd_task_id [simp]: "upd_task t (\<lambda>x. x) s = s" by (simp add: upd_task_def)

lemma free_step:
  assumes rel: "released s s1 t B" and x: "nz x \<subseteq> addrs (kheap s1)"
    and f: "\<And>v. next_task (f v) = next_task v" "\<And>v. znext (f v) = znext v"
  shows "\<exists>s2. (if x \<noteq> 0 then obind (heap_free x s1) (\<lambda>s. Ret (upd_task t f s)) else Ret s1) = Ret s2 \<and>
    released s s2 t (B \<union> nz x) \<and> tasks s2 t = (if x \<noteq> 0 then f (tasks s1 t) else tasks s1 t)"
proof (cases "x = 0")
  case True
  then show ?thesis using rel by (simp add: nz_def)
next
  case False
  have g: "heap_good (kheap s1)" using rel by (simp add: released_def)
  have "unat x \<in> addrs (kheap s1)" using x False by (simp add: nz_def)
  from heap_free_addrs [OF g this] obtain h where h: "heap_free x s1 = Ret (s1\<lparr>kheap := h\<rparr>)" "heap_good h"
    "addrs h = addrs (kheap s1) - {unat x}" "heap_start_virt h = heap_start_virt (kheap s1)" .
  have e: "s1 = s\<lparr>kheap := kheap s1, tasks := tasks s1\<rparr>" using rel by (simp add: released_def)
  let ?s2 = "upd_task t f (s1\<lparr>kheap := h\<rparr>)"
  have "?s2 = s\<lparr>kheap := kheap ?s2, tasks := tasks ?s2\<rparr>" by (subst e) (simp add: upd_task_def)
  moreover have "addrs (kheap ?s2) = addrs (kheap s) - (B \<union> nz x)" using h(3) rel False by (auto simp: upd_task_def released_def nz_def)
  ultimately have "released s ?s2 t (B \<union> nz x)" using rel h f unfolding released_def by (simp add: upd_task_def)
  with h False show ?thesis by (simp add: upd_task_def)
qed

lemma free_task_resources_spec:
  assumes g: "heap_good (kheap s)" and t: "t \<noteq> 0" "t \<noteq> init_task s"
    and own: "distinct (owned (tasks s) t)" "unat ` set (owned (tasks s) t) \<subseteq> addrs (kheap s)"
  obtains s' where "free_task_resources s t = Ret s'" "released s s' t (unat ` set (owned (tasks s) t))"
proof -
  let ?k = "kstack (tasks s t)" and ?u = "user_mem (tasks s t)" and ?n = "task_name (tasks s t)"
  have all: "unat ` set (owned (tasks s) t) = nz ?k \<union> nz ?u \<union> nz ?n \<union> nz t"
    by (auto simp: owned_def nz_def)
  have dis: "nz ?u \<inter> nz ?k = {}" "nz ?n \<inter> (nz ?k \<union> nz ?u) = {}" "nz t \<inter> (nz ?k \<union> nz ?u \<union> nz ?n) = {}"
    using own(1) by (auto simp: owned_def nz_def word_unat_eq_iff split: if_splits)
  have A: "addrs (kheap s') = addrs (kheap s) - B" if "released s s' t B" for s' B using that by (simp add: released_def)
  have r0: "released s s t {}" using g by (simp add: released_def)
  have sub: "nz ?k \<subseteq> addrs (kheap s)" "nz ?u \<subseteq> addrs (kheap s)" "nz ?n \<subseteq> addrs (kheap s)" "nz t \<subseteq> addrs (kheap s)"
    using own(2) all by blast+
  have "\<exists>s1. (if ?k \<noteq> 0 then heap_free ?k s else Ret s) = Ret s1 \<and> released s s1 t (nz ?k) \<and> tasks s1 t = tasks s t"
    using free_step [OF r0 sub(1), of "\<lambda>x. x"] by (simp cong: if_cong)
  then obtain s1 where s1: "(if ?k \<noteq> 0 then heap_free ?k s else Ret s) = Ret s1" "released s s1 t (nz ?k)" "tasks s1 t = tasks s t"
    by blast
  have "nz ?u \<subseteq> addrs (kheap s1)" using A [OF s1(2)] sub(2) dis(1) by blast
  from free_step [OF s1(2) this, of "\<lambda>x. x\<lparr>user_mem := 0, user_mem_size := 0\<rparr>"] obtain s2 where
    s2: "(if ?u \<noteq> 0 then obind (heap_free ?u s1) (\<lambda>s. Ret (upd_task t (\<lambda>x. x\<lparr>user_mem := 0, user_mem_size := 0\<rparr>) s)) else Ret s1) = Ret s2"
    "released s s2 t (nz ?k \<union> nz ?u)" "tasks s2 t = (if ?u \<noteq> 0 then (tasks s t)\<lparr>user_mem := 0, user_mem_size := 0\<rparr> else tasks s t)"
    unfolding s1(3) by auto
  have n2: "task_name (tasks s2 t) = ?n" using s2(3) by simp
  have "nz ?n \<subseteq> addrs (kheap s2)" using A [OF s2(2)] sub(3) dis(2) by blast
  from free_step [OF s2(2) this, of "\<lambda>x. x\<lparr>task_name := 0\<rparr>"] obtain s3 where
    s3: "(if ?n \<noteq> 0 then obind (heap_free ?n s2) (\<lambda>s. Ret (upd_task t (\<lambda>x. x\<lparr>task_name := 0\<rparr>) s)) else Ret s2) = Ret s3"
    "released s s3 t (nz ?k \<union> nz ?u \<union> nz ?n)" by auto
  define s4 where "s4 = (if page_table (tasks s3 t) \<noteq> 0 then
                   upd_task t (\<lambda>x. x\<lparr>page_table := 0\<rparr>)
                     (s3\<lparr>kheap := (kheap s3)\<lparr>hp_pg := paging_destroy_user_task (hp_pg (kheap s3)) (page_table (tasks s3 t))\<rparr>\<rparr>)
                 else s3)"
  have s4: "released s s4 t (nz ?k \<union> nz ?u \<union> nz ?n)"
  proof -
    have e: "s3 = s\<lparr>kheap := kheap s3, tasks := tasks s3\<rparr>" using s3(2) by (simp add: released_def)
    have "s3\<lparr>kheap := h, tasks := ts\<rparr> = s\<lparr>kheap := h, tasks := ts\<rparr>" for h ts by (subst e) simp
    then have "s4 = s\<lparr>kheap := kheap s4, tasks := tasks s4\<rparr>" using e by (simp add: s4_def upd_task_def)
    then show ?thesis using s3(2) unfolding released_def by (simp add: s4_def upd_task_def)
  qed
  have "nz t \<subseteq> addrs (kheap s4)" using A [OF s4] sub(4) dis(3) by blast
  from free_step [OF s4 this, of "\<lambda>x. x"] t(1) obtain s5 where
    s5: "heap_free t s4 = Ret s5" "released s s5 t (nz ?k \<union> nz ?u \<union> nz ?n \<union> nz t)" by (auto cong: if_cong)
  have "free_task_resources s t = Ret s5"
  proof -
    have c: "\<not> (t = 0 \<or> t = init_task s)" using t by simp
    show ?thesis unfolding free_task_resources_def if_not_P [OF c] s1(1) obind.simps s1(3) s2(1) n2 s3(1) Let_def s4_def [symmetric]
      by (rule s5(1))
  qed
  with s5(2) all that show thesis by simp
qed

text \<open>The part of the invariant that does not depend on which task runs, with the zombies \<open>zs\<close> listed from \<open>z\<close>.\<close>

definition tasks_ok :: "sched_t \<Rightarrow> ptr list \<Rightarrow> ptr \<Rightarrow> ptr list \<Rightarrow> bool" where
  "tasks_ok s r z zs \<longleftrightarrow> heap_good (kheap s) \<and> is_ring (tasks s) (task_ring s) r \<and> zchain (tasks s) z zs \<and>
     distinct zs \<and> init_task s \<noteq> 0 \<and> init_task s \<notin> set zs \<and> unat (init_task s) < unat (heap_start_virt (kheap s)) \<and>
     keeps (addrs (kheap s)) (tasks s) (set r \<union> set zs - {init_task s}) \<and> set r \<inter> set zs = {} \<and>
     init_task s \<in> set r \<and> pid (tasks s (init_task s)) = 0"

lemma sched_inv_tasks_ok:
  "sched_inv s r zs \<longleftrightarrow> tasks_ok s r (zombie_list s) zs \<and> \<not> create_lock s \<and> current s \<in> {0} \<union> set r \<union> set zs \<and>
     (current s \<in> set zs \<longrightarrow> next_task (tasks s (current s)) \<in> set r)"
  unfolding sched_inv_def tasks_ok_def by (simp only: conj_assoc)

lemma cli_sti_fields [simp]:
  "tasks (cli s) = tasks s" "task_ring (cli s) = task_ring s" "current (cli s) = current s" "kheap (cli s) = kheap s"
  "zombie_list (cli s) = zombie_list s" "init_task (cli s) = init_task s" "create_lock (cli s) = create_lock s" "next_pid (cli s) = next_pid s"
  "tasks (sti s) = tasks s" "task_ring (sti s) = task_ring s" "current (sti s) = current s" "kheap (sti s) = kheap s"
  "zombie_list (sti s) = zombie_list s" "init_task (sti s) = init_task s" "create_lock (sti s) = create_lock s" "next_pid (sti s) = next_pid s"
  by (simp_all add: cli_def sti_def)

text \<open>What the reaper leaves alone: everything but the heap and the tasks it frees.\<close>

definition reaped :: "sched_t \<Rightarrow> sched_t \<Rightarrow> ptr set \<Rightarrow> bool" where
  "reaped s s' Z \<longleftrightarrow> task_ring s' = task_ring s \<and> current s' = current s \<and> zombie_list s' = zombie_list s \<and> create_lock s' = create_lock s \<and>
     next_pid s' = next_pid s \<and> init_task s' = init_task s \<and> (\<forall>u. u \<notin> Z \<longrightarrow> tasks s' u = tasks s u)"

lemma keeps_free:
  assumes "keeps A ts T" "t \<in> T" "\<forall>u. u \<noteq> t \<longrightarrow> ts' u = ts u"
  shows "keeps (A - unat ` set (owned ts t)) ts' (T - {t})"
proof -
  have "keeps (A - unat ` set (owned ts t)) ts' (T - {t}) = keeps (A - unat ` set (owned ts t)) ts (T - {t})"
    by (rule keeps_cong) (use assms(3) in \<open>simp add: owned_def\<close>)
  then show ?thesis using keeps_remove [OF assms(1,2)] by simp
qed

lemma free_detached:
  assumes ok: "tasks_ok s r y zs" and t: "t \<noteq> 0" "t \<noteq> init_task s" "t \<notin> set r" "t \<notin> set zs"
    and k: "keeps (addrs (kheap s)) (tasks s) (insert t (set r \<union> set zs - {init_task s}))"
  obtains s' where "free_task_resources s t = Ret s'" "tasks_ok s' r y zs" "reaped s s' {t}"
    "addrs (kheap s') = addrs (kheap s) - unat ` set (owned (tasks s) t)"
proof -
  have g: "heap_good (kheap s)" and ring: "is_ring (tasks s) (task_ring s) r" using ok by (simp_all add: tasks_ok_def)
  have own: "distinct (owned (tasks s) t)" "unat ` set (owned (tasks s) t) \<subseteq> addrs (kheap s)"
    using k unfolding keeps_def by blast+
  obtain s' where s': "free_task_resources s t = Ret s'" "released s s' t (unat ` set (owned (tasks s) t))"
    using free_task_resources_spec [OF g t(1,2) own] .
  note f = released_fields [OF s'(2)]
  have v: "\<forall>u. u \<noteq> t \<longrightarrow> tasks s' u = tasks s u" "heap_good (kheap s')" "heap_start_virt (kheap s') = heap_start_virt (kheap s)"
    "addrs (kheap s') = addrs (kheap s) - unat ` set (owned (tasks s) t)" using s'(2) by (simp_all add: released_def)
  have "links (tasks s') r x = links (tasks s) r x" for x by (rule links_cong) (use v(1) t(3) in auto)
  then have ring': "is_ring (tasks s') (task_ring s') r" using ring f(1) by (simp add: is_ring_def)
  have zc: "zchain (tasks s') y zs = zchain (tasks s) y zs" by (rule zchain_cong) (use v(1) t(4) in auto)
  have "set r \<union> set zs - {init_task s} = insert t (set r \<union> set zs - {init_task s}) - {t}" using t(3,4) by auto
  with keeps_free [OF k insertI1 v(1)] have "keeps (addrs (kheap s')) (tasks s') (set r \<union> set zs - {init_task s})" by (simp add: v(4))
  with zc have "tasks_ok s' r y zs" using ok ring' t(2) v f unfolding tasks_ok_def by simp
  moreover have "reaped s s' {t}" using f v(1) by (simp add: reaped_def)
  ultimately show thesis using that s'(1) v(4) by blast
qed

lemma free_zombie:
  assumes ok: "tasks_ok s r z (z # zs)"
  obtains s' where "free_task_resources s z = Ret s'" "tasks_ok s' r (znext (tasks s z)) zs" "reaped s s' {z}"
    "addrs (kheap s') = addrs (kheap s) - unat ` set (owned (tasks s) z)"
proof -
  have z: "z \<noteq> 0" "z \<noteq> init_task s" "z \<notin> set r" "z \<notin> set zs" using ok by (auto simp: tasks_ok_def)
  have k: "keeps (addrs (kheap s)) (tasks s) (set r \<union> set (z # zs) - {init_task s})" using ok by (simp add: tasks_ok_def)
  moreover have "set r \<union> set (z # zs) - {init_task s} = insert z (set r \<union> set zs - {init_task s})" using z(2) by auto
  ultimately have k': "keeps (addrs (kheap s)) (tasks s) (insert z (set r \<union> set zs - {init_task s}))" by simp
  have "keeps (addrs (kheap s)) (tasks s) (set r \<union> set zs - {init_task s})" using keeps_mono [OF k' subset_refl] by blast
  then have "tasks_ok s r (znext (tasks s z)) zs" using ok by (simp add: tasks_ok_def)
  from free_detached [OF this z k'] that show thesis by blast
qed

lemma tasks_ok_cong:
  assumes "tasks s' = tasks s" "task_ring s' = task_ring s" "kheap s' = kheap s" "init_task s' = init_task s"
  shows "tasks_ok s' r z zs = tasks_ok s r z zs"
  using assms by (simp add: tasks_ok_def)

lemma sti_cli_ok [simp]: "tasks_ok (sti s) r z zs = tasks_ok s r z zs" "tasks_ok (cli s) r z zs = tasks_ok s r z zs"
  by (rule tasks_ok_cong; simp)+

lemma reap_from_spec:
  "tasks_ok s r z zs \<Longrightarrow> \<exists>s'. reap_from s z = Some (Ret s') \<and> tasks_ok s' r 0 [] \<and> reaped s s' (set zs) \<and>
     addrs (kheap s') = addrs (kheap s) - (\<Union>t \<in> set zs. unat ` set (owned (tasks s) t))"
proof (induction zs arbitrary: s z)
  case Nil
  then have "z = 0" by (simp add: tasks_ok_def)
  then have "reap_from s z = Some (Ret s)" by (simp add: reap_from.simps [of s 0])
  with Nil \<open>z = 0\<close> show ?case by (simp add: reaped_def)
next
  case (Cons x zs)
  have x: "x = z" "z \<noteq> 0" "z \<notin> set r" "z \<notin> set zs" and ring: "is_ring (tasks s) (task_ring s) r"
    using Cons.prems by (auto simp: tasks_ok_def)
  let ?s = "sti (cli s)"
  have u: "unlink_from_ring (cli s) z = Some (- 1, cli s)" using unlink_absent [of "cli s" r z] ring x by simp
  have "tasks_ok ?s r z (z # zs)" using Cons.prems x by simp
  then obtain s1 where s1: "free_task_resources ?s z = Ret s1" "tasks_ok s1 r (znext (tasks ?s z)) zs" "reaped ?s s1 {z}"
    "addrs (kheap s1) = addrs (kheap ?s) - unat ` set (owned (tasks ?s) z)" by (rule free_zombie)
  from Cons.IH [OF s1(2)] obtain s' where s': "reap_from s1 (znext (tasks s z)) = Some (Ret s')" "tasks_ok s' r 0 []" "reaped s1 s' (set zs)"
    "addrs (kheap s') = addrs (kheap s1) - (\<Union>t \<in> set zs. unat ` set (owned (tasks s1) t))" by auto
  have "reap_from s z = Some (Ret s')" using x(2) u s1(1) s'(1) by (simp add: reap_from.simps [of s z] Let_def)
  moreover have "reaped s s' (set (x # zs))" using s1(3) s'(3) x by (simp add: reaped_def)
  moreover have "owned (tasks s1) t = owned (tasks s) t" if "t \<in> set zs" for t
  proof -
    have "t \<noteq> z" using that x(4) by auto
    then show ?thesis using s1(3) by (simp add: reaped_def owned_def)
  qed
  then have "(\<Union>t \<in> set zs. unat ` set (owned (tasks s1) t)) = (\<Union>t \<in> set zs. unat ` set (owned (tasks s) t))" by simp
  with s1(4) s'(4) x(1) have "addrs (kheap s') = addrs (kheap s) - (\<Union>t \<in> set (x # zs). unat ` set (owned (tasks s) t))" by auto
  ultimately show ?case using s'(2) by blast
qed

lemma reap_zombies_spec:
  assumes inv: "sched_inv s r zs" and c: "current s \<notin> set zs"
  obtains s' where "reap_zombies s = Some (Ret s')" "sched_inv s' r []" "zombie_list s' = 0" "current s' = current s"
    "init_task s' = init_task s" "next_pid s' = next_pid s" "\<forall>u. u \<notin> set zs \<longrightarrow> tasks s' u = tasks s u"
    "addrs (kheap s') = addrs (kheap s) - (\<Union>t \<in> set zs. unat ` set (owned (tasks s) t))"
proof -
  let ?s = "sti ((cli s)\<lparr>zombie_list := 0\<rparr>)"
  have "tasks_ok ?s r (zombie_list s) zs = tasks_ok s r (zombie_list s) zs" by (rule tasks_ok_cong) simp_all
  then have "tasks_ok ?s r (zombie_list s) zs" using inv by (simp add: sched_inv_tasks_ok)
  from reap_from_spec [OF this] obtain s' where s': "reap_from ?s (zombie_list s) = Some (Ret s')" "tasks_ok s' r 0 []" "reaped ?s s' (set zs)"
    "addrs (kheap s') = addrs (kheap s) - (\<Union>t \<in> set zs. unat ` set (owned (tasks s) t))" by auto
  have "reap_zombies s = Some (Ret s')" using s'(1) by (simp add: reap_zombies_def Let_def)
  moreover have f: "zombie_list s' = 0" "current s' = current s" "init_task s' = init_task s" "next_pid s' = next_pid s" "create_lock s' = create_lock s"
    "\<forall>u. u \<notin> set zs \<longrightarrow> tasks s' u = tasks s u"
    using s'(3) by (simp_all add: reaped_def)
  moreover have "sched_inv s' r []" using s'(2) f inv c by (simp add: sched_inv_tasks_ok)
  ultimately show thesis using that s'(4) by blast
qed

section \<open>Retiring a task\<close>

lemma next_other:
  assumes ring: "is_ring ts tail r" and t: "t \<in> set r" "r \<noteq> [t]"
  shows "next_task (ts t) \<in> set (remove1 t r)"
proof -
  obtain xs ys where r: "r = xs @ t # ys" "t \<notin> set xs" "links ts (t # ys @ xs) t" using is_ring_split [OF ring t(1)] by metis
  have "ys @ xs \<noteq> []" using r(1) t(2) by auto
  then have "next_task (ts t) = hd (ys @ xs)" using r(3) by (auto split: if_splits)
  with \<open>ys @ xs \<noteq> []\<close> have "next_task (ts t) \<in> set (xs @ ys)" using hd_in_set [of "ys @ xs"] by auto
  moreover have "remove1 t r = xs @ ys" using r(1,2) by (simp add: remove1_append)
  ultimately show ?thesis by simp
qed

lemma set_remove_ring: "is_ring ts tail r \<Longrightarrow> set (remove1 t r) = set r - {t}"
  by (simp add: is_ring_def)

lemma owned_cong: "kstack (ts' t) = kstack (ts t) \<Longrightarrow> user_mem (ts' t) = user_mem (ts t) \<Longrightarrow> task_name (ts' t) = task_name (ts t) \<Longrightarrow>
    owned ts' t = owned ts t"
  by (simp add: owned_def)

lemma owned_same: "same_tasks ts ts' \<Longrightarrow> owned ts' t = owned ts t"
  by (simp add: owned_def same_tasks_fields)

lemma unlink_ok:
  assumes ok: "tasks_ok s r z zs" and t: "t \<in> set r" "t \<noteq> init_task s"
  obtains s' where "unlink_from_ring s t = Some (0, s')" "tasks_ok s' (remove1 t r) z zs" "same_tasks (tasks s) (tasks s')"
    "next_task (tasks s' t) = next_task (tasks s t)" "next_task (tasks s t) \<in> set (remove1 t r)"
    "s' = s\<lparr>tasks := tasks s', task_ring := task_ring s'\<rparr>"
proof -
  have ring: "is_ring (tasks s) (task_ring s) r" using ok by (simp add: tasks_ok_def)
  have r: "r \<noteq> [t]" using ok t by (auto simp: tasks_ok_def)
  obtain s' where u: "unlink_from_ring s t = Some (0, s')" "is_ring (tasks s') (task_ring s') (remove1 t r)"
    "same_tasks (tasks s) (tasks s')" "s' = s\<lparr>tasks := tasks s', task_ring := task_ring s'\<rparr>" "next_task (tasks s' t) = next_task (tasks s t)"
    using unlink_many [OF ring t(1) r] .
  have f: "kheap s' = kheap s" "init_task s' = init_task s" using arg_cong [OF u(4), of kheap] arg_cong [OF u(4), of init_task] by simp_all
  have "zchain (tasks s') z zs = zchain (tasks s) z zs" by (rule zchain_cong) (simp add: same_tasks_fields [OF u(3)])
  moreover have "keeps (addrs (kheap s)) (tasks s') (set (remove1 t r) \<union> set zs - {init_task s})"
  proof -
    have "keeps A (tasks s') T = keeps A (tasks s) T" for A T by (rule keeps_cong) (rule owned_same [OF u(3)])
    moreover have "keeps (addrs (kheap s)) (tasks s) (set r \<union> set zs - {init_task s})" using ok by (simp add: tasks_ok_def)
    then have "keeps (addrs (kheap s)) (tasks s) (set (remove1 t r) \<union> set zs - {init_task s})"
      by (rule keeps_mono) (use set_remove_ring [OF ring, of t] in auto)
    ultimately show ?thesis by simp
  qed
  ultimately have "tasks_ok s' (remove1 t r) z zs"
    using ok u(2) f t(2) set_remove_ring [OF ring, of t] unfolding tasks_ok_def by (auto simp: same_tasks_fields [OF u(3)])
  with that u next_other [OF ring t(1) r] show thesis by blast
qed

text \<open>The running task on its way out: marked, listed as a zombie, unlinked.\<close>

lemma retire_current:
  assumes inv: "sched_inv s r zs" and t: "t \<in> set r" "t \<noteq> init_task s" "t = current s"
    and f: "\<And>v. next_task (f v) = next_task v" "\<And>v. kstack (f v) = kstack v" "\<And>v. user_mem (f v) = user_mem v" "\<And>v. task_name (f v) = task_name v"
    and g: "\<And>v. state (f v) = TASK_ZOMBIE"
  shows "\<exists>s'. unlink_from_ring (add_to_zombie_list (upd_task t f s) t) t = Some (0, s') \<and> sched_inv s' (remove1 t r) (t # zs) \<and>
    state (tasks s' t) = TASK_ZOMBIE \<and> current s' = t \<and> init_task s' = init_task s \<and> kheap s' = kheap s"
proof -
  have ok: "tasks_ok s r (zombie_list s) zs" and ring: "is_ring (tasks s) (task_ring s) r" and lk: "\<not> create_lock s"
    using inv by (simp_all add: sched_inv_tasks_ok tasks_ok_def)
  have tz: "t \<notin> set zs" "t \<noteq> 0" using ok t(1) by (auto simp: tasks_ok_def is_ring_def)
  define s2 where "s2 = add_to_zombie_list (upd_task t f s) t"
  have s2: "tasks s2 = (tasks s)(t := (f (tasks s t))\<lparr>znext := zombie_list s\<rparr>)" "task_ring s2 = task_ring s" "zombie_list s2 = t"
    "current s2 = current s" "init_task s2 = init_task s" "kheap s2 = kheap s" "create_lock s2 = create_lock s"
    using tz by (simp_all add: s2_def add_to_zombie_list_def upd_task_def)
  have "links (tasks s2) r x = links (tasks s) r x" for x by (rule links_cong) (simp add: s2 f)
  then have ring2: "is_ring (tasks s2) (task_ring s2) r" using ring by (simp add: is_ring_def s2)
  have z2: "zchain (tasks s2) (zombie_list s) zs" 
  proof -
    have "zchain (tasks s2) (zombie_list s) zs = zchain (tasks s) (zombie_list s) zs" by (rule zchain_cong) (use tz in \<open>auto simp: s2\<close>)
    then show ?thesis using ok by (simp add: tasks_ok_def)
  qed
  have k2: "keeps A (tasks s2) T = keeps A (tasks s) T" for A T by (rule keeps_cong, rule owned_cong) (simp_all add: s2 f)
  have "tasks s2 (init_task s) = tasks s (init_task s)" using t(2) by (simp add: s2(1))
  then have ok2: "tasks_ok s2 r (zombie_list s) zs" using ok ring2 z2 unfolding tasks_ok_def by (simp add: s2(5,6) k2)
  obtain s' where u: "unlink_from_ring s2 t = Some (0, s')" "tasks_ok s' (remove1 t r) (zombie_list s) zs" "same_tasks (tasks s2) (tasks s')"
    "next_task (tasks s' t) = next_task (tasks s2 t)" "next_task (tasks s2 t) \<in> set (remove1 t r)"
    "s' = s2\<lparr>tasks := tasks s', task_ring := task_ring s'\<rparr>" using unlink_ok [OF ok2 t(1)] t(2) s2(5) by metis
  have h: "kheap s' = kheap s" "init_task s' = init_task s" "zombie_list s' = t" "current s' = t" "\<not> create_lock s'"
    using arg_cong [OF u(6), of kheap] arg_cong [OF u(6), of init_task] arg_cong [OF u(6), of zombie_list]
      arg_cong [OF u(6), of current] arg_cong [OF u(6), of create_lock] s2 lk t(3) by simp_all
  have "znext (tasks s' t) = zombie_list s" using same_tasks_fields(6) [OF u(3)] s2(1) by simp
  then have "zchain (tasks s') t (t # zs)" using u(2) tz by (simp add: tasks_ok_def)
  moreover have "keeps A (tasks s') T = keeps A (tasks s) T" for A T
    using keeps_cong [of T "tasks s'" "tasks s2" A] owned_same [OF u(3)] k2 by simp
  moreover have "set (remove1 t r) \<union> set (t # zs) - {init_task s} = set r \<union> set zs - {init_task s}"
    using set_remove_ring [OF ring, of t] t(1) by auto
  ultimately have "tasks_ok s' (remove1 t r) t (t # zs)"
    using u(2) ok tz t(2) set_remove_ring [OF ring, of t] h(1,2) unfolding tasks_ok_def by auto
  then have "sched_inv s' (remove1 t r) (t # zs)" using h u(4,5) by (simp add: sched_inv_tasks_ok)
  moreover have "state (tasks s' t) = TASK_ZOMBIE" using same_tasks_fields(2) [OF u(3)] s2(1) g by simp
  ultimately show ?thesis using u(1) h unfolding s2_def by blast
qed

lemma sched_inv_cong:
  assumes "tasks s' = tasks s" "task_ring s' = task_ring s" "kheap s' = kheap s" "init_task s' = init_task s"
    "current s' = current s" "zombie_list s' = zombie_list s" "create_lock s' = create_lock s"
  shows "sched_inv s' r zs = sched_inv s r zs"
  using assms by (simp add: sched_inv_def)

lemma sti_cli_inv [simp]: "sched_inv (sti s) r zs = sched_inv s r zs" "sched_inv (cli s) r zs = sched_inv s r zs"
  by (rule sched_inv_cong; simp)+

lemma retire_fields: "current (upd_task t f s) = current s" "current (add_to_zombie_list s t) = current s"
  by (simp_all add: upd_task_def add_to_zombie_list_def)

lemma task_exit_spec:
  assumes inv: "sched_inv s r zs" and c: "current s \<notin> set zs"
  obtains s' where "task_exit s code = Some (Ret (Returned () s'))" "sched_inv s' r []" "current s = 0 \<or> current s = init_task s" "current s' = current s"
    "init_task s' = init_task s"
  | s' where "task_exit s code = Some (Ret (Halted s'))" "sched_inv s' (remove1 (current s) r) [current s]" "current s \<noteq> init_task s"
    "current s \<in> set r" "current s' = current s" "init_task s' = init_task s"
proof -
  note result = that
  obtain s1 where s1: "reap_zombies s = Some (Ret s1)" "sched_inv s1 r []" "zombie_list s1 = 0" "current s1 = current s"
    "init_task s1 = init_task s" "next_pid s1 = next_pid s" "\<forall>u. u \<notin> set zs \<longrightarrow> tasks s1 u = tasks s u"
    "addrs (kheap s1) = addrs (kheap s) - (\<Union>t \<in> set zs. unat ` set (owned (tasks s) t))" using reap_zombies_spec [OF inv c] .
  show thesis
  proof (cases "current s = 0 \<or> current s = init_task s")
    case True
    then have "task_exit s code = Some (Ret (Returned () (sti (cli s1))))" using s1 by (simp add: task_exit_def Let_def)
    with result(1) True s1 show thesis by simp
  next
    case False
    have t: "current s \<in> set r" using inv c False by (auto simp: sched_inv_def)
    define f :: "task_t \<Rightarrow> task_t" where "f = (\<lambda>t. t\<lparr>exit_code := code, state := TASK_ZOMBIE\<rparr>)"
    have f: "next_task (f v) = next_task v" "kstack (f v) = kstack v" "user_mem (f v) = user_mem v" "task_name (f v) = task_name v"
      "state (f v) = TASK_ZOMBIE" for v by (simp_all add: f_def)
    have i: "sched_inv (cli s1) r []" "current s \<noteq> init_task (cli s1)" "current s = current (cli s1)" using s1 False by simp_all
    obtain s' where s': "unlink_from_ring (add_to_zombie_list (upd_task (current s) f (cli s1)) (current s)) (current s) = Some (0, s')"
      "sched_inv s' (remove1 (current s) r) [current s]" "current s' = current s" "init_task s' = init_task (cli s1)"
      using retire_current [OF i(1) t i(2,3) f] by blast
    have "task_exit s code = Some (Ret (Halted (sti s')))"
      using False s1(1,4,5) s'(1) by (simp add: task_exit_def Let_def retire_fields f_def)
    with result(2) [of "sti s'"] False t s' s1(5) show thesis by simp
  qed
qed

lemma find_pid_links:
  "links ts w first \<Longrightarrow> w \<noteq> [] \<Longrightarrow> first \<notin> set (tl w) \<Longrightarrow>
   find_pid ts first p (hd w) = Some (case find (\<lambda>t. pid (ts t) = p) w of None \<Rightarrow> 0 | Some t \<Rightarrow> t)"
proof (induction w)
  case (Cons u w)
  show ?case
  proof (cases "pid (ts u) = p")
    case True
    then show ?thesis by (simp add: find_pid.simps [of ts first p])
  next
    case False
    show ?thesis
    proof (cases w)
      case Nil
      then show ?thesis using False Cons.prems by (simp add: find_pid.simps [of ts first p u])
    next
      case w: (Cons v x)
      then have "find_pid ts first p (hd w) = Some (case find (\<lambda>t. pid (ts t) = p) w of None \<Rightarrow> 0 | Some t \<Rightarrow> t)"
        using Cons.prems Cons.IH w by simp
      moreover have "v \<noteq> first" using Cons.prems w by auto
      ultimately show ?thesis using False Cons.prems w by (simp add: find_pid.simps [of ts first p u])
    qed
  qed
qed simp

text \<open>The first task of the ring with a given pid, 0 when there is none.\<close>

definition by_pid :: "(ptr \<Rightarrow> task_t) \<Rightarrow> ptr list \<Rightarrow> u32 \<Rightarrow> ptr" where
  "by_pid ts r p = (case find (\<lambda>t. pid (ts t) = p) r of None \<Rightarrow> 0 | Some t \<Rightarrow> t)"

lemma find_pid_ring:
  assumes ring: "is_ring (tasks s) (task_ring s) r"
  shows "find_pid (tasks s) (next_task (tasks s (task_ring s))) p (next_task (tasks s (task_ring s))) = Some (by_pid (tasks s) r p)"
proof -
  have d: "distinct r" "links (tasks s) r (hd r)" "r \<noteq> []" using ring by (simp_all add: is_ring_def)
  then have "hd r \<notin> set (tl r)" by (cases r) auto
  from find_pid_links [OF d(2,3) this, of p] ring_tail(3) [OF ring] show ?thesis by (simp add: by_pid_def)
qed

lemma by_pid_cases:
  assumes "is_ring ts tail r"
  obtains "by_pid ts r p = 0" "\<forall>t \<in> set r. pid (ts t) \<noteq> p" | t where "by_pid ts r p = t" "t \<in> set r" "pid (ts t) = p" "t \<noteq> 0"
proof (cases "find (\<lambda>t. pid (ts t) = p) r")
  case None
  then show thesis using that(1) by (simp add: by_pid_def) (simp add: find_None_iff)
next
  case (Some t)
  then have "t \<in> set r" "pid (ts t) = p" by (auto simp: find_Some_iff)
  with Some that(2) assms show thesis by (auto simp: by_pid_def is_ring_def)
qed

lemma stop_other:
  assumes ok: "tasks_ok s r 0 []" and t: "t \<in> set r" "t \<noteq> init_task s" "t \<noteq> 0"
  shows "\<exists>s2 s'. unlink_from_ring s t = Some (0, s2) \<and> free_task_resources (sti s2) t = Ret s' \<and> tasks_ok s' (remove1 t r) 0 [] \<and>
    init_task s' = init_task s \<and> zombie_list s' = zombie_list s \<and> current s' = current s \<and> create_lock s' = create_lock s"
proof -
  obtain s2 where s2: "unlink_from_ring s t = Some (0, s2)" "tasks_ok s2 (remove1 t r) 0 []" "same_tasks (tasks s) (tasks s2)"
    "next_task (tasks s2 t) = next_task (tasks s t)" "next_task (tasks s t) \<in> set (remove1 t r)"
    "s2 = s\<lparr>tasks := tasks s2, task_ring := task_ring s2\<rparr>" using unlink_ok [OF ok t(1,2)] .
  have h: "kheap s2 = kheap s" "init_task s2 = init_task s" "zombie_list s2 = zombie_list s" "current s2 = current s" "create_lock s2 = create_lock s"
    using arg_cong [OF s2(6), of kheap] arg_cong [OF s2(6), of init_task] arg_cong [OF s2(6), of zombie_list]
      arg_cong [OF s2(6), of current] arg_cong [OF s2(6), of create_lock] by simp_all
  have "is_ring (tasks s) (task_ring s) r" using ok by (simp add: tasks_ok_def)
  then have sr: "set (remove1 t r) = set r - {t}" by (rule set_remove_ring)
  have "keeps (addrs (kheap s)) (tasks s2) (set r - {init_task s})"
    using keeps_cong [of "set r - {init_task s}" "tasks s2" "tasks s", OF owned_same [OF s2(3)]] ok by (simp add: tasks_ok_def)
  moreover have "insert t (set (remove1 t r) \<union> set [] - {init_task s}) = set r - {init_task s}" using sr t(1,2) by auto
  ultimately have k: "keeps (addrs (kheap (sti s2))) (tasks (sti s2)) (insert t (set (remove1 t r) \<union> set [] - {init_task (sti s2)}))"
    by (simp add: h)
  have ok2: "tasks_ok (sti s2) (remove1 t r) 0 []" "t \<noteq> init_task (sti s2)" "t \<notin> set (remove1 t r)" "t \<notin> set []" using s2(2) sr t(2) h by simp_all
  obtain s' where s': "free_task_resources (sti s2) t = Ret s'" "tasks_ok s' (remove1 t r) 0 []" "reaped (sti s2) s' {t}"
    "addrs (kheap s') = addrs (kheap (sti s2)) - unat ` set (owned (tasks (sti s2)) t)"
    using free_detached [OF ok2(1) t(3) ok2(2-4) k] .
  with s2(1) h show ?thesis by (auto simp: reaped_def)
qed

lemma task_stop_spec:
  assumes inv: "sched_inv s r zs" and c: "current s \<notin> set zs" and p: "p \<noteq> 0"
  defines "t \<equiv> by_pid (tasks s) r p"
  obtains s' where "task_stop s p = Some (Ret (Returned (- 1) s'))" "sched_inv s' r []" "t = 0" "current s' = current s"
    "init_task s' = init_task s"
  | s' where "task_stop s p = Some (Ret (Halted s'))" "sched_inv s' (remove1 t r) [t]" "t = current s" "t \<in> set r"
    "current s' = current s" "init_task s' = init_task s"
  | s' where "task_stop s p = Some (Ret (Returned 0 s'))" "sched_inv s' (remove1 t r) []" "t \<noteq> current s" "t \<in> set r"
    "current s' = current s" "init_task s' = init_task s"
proof -
  note result = that
  obtain s1 where s1: "reap_zombies s = Some (Ret s1)" "sched_inv s1 r []" "zombie_list s1 = 0" "current s1 = current s"
    "init_task s1 = init_task s" "next_pid s1 = next_pid s" "\<forall>u. u \<notin> set zs \<longrightarrow> tasks s1 u = tasks s u"
    "addrs (kheap s1) = addrs (kheap s) - (\<Union>t \<in> set zs. unat ` set (owned (tasks s) t))" using reap_zombies_spec [OF inv c] .
  have same: "tasks s1 u = tasks s u" if "u \<in> set r" for u using s1(7) inv that by (auto simp: sched_inv_def)
  have "find (\<lambda>t. pid (tasks s1 t) = p) r = find (\<lambda>t. pid (tasks s t) = p) r" by (rule find_cong_set) (simp add: same)
  then have tt: "by_pid (tasks s1) r p = t" by (simp add: by_pid_def t_def)
  let ?s = "cli s1"
  have i1: "sched_inv ?s r []" using s1(2) by simp
  have ring: "is_ring (tasks ?s) (task_ring ?s) r" using i1 unfolding sched_inv_def by blast
  have tr: "task_ring s1 \<noteq> 0" using ring_tail(2) [OF ring] by simp
  have fp: "find_pid (tasks s1) (next_task (tasks s1 (task_ring s1))) p (next_task (tasks s1 (task_ring s1))) = Some t"
    using find_pid_ring [OF ring, of p] tt by simp
  show thesis
  proof (rule by_pid_cases [OF ring, of p])
    assume "by_pid (tasks ?s) r p = 0"
    then have "t = 0" using tt by simp
    then have "task_stop s p = Some (Ret (Returned (- 1) (sti ?s)))" using s1(1) tr fp by (simp add: task_stop_def Let_def)
    with result(1) [of "sti ?s"] \<open>t = 0\<close> s1 show thesis by simp
  next
    fix u assume "by_pid (tasks ?s) r p = u" "u \<in> set r" "pid (tasks ?s u) = p" "u \<noteq> 0"
    then have t: "t \<in> set r" "pid (tasks s1 t) = p" "t \<noteq> 0" using tt by simp_all
    have ti: "t \<noteq> init_task ?s" using t(2) p i1 by (auto simp: sched_inv_def)
    show thesis
    proof (cases "t = current s")
      case True
      define f :: "task_t \<Rightarrow> task_t" where "f = state_update (\<lambda>_. TASK_ZOMBIE)"
      have f: "next_task (f v) = next_task v" "kstack (f v) = kstack v" "user_mem (f v) = user_mem v" "task_name (f v) = task_name v"
        "state (f v) = TASK_ZOMBIE" for v by (simp_all add: f_def)
      have tc: "t = current ?s" using True s1(4) by simp
      obtain s' where s': "unlink_from_ring (add_to_zombie_list (upd_task t f ?s) t) t = Some (0, s')"
        "sched_inv s' (remove1 t r) [t]" "current s' = t" "init_task s' = init_task ?s" using retire_current [OF i1 t(1) ti tc f] by blast
      have "task_stop s p = Some (Ret (Halted (sti s')))"
        using s1(1,4) tr fp t(3) tc s'(1) by (simp add: task_stop_def Let_def retire_fields f_def)
      with result(2) [of "sti s'"] True t s' s1(5) show thesis by simp
    next
      case False
      have ok: "tasks_ok ?s r 0 []" using i1 s1(3) by (simp add: sched_inv_tasks_ok)
      obtain s2 s' where s': "unlink_from_ring ?s t = Some (0, s2)" "free_task_resources (sti s2) t = Ret s'" "tasks_ok s' (remove1 t r) 0 []"
        "init_task s' = init_task ?s" "zombie_list s' = zombie_list ?s" "current s' = current ?s" "create_lock s' = create_lock ?s"
        using stop_other [OF ok t(1) ti t(3)] by blast
      have "task_stop s p = Some (Ret (Returned 0 s'))"
        using s1(1,4) tr fp t(3) False s'(1,2) by (simp add: task_stop_def Let_def)
      moreover have "current s \<in> {0} \<union> set (remove1 t r)" using set_remove_ring [OF ring] False inv c by (auto simp: sched_inv_def)
      then have "sched_inv s' (remove1 t r) []" using s'(3-) i1 s1(3,4) by (simp add: sched_inv_tasks_ok)
      ultimately show thesis using result(3) [of s'] False t(1) s'(4-) s1(4,5) by simp
    qed
  qed
qed

lemma selected_in: "selected ts w = 0 \<or> selected ts w \<in> set w"
  by (induction w) (auto simp: selected_def)

text \<open>The timer interrupt, with or without a new selection.\<close>

lemma isr_spec:
  assumes inv: "sched_inv s r zs" and p: "p \<noteq> 0"
  obtains out s' where "schedule_from_isr s p = Some (Ret (out, s'))" "sched_inv s' r zs" "init_task s' = init_task s"
    "current s' = current s \<or> current s' \<in> set r" "current s' \<noteq> 0" "\<not> need_reschedule s'"
proof (cases "current s = 0")
  case True
  let ?f = "\<lambda>t. t\<lparr>kstack := init_task_stack s, kstack_size := INIT_STACK_SIZE, regs := p, state := TASK_RUNNING\<rparr>"
  define s' where "s' = snd (case schedule_from_isr s p of Some (Ret x) \<Rightarrow> x)"
  have e: "\<exists>out. schedule_from_isr s p = Some (Ret (out, s'))" and f: "tasks s' = (tasks s)(init_task s := ?f (tasks s (init_task s)))" "kheap s' = kheap s"
     "task_ring s' = task_ring s" "init_task s' = init_task s" "zombie_list s' = zombie_list s" "create_lock s' = create_lock s" "current s' = init_task s"
     "\<not> need_reschedule s'"
    using True p by (simp_all add: s'_def schedule_from_isr_def Let_def upd_task_def)
  have i: "init_task s \<in> set r" "init_task s \<noteq> 0" "init_task s \<notin> set zs" using inv by (simp_all add: sched_inv_def)
  have "links (tasks s') r x = links (tasks s) r x" for x by (rule links_cong) (simp add: f(1))
  then have "is_ring (tasks s') (task_ring s') r" using inv by (simp add: sched_inv_def is_ring_def f)
  moreover have "zchain (tasks s') (zombie_list s) zs = zchain (tasks s) (zombie_list s) zs" by (rule zchain_cong) (simp add: f(1))
  moreover have "keeps A (tasks s') (set r \<union> set zs - {init_task s}) = keeps A (tasks s) (set r \<union> set zs - {init_task s})" for A
    by (rule keeps_cong, rule owned_cong) (auto simp: f(1))
  moreover have "pid (tasks s' (init_task s)) = pid (tasks s (init_task s))" by (simp add: f(1))
  ultimately have "sched_inv s' r zs" using inv i unfolding sched_inv_def by (simp add: f(2-))
  with e that f i show thesis by auto
next
  case False
  have ring: "is_ring (tasks s) (task_ring s) r" using inv by (simp add: sched_inv_def)
  have fr: "from_task s \<in> set r"
  proof (cases "current s \<in> set zs")
    case True
    then show ?thesis using inv False by (simp add: sched_inv_def from_task_def)
  next
    case nz: False
    then have "current s \<in> set r" using inv False by (auto simp: sched_inv_def)
    then show ?thesis using on_ring_from(1) [of s r] ring by (simp add: on_ring_def)
  qed
  define n where "n = (let n = selected (tasks s) (rot r (from_task s)) in if n = 0 \<or> \<not> need_reschedule s then current s else n)"
  have n: "n = current s \<or> n \<in> set r"
  proof -
    have "n \<noteq> current s \<Longrightarrow> n \<in> set (rot r (from_task s))"
      using selected_in [of "tasks s" "rot r (from_task s)"] by (auto simp: n_def Let_def split: if_splits)
    then show ?thesis using rot_set [OF ring fr] by auto
  qed
  have n0: "n \<noteq> 0" using False by (simp add: n_def Let_def)
  obtain s' where s': "schedule_from_isr s p = Some (Ret (regs (tasks s' n), s'))" "tasks s' = switched (tasks s) (current s) p n"
    "current s' = n" "task_ring s' = task_ring s" "\<not> need_reschedule s'" "init_task s' = init_task s" "zombie_list s' = zombie_list s"
    "g_syscall_kstack_top s' = kstack (tasks s' n) + kstack_size (tasks s' n)" "create_lock s' = create_lock s"
    "kheap s' = (kheap s)\<lparr>hp_pg := paging_switch (page_table (tasks s' n)) (hp_pg (kheap s))\<rparr>" "next_pid s' = next_pid s"
    "tss_st s' = tss_update_rsp0 (g_syscall_kstack_top s') (tss_st s)"
    using schedule_from_isr_ring [OF ring fr False p, folded n_def] .
  have "links (tasks s') r x = links (tasks s) r x" for x by (rule links_cong) (simp add: s'(2))
  then have "is_ring (tasks s') (task_ring s') r" using ring by (simp add: is_ring_def s')
  moreover have "zchain (tasks s') (zombie_list s) zs = zchain (tasks s) (zombie_list s) zs" by (rule zchain_cong) (simp add: s'(2) switched_def Let_def)
  moreover have "keeps A (tasks s') T = keeps A (tasks s) T" for A T
    by (rule keeps_cong, rule owned_cong) (simp_all add: s'(2) switched_def Let_def)
  moreover have "pid (tasks s' (init_task s)) = pid (tasks s (init_task s))" by (simp add: s'(2) switched_def Let_def)
  moreover have "next_task (tasks s' x) = next_task (tasks s x)" for x by (simp add: s'(2))
  moreover have "n \<in> {0} \<union> set r \<union> set zs" using n inv by (auto simp: sched_inv_def)
  moreover have "n \<in> set zs \<longrightarrow> next_task (tasks s n) \<in> set r" using n inv by (auto simp: sched_inv_def)
  ultimately have "sched_inv s' r zs" using inv unfolding sched_inv_def by (simp add: s'(3-7,9,10))
  with that s' n n0 show thesis by blast
qed

section \<open>The scheduler as a transition system\<close>

text \<open>A configuration is the state of the scheduler and whether the running task has reached the \<^verbatim>\<open>hlt\<close> loop at the end of
  \<^verbatim>\<open>task_exit\<close> or \<^verbatim>\<open>task_stop\<close>; from there on only the timer interrupt happens.\<close>

inductive sched_step :: "bool \<times> sched_t \<Rightarrow> bool \<times> sched_t \<Rightarrow> bool" where
  st_create: "task_create s entry n name = Some (Ret s') \<Longrightarrow> unat n \<le> 2 ^ 62 \<Longrightarrow> name = 0 \<or> terminated (hp_mem (kheap s)) name \<Longrightarrow>
    sched_step (False, s) (False, s')"
| st_exit: "task_exit s code = Some (Ret (Returned u s')) \<Longrightarrow> sched_step (False, s) (False, s')"
| st_exit_halt: "task_exit s code = Some (Ret (Halted s')) \<Longrightarrow> sched_step (False, s) (True, s')"
| st_stop: "task_stop s p = Some (Ret (Returned v s')) \<Longrightarrow> p \<noteq> 0 \<Longrightarrow> sched_step (False, s) (False, s')"
| st_stop_halt: "task_stop s p = Some (Ret (Halted s')) \<Longrightarrow> p \<noteq> 0 \<Longrightarrow> sched_step (False, s) (True, s')"
| st_reap: "reap_zombies s = Some (Ret s') \<Longrightarrow> sched_step (False, s) (False, s')"
| st_irq: "schedule_from_isr (s\<lparr>need_reschedule := b\<rparr>) p = Some (Ret (out, s')) \<Longrightarrow> p \<noteq> 0 \<Longrightarrow>
    sched_step (h, s) (h \<and> current s' = current s, s')"

text \<open>The specification: a list of tasks, a list of zombies, the running task and whether it has halted.\<close>

inductive spec_step :: "ptr \<Rightarrow> ptr list \<times> ptr list \<times> ptr \<times> bool \<Rightarrow> ptr list \<times> ptr list \<times> ptr \<times> bool \<Rightarrow> bool" for i where
  sp_create: "t \<notin> set r \<union> set zs \<Longrightarrow> t \<noteq> 0 \<Longrightarrow> spec_step i (r, zs, c, False) (r @ [t], zs, c, False)"
| sp_retire: "c \<in> set r \<Longrightarrow> c \<noteq> i \<Longrightarrow> spec_step i (r, zs, c, False) (remove1 c r, [c], c, True)"
| sp_stop: "t \<in> set r \<Longrightarrow> t \<noteq> i \<Longrightarrow> t \<noteq> c \<Longrightarrow> spec_step i (r, zs, c, False) (remove1 t r, [], c, False)"
| sp_reap: "spec_step i (r, zs, c, False) (r, [], c, False)"
| sp_stay: "c \<noteq> 0 \<Longrightarrow> spec_step i (r, zs, c, h) (r, zs, c, h)"
| sp_switch: "n \<in> set r \<Longrightarrow> n \<noteq> c \<Longrightarrow> spec_step i (r, zs, c, h) (r, zs, n, False)"

definition represents :: "bool \<times> sched_t \<Rightarrow> ptr list \<times> ptr list \<times> ptr \<times> bool \<Rightarrow> bool" where
  "represents \<equiv> \<lambda>(h, s) (r, zs, c, k). sched_inv s r zs \<and> c = current s \<and> k = h \<and> (h \<longleftrightarrow> current s \<in> set zs)"

lemma irq_represents:
  assumes "represents (h, s) (r, zs, current s, h)" "schedule_from_isr (s\<lparr>need_reschedule := b\<rparr>) p = Some (Ret (out, s'))" "p \<noteq> 0"
  shows "\<exists>a. spec_step (init_task s) (r, zs, current s, h) a \<and> represents (h \<and> current s' = current s, s') a \<and> init_task s' = init_task s"
proof -
  have inv: "sched_inv s r zs" and h: "h \<longleftrightarrow> current s \<in> set zs" using assms(1) by (simp_all add: represents_def)
  have "sched_inv (s\<lparr>need_reschedule := b\<rparr>) r zs" using inv sched_inv_cong [of "s\<lparr>need_reschedule := b\<rparr>" s] by simp
  from isr_spec [OF this assms(3)] assms(2) have s': "sched_inv s' r zs" "init_task s' = init_task s" "current s' = current s \<or> current s' \<in> set r"
    "current s' \<noteq> 0" by auto
  show ?thesis
  proof (cases "current s' = current s")
    case True
    have "spec_step (init_task s) (r, zs, current s, h) (r, zs, current s, h)" using True s'(4) by (intro sp_stay) simp
    with True s' h show ?thesis by (intro exI [of _ "(r, zs, current s, h)"]) (simp add: represents_def)
  next
    case False
    then have n: "current s' \<in> set r" using s'(3) by simp
    then have "current s' \<notin> set zs" using s'(1) by (auto simp: sched_inv_def)
    with False n s' sp_switch [of "current s'" r "current s" "init_task s" zs h] show ?thesis
      by (intro exI [of _ "(r, zs, current s', False)"]) (simp add: represents_def)
  qed
qed

lemma exit_represents:
  assumes "represents (False, s) (r, zs, current s, False)" "task_exit s code = Some (Ret x)"
  shows "(\<exists>s' u. x = Returned u s' \<and> represents (False, s') (r, [], current s, False) \<and> init_task s' = init_task s) \<or>
    (\<exists>s'. x = Halted s' \<and> current s \<in> set r \<and> current s \<noteq> init_task s \<and>
      represents (True, s') (remove1 (current s) r, [current s], current s, True) \<and> init_task s' = init_task s)"
proof -
  have inv: "sched_inv s r zs" "current s \<notin> set zs" using assms(1) by (simp_all add: represents_def)
  show ?thesis by (rule task_exit_spec [OF inv, of code]) (use assms(2) in \<open>simp_all add: represents_def\<close>)
qed

lemma stop_represents:
  assumes "represents (False, s) (r, zs, current s, False)" "task_stop s p = Some (Ret x)" "p \<noteq> 0"
  shows "(\<exists>s' v. x = Returned v s' \<and> (represents (False, s') (r, [], current s, False) \<or>
      (\<exists>t. t \<in> set r \<and> t \<noteq> init_task s \<and> t \<noteq> current s \<and> represents (False, s') (remove1 t r, [], current s, False))) \<and> init_task s' = init_task s) \<or>
    (\<exists>s'. x = Halted s' \<and> current s \<in> set r \<and> current s \<noteq> init_task s \<and>
      represents (True, s') (remove1 (current s) r, [current s], current s, True) \<and> init_task s' = init_task s)"
proof -
  have inv: "sched_inv s r zs" "current s \<notin> set zs" using assms(1) by (simp_all add: represents_def)
  have i: "by_pid (tasks s) r p \<noteq> init_task s" 
  proof -
    have "is_ring (tasks s) (task_ring s) r" using inv(1) unfolding sched_inv_def by blast
    then show ?thesis by (rule by_pid_cases [of _ _ _ p]) (use inv(1) assms(3) in \<open>auto simp: sched_inv_def\<close>)
  qed
  show ?thesis by (rule task_stop_spec [OF inv assms(3)]) (use assms(2) i in \<open>auto simp: represents_def\<close>)
qed

lemma sched_step_spec:
  assumes step: "sched_step x y" and rep: "represents x (r, zs, c, k)"
  shows "\<exists>a. spec_step (init_task (snd x)) (r, zs, c, k) a \<and> represents y a \<and> init_task (snd y) = init_task (snd x)"
  using step rep
proof (cases rule: sched_step.cases)
  case (st_create s entry n name s')
  have r: "sched_inv s r zs" "c = current s" "\<not> k" "current s \<notin> set zs" using rep st_create(1) by (simp_all add: represents_def)
  have "entry \<noteq> 0" using st_create(3) by (auto simp: task_create_def)
  then show ?thesis
  proof (rule task_create_spec [OF r(1) _ st_create(4,5)])
    fix t s1 assume t: "task_create s entry n name = Some (Ret s1)" "sched_inv s1 (r @ [t]) zs" "t \<notin> set r \<union> set zs" "t \<noteq> init_task s" "current s1 = current s" "init_task s1 = init_task s"
    then have e: "s1 = s'" using st_create(3) by simp
    have "t \<noteq> 0" using t(2) by (simp add: sched_inv_def is_ring_def)
    with sp_create [OF t(3) this, of "init_task s" c] t r e st_create(1,2) show ?thesis
      by (intro exI [of _ "(r @ [t], zs, c, False)"]) (simp add: represents_def)
  qed (use st_create(3) in simp)
next
  case (st_exit s code u s')
  then have r: "c = current s" "\<not> k" using rep by (simp_all add: represents_def)
  with exit_represents [of s r zs code "Returned u s'"] st_exit rep have "represents (False, s') (r, [], c, False)" "init_task s' = init_task s" by simp_all
  with r sp_reap [of "init_task s" r zs c] st_exit show ?thesis by (intro exI [of _ "(r, [], c, False)"]) simp
next
  case (st_exit_halt s code s')
  then have r: "c = current s" "\<not> k" using rep by (simp_all add: represents_def)
  with exit_represents [of s r zs code "Halted s'"] st_exit_halt rep have
    "represents (True, s') (remove1 c r, [c], c, True)" "init_task s' = init_task s" "c \<in> set r" "c \<noteq> init_task s" by simp_all
  with r sp_retire [of c r "init_task s" zs] st_exit_halt show ?thesis by (intro exI [of _ "(remove1 c r, [c], c, True)"]) simp
next
  case (st_stop s p v s')
  then have r: "c = current s" "\<not> k" using rep by (simp_all add: represents_def)
  with stop_represents [of s r zs p "Returned v s'"] st_stop rep have i: "init_task s' = init_task s" and
    "represents (False, s') (r, [], c, False) \<or>
      (\<exists>t. t \<in> set r \<and> t \<noteq> init_task s \<and> t \<noteq> c \<and> represents (False, s') (remove1 t r, [], c, False))" by simp_all
  then consider "represents (False, s') (r, [], c, False)"
    | t where "t \<in> set r" "t \<noteq> init_task s" "t \<noteq> c" "represents (False, s') (remove1 t r, [], c, False)" by blast
  then show ?thesis
  proof cases
    case 1
    with r i sp_reap [of "init_task s" r zs c] st_stop show ?thesis by (intro exI [of _ "(r, [], c, False)"]) simp
  next
    case 2
    with r i sp_stop [of t r "init_task s" c zs] st_stop show ?thesis by (intro exI [of _ "(remove1 t r, [], c, False)"]) simp
  qed
next
  case (st_stop_halt s p s')
  then have r: "c = current s" "\<not> k" using rep by (simp_all add: represents_def)
  with stop_represents [of s r zs p "Halted s'"] st_stop_halt rep have
    "represents (True, s') (remove1 c r, [c], c, True)" "init_task s' = init_task s" "c \<in> set r" "c \<noteq> init_task s" by simp_all
  with r sp_retire [of c r "init_task s" zs] st_stop_halt show ?thesis by (intro exI [of _ "(remove1 c r, [c], c, True)"]) simp
next
  case (st_reap s s')
  have r: "sched_inv s r zs" "c = current s" "\<not> k" "current s \<notin> set zs" using rep st_reap(1) by (simp_all add: represents_def)
  obtain s1 where s1: "reap_zombies s = Some (Ret s1)" "sched_inv s1 r []" "current s1 = current s" "init_task s1 = init_task s"
    using reap_zombies_spec [OF r(1,4)] by metis
  with st_reap r sp_reap [of "init_task s" r zs c] show ?thesis by (intro exI [of _ "(r, [], c, False)"]) (simp add: represents_def)
next
  case (st_irq b s p out s' h)
  then have "k = h" "c = current s" using rep by (simp_all add: represents_def)
  with irq_represents [of h s r zs b p out s'] st_irq rep show ?thesis by simp
qed

lemma init_sched_inv:
  assumes "heap_good (kheap s0)" "init_task s0 \<noteq> 0" "unat (init_task s0) < unat (heap_start_virt (kheap s0))" "\<not> create_lock s0"
    "zombie_list s0 = 0" "scheduler_init stack_end s0 = Ret s"
  shows "represents (False, s) ([init_task s], [], 0, False)" "init_task s = init_task s0"
proof -
  obtain t where s: "s = (upd_task (init_task s0) (\<lambda>_. zero_task\<lparr>pid := 0, state := TASK_RUNNING, task_name := init_name s0, regs := 0, kstack := 0,
                kstack_size := 0, next_task := init_task s0\<rparr>) s0)\<lparr>task_ring := init_task s0, current := 0, next_pid := 1, tss_st := t\<rparr>"
    using assms(6) by (cases "tss_init stack_end (tss_st s0)") (auto simp: scheduler_init_def Let_def upd_task_def)
  show i: "init_task s = init_task s0" by (simp add: s upd_task_def)
  have "sched_inv s [init_task s] []"
    using assms(1-5) by (simp add: i sched_inv_def) (simp add: s upd_task_def is_ring_def zero_task_def keeps_def)
  then show "represents (False, s) ([init_task s], [], 0, False)" by (simp add: represents_def s)
qed

lemma sched_steps_represents:
  assumes "sched_step\<^sup>*\<^sup>* x y" "represents x a"
  shows "\<exists>b. (spec_step (init_task (snd x)))\<^sup>*\<^sup>* a b \<and> represents y b \<and> init_task (snd y) = init_task (snd x)"
  using assms(1)
proof (induction rule: rtranclp_induct)
  case base
  then show ?case using assms(2) by blast
next
  case (step y z)
  then obtain b where b: "(spec_step (init_task (snd x)))\<^sup>*\<^sup>* a b" "represents y b" "init_task (snd y) = init_task (snd x)" by blast
  obtain r zs c k where e: "b = (r, zs, c, k)" by (cases b)
  from sched_step_spec [OF step(2)] b e obtain d where "spec_step (init_task (snd x)) b d" "represents z d" "init_task (snd z) = init_task (snd x)" by metis
  with b(1) show ?case by (meson rtranclp.rtrancl_into_rtrancl)
qed

section \<open>The initial frame\<close>

lemma load_other:
  assumes "\<And>k. k < 8 \<Longrightarrow> 8 \<le> a + of_nat k - b"
  shows "load_u64 (store_u64 mem b w) a = load_u64 mem a"
proof (rule bit_word_eqI)
  fix n :: nat assume n: "n < LENGTH(64)"
  then have "\<not> a + of_nat (n div 8) - b < 8" using assms [of "n div 8"] by (simp add: not_less)
  then show "bit (load_u64 (store_u64 mem b w) a) n = bit (load_u64 mem a) n" using n by (simp add: bit_load_u64 store_u64_def)
qed

lemma unat_eight: "unat (d :: u64) < 22 \<Longrightarrow> unat (8 * d) = 8 * unat d" by (simp add: unat_word_ariths)

lemma slots_apart:
  assumes "i < 22" "j < 22" "i \<noteq> j" "k < 8"
  shows "(8 :: u64) \<le> sp + 8 * i + of_nat k - (sp + 8 * j)"
proof -
  have e: "sp + 8 * i + of_nat k - (sp + 8 * j) = 8 * (i - j) + of_nat k" by (simp add: algebra_simps)
  have k: "unat (of_nat k :: u64) = k" using assms(4) by (simp add: unat_of_nat)
  show ?thesis
  proof (cases "j < i")
    case True
    then have d: "unat (i - j) = unat i - unat j" "unat j < unat i" by (simp_all add: unat_sub_if' word_less_nat_alt)
    have u: "unat i < 22" using assms(1) by (simp add: word_less_nat_alt)
    have m: "unat (8 * (i - j)) = 8 * (unat i - unat j)" using d u unat_eight [of "i - j"] by simp
    then have "unat (8 * (i - j) + of_nat k) = 8 * (unat i - unat j) + k" using k u assms(4) by (simp add: unat_word_ariths(1) m k del: right_diff_distrib_numeral)
    then show ?thesis unfolding e word_le_nat_alt using d(2) by simp
  next
    case False
    then have "i < j" using assms(3) by simp
    then have d: "unat (j - i) = unat j - unat i" "unat i < unat j" by (simp_all add: unat_sub_if' word_less_nat_alt)
    have u: "unat j < 22" using assms(2) by (simp add: word_less_nat_alt)
    have m: "unat (8 * (j - i)) = 8 * (unat j - unat i)" using d u unat_eight [of "j - i"] by simp
    have "8 * (i - j) + of_nat k = of_nat k - 8 * (j - i)" by (simp add: algebra_simps)
    moreover have "unat (of_nat k - x) = 2 ^ 64 + k - unat x" if "8 \<le> unat x" for x :: u64
      using k that assms(4) by (simp add: unat_sub_if' k)
    then have "unat (of_nat k - 8 * (j - i)) = 2 ^ 64 + k - 8 * (unat j - unat i)" using d(2) m by (metis One_nat_def Suc_leI mult_le_mono2 nat_mult_1_right zero_less_diff)
    ultimately have "unat (8 * (i - j) + of_nat k) = 2 ^ 64 + k - 8 * (unat j - unat i)" by (simp only:)
    then show ?thesis unfolding e word_le_nat_alt using d(2) u by simp
  qed
qed

lemma frame_readback:
  "distinct (map fst fr) \<Longrightarrow> \<forall>(i, v) \<in> set fr. i < 22 \<Longrightarrow> (i, v) \<in> set fr \<Longrightarrow>
   load_u64 (fold (\<lambda>(i, v) mem. store_u64 mem (sp + 8 * i) v) fr mem) (sp + 8 * i) = v"
proof (induction fr rule: rev_induct)
  case (snoc x fr)
  obtain j w where x: "x = (j, w)" by (cases x)
  show ?case
  proof (cases "(i, v) = x")
    case True
    then show ?thesis using x by (simp add: load_store)
  next
    case False
    then have iv: "(i, v) \<in> set fr" using snoc.prems(3) by simp
    then have "i \<noteq> j" using snoc.prems(1) x by (auto simp: image_iff)
    moreover have "i < 22" "j < 22" using snoc.prems(2,3) x by auto
    ultimately show ?thesis using snoc.IH snoc.prems(1,2) iv x load_other [OF slots_apart] by simp
  qed
qed simp

lemma aligned_top: "((k AND NOT 0xF) - 8 * 22) AND 0xF = (0 :: u64)"
proof -
  have m: "(0xF :: u64) = mask 4" by (simp add: mask_eq_exp_minus_1)
  have "k AND NOT (mask 4) = push_bit 4 (drop_bit 4 k)" by (rule bit_word_eqI) (auto simp: bit_simps)
  then have "(k AND NOT 0xF) - 8 * 22 = push_bit 4 (drop_bit 4 k - 11)" unfolding m by (simp add: push_bit_eq_mult algebra_simps)
  then show ?thesis unfolding m by (simp add: take_bit_eq_mask [symmetric] take_bit_push_bit)
qed

lemma rbind_Ret_iff: "rbind m f = Some (Ret y) \<longleftrightarrow> (\<exists>x. m = Some (Ret x) \<and> f x = Some (Ret y))"
  by (cases m) (auto simp: rbind_def split: outcome.splits)

lemma heap_keeps_lock:
  "heap_call f s = Some (Ret (x, s')) \<Longrightarrow> ucreate_lock s' = ucreate_lock s"
  "heap_free p s = Ret s' \<Longrightarrow> ucreate_lock s' = ucreate_lock s"
  by (auto simp: heap_call_def rbind_Ret_iff heap_free_def obind_Ret_iff)

lemma utask_create_keeps_lock:
  "utask_create s entry n umem umem_size argc argv name = Some (Ret (v, s')) \<Longrightarrow> ucreate_lock s'"
  unfolding utask_create_def
  by (auto simp: spinlock_lock_def rbind_Ret_iff obind_Ret_iff Let_def upd_task_def cli_def sti_def case_prod_beta split: if_splits
      dest!: heap_keeps_lock)

section \<open>Properties\<close>


definition sched0 :: sched_t where
  "sched0 = \<lparr>tasks = (\<lambda>_. zero_task), task_ring = 0, current = 0, next_pid = 0, zombie_list = 0, need_reschedule = False,
     g_syscall_kstack_top = 0, create_lock = False, ucreate_lock = False, int_enabled = False, tss_st = sample_tss, kheap = heap1,
     init_task = 0x8000, init_task_stack = 0x9000, init_name = 0x7000\<rparr>"

definition sched1 :: sched_t where "sched1 = (case scheduler_init 0x120000 sched0 of Ret s \<Rightarrow> s)"

definition sched2 :: sched_t where
  "sched2 = (case schedule_from_isr (sched1\<lparr>need_reschedule := False\<rparr>) 0x9100 of Some (Ret (out, s)) \<Rightarrow> s)"

lemma heap1_start: "heap_start_virt heap1 = 0x100000"
  by (simp add: heap1_def malloc_init_def Let_def sample_heap_def upd_hdr_def)

lemma sched0_init: "heap_good (kheap sched0)" "init_task sched0 \<noteq> 0" "unat (init_task sched0) < unat (heap_start_virt (kheap sched0))"
    "\<not> create_lock sched0" "zombie_list sched0 = 0" "scheduler_init 0x120000 sched0 = Ret sched1"
  by (simp_all add: sched0_def heap1_good heap1_start sched1_def scheduler_init_def Let_def tss_init_def sample_tss_def upd_task_def)

lemma sched1_isr: "schedule_from_isr (sched1\<lparr>need_reschedule := False\<rparr>) 0x9100 = Some (Ret (0x9100, sched2))" "current sched2 = 0x8000"
  by (simp_all add: sched2_def sched1_def sched0_def scheduler_init_def Let_def tss_init_def sample_tss_def schedule_from_isr_def upd_task_def)

lemma sched1_steps: "sched_step\<^sup>*\<^sup>* (False, sched1) (False, sched2)"
proof -
  have "sched_step (False, sched1) (False \<and> current sched2 = current sched1, sched2)" by (rule st_irq [OF sched1_isr(1)]) simp
  then show ?thesis by simp
qed




text \<open>C9 (functional). With \<open>c\<close> the current task, in front of \<open>ys\<close> and behind \<open>xs\<close> on the ring, an interrupt that asks for a new
  selection continues the first runnable task of \<open>ys\<close>, \<open>xs\<close> and \<open>c\<close> itself: it returns that task's saved frame, marks it running, and
  points the kernel stack of the TSS at its stack, and \<open>c\<close> keeps its own frame and becomes ready if it was running.\<close>

theorem isr_switches:
  assumes ring: "is_ring (tasks s) (task_ring s) (xs @ c # ys)" and c: "c = current s"
    and sel: "find (\<lambda>t. runnable (state (tasks s t))) (ys @ xs @ [c]) = Some n" "need_reschedule s" and p: "p \<noteq> 0"
  shows "\<exists>s'. schedule_from_isr s p = Some (Ret (if n = c then p else regs (tasks s n), s')) \<and> current s' = n \<and>
    state (tasks s' n) = TASK_RUNNING \<and> regs (tasks s' c) = p \<and> g_syscall_kstack_top s' = kstack (tasks s n) + kstack_size (tasks s n) \<and>
    tss_st s' = tss_update_rsp0 (kstack (tasks s n) + kstack_size (tasks s n)) (tss_st s) \<and>
    (c \<noteq> n \<longrightarrow> state (tasks s' c) = (if state (tasks s c) = TASK_RUNNING then TASK_READY else state (tasks s c))) \<and>
    (\<forall>u. u \<noteq> c \<longrightarrow> u \<noteq> n \<longrightarrow> tasks s' u = tasks s u)"
proof -
  let ?r = "xs @ c # ys"
  have on: "on_ring s ?r" using ring c by (simp add: on_ring_def)
  note fr = on_ring_from [OF on]
  obtain xs' ys' where e: "?r = xs' @ c # ys'" "rot ?r (next_task (tasks s c)) = ys' @ xs' @ [c]" using next_in_ring [OF ring] by (metis in_set_conv_decomp)
  have "c \<notin> set xs" "c \<notin> set ys" using ring by (auto simp: is_ring_def)
  then have "xs' = xs" "ys' = ys" using e(1) append_Cons_eq_iff [of c xs ys xs' ys'] by auto
  then have w: "rot ?r (from_task s) = ys @ xs @ [c]" using e(2) fr(2) c by simp
  have "n \<in> set ?r" using sel(1) by (auto simp: find_Some_iff nth_append split: if_splits)
  then have n0: "n \<noteq> 0" using ring by (auto simp: is_ring_def)
  have "selected (tasks s) (ys @ xs @ [c]) = n" using sel(1) by (simp add: selected_def ready_def [abs_def])
  then have n: "(let n = selected (tasks s) (rot ?r (from_task s)) in if n = 0 \<or> \<not> need_reschedule s then current s else n) = n"
    using n0 sel(2) w by simp
  obtain s' where s': "schedule_from_isr s p = Some (Ret (regs (tasks s' n), s'))" "tasks s' = switched (tasks s) (current s) p n" "current s' = n"
    "g_syscall_kstack_top s' = kstack (tasks s' n) + kstack_size (tasks s' n)" "tss_st s' = tss_update_rsp0 (g_syscall_kstack_top s') (tss_st s)"
    by (rule schedule_from_isr_ring [OF ring fr(1,3) p, unfolded n]) blast
  then show ?thesis using c by (intro exI [of _ s']) (simp add: switched_def Let_def)
qed

definition sched_pair :: sched_t where
  "sched_pair = sched0\<lparr>tasks := (\<lambda>_. zero_task)(1 := zero_task\<lparr>next_task := 2\<rparr>, 2 := zero_task\<lparr>next_task := 1, state := TASK_READY, regs := 0x77,
     kstack := 0x2000, kstack_size := 0x1000\<rparr>), task_ring := 2, current := 1, need_reschedule := True\<rparr>"

theorem isr_switches_witness:
  "\<exists>s'. schedule_from_isr sched_pair 0x55 = Some (Ret (0x77, s')) \<and> current s' = 2 \<and> g_syscall_kstack_top s' = 0x3000 \<and> state (tasks s' 1) = TASK_READY"
proof -
  have "is_ring (tasks sched_pair) (task_ring sched_pair) ([] @ 1 # [2])" by (simp add: is_ring_def sched_pair_def)
  moreover have "1 = current sched_pair" "need_reschedule sched_pair" "find (\<lambda>t. runnable (state (tasks sched_pair t))) ([2] @ [] @ [1]) = Some 2"
    by (simp_all add: sched_pair_def runnable_def)
  ultimately have "\<exists>s'. schedule_from_isr sched_pair 0x55 = Some (Ret (if 2 = (1 :: ptr) then 0x55 else regs (tasks sched_pair 2), s')) \<and> current s' = 2 \<and>
      g_syscall_kstack_top s' = kstack (tasks sched_pair 2) + kstack_size (tasks sched_pair 2) \<and>
      (1 \<noteq> (2 :: ptr) \<longrightarrow> state (tasks s' 1) = (if state (tasks sched_pair 1) = TASK_RUNNING then TASK_READY else state (tasks sched_pair 1)))"
    using isr_switches [of sched_pair "[]" 1 "[2]" 2 "0x55"] by auto
  then show ?thesis by (simp add: sched_pair_def zero_task_def)
qed

text \<open>C22 (functional). The stack of a new task holds, from an address that is a multiple of 16 upwards, the frame the interrupt return
  pops: general registers 0 but for the arguments, the entry point as \<^verbatim>\<open>rip\<close>, the code and stack segments of its privilege level,
  interrupts enabled in \<^verbatim>\<open>rflags\<close>, and its stack pointer.\<close>

theorem initial_frame:
  assumes "prepare_initial_stack mem entry kstack_top user_stack_top argc argv user_mode = (sp, mem')"
  shows "sp AND 0xF = 0 \<and> map (\<lambda>i. load_u64 mem' (sp + 8 * i)) [0, 1, 2, 3, 4, 5, 6, 7, 8, 9, 10, 11, 12, 13, 14, 15, 16, 17, 18, 19, 20, 21] =
    [32, 0, 0, 0, 0, 0, 0, 0, 0, 0, scast argc, argv, 0, 0, 0, 0, 0, entry] @
    (if user_mode then [USER_CS, 0x202, user_stack_top, USER_SS] else [0x08, 0x202, kstack_top, 0x10])"
proof -
  define frame where "frame = [(0, 32), (1, 0), (2, 0), (3, 0), (4, 0), (5, 0), (6, 0), (7, 0), (8, 0), (9, 0),
            (10, scast argc), (11, argv), (12, 0), (13, 0), (14, 0), (15, 0), (16, 0), (17, entry), (19 :: u64, 0x202 :: u64)] @
            (if user_mode then [(18, USER_CS), (20, user_stack_top), (21, USER_SS)]
             else [(18, 0x08), (20, kstack_top), (21, 0x10)])"
  have "(let sp = (kstack_top AND NOT 0xF) - 8 * 22 in (sp, fold (\<lambda>(i, v) mem. store_u64 mem (sp + 8 * i) v) frame mem)) = (sp, mem')"
    using assms unfolding prepare_initial_stack_def Let_def frame_def .
  then have e: "sp = (kstack_top AND NOT 0xF) - 8 * 22" "mem' = fold (\<lambda>(i, v) mem. store_u64 mem (sp + 8 * i) v) frame mem"
    unfolding Let_def prod.inject by blast+
  have rd: "load_u64 mem' (sp + 8 * i) = v" if "(i, v) \<in> set frame" for i v
    unfolding e(2) by (rule frame_readback [OF _ _ that]) (simp_all add: frame_def)
  let ?ix = "[0, 1, 2, 3, 4, 5, 6, 7, 8, 9, 10, 11, 12, 13, 14, 15, 16, 17, 18, 19, 20, 21 :: u64]"
  have "load_u64 mem' (sp + 8 * i) = the (map_of frame i)" if "i \<in> set ?ix" for i
  proof -
    have "map_of frame i \<noteq> None" using that by (auto simp: frame_def)
    then show ?thesis using rd map_of_SomeD by fastforce
  qed
  then have "map (\<lambda>i. load_u64 mem' (sp + 8 * i)) ?ix = map (\<lambda>i. the (map_of frame i)) ?ix" by (intro map_cong refl) blast
  also have "\<dots> = [32, 0, 0, 0, 0, 0, 0, 0, 0, 0, scast argc, argv, 0, 0, 0, 0, 0, entry] @
      (if user_mode then [USER_CS, 0x202, user_stack_top, USER_SS] else [0x08, 0x202, kstack_top, 0x10])"
    by (simp add: frame_def)
  finally show ?thesis using aligned_top e(1) by simp
qed

theorem initial_frame_witness:
  "\<exists>sp mem'. prepare_initial_stack (\<lambda>_. 7) 0x4000 0x9008 0x9008 0 0 False = (sp, mem') \<and> sp AND 0xF = 0 \<and>
     load_u64 mem' (sp + 8 * 17) = 0x4000 \<and> load_u64 mem' (sp + 8 * 20) = 0x9008"
proof -
  obtain sp mem' where e: "prepare_initial_stack (\<lambda>_. 7) 0x4000 0x9008 0x9008 0 0 False = (sp, mem')" by fastforce
  from initial_frame [OF e] show ?thesis unfolding list.map append.simps if_False list.inject using e by blast
qed

text \<open>C16 (error). \<^verbatim>\<open>utask_create\<close> keeps its lock: after one call has come back, with a task or without one, no later call does.\<close>

theorem utask_create_once:
  assumes "utask_create s entry n umem umem_size argc argv name = Some (Ret (v, s'))"
  shows "utask_create s' entry' n' umem' umem_size' argc' argv' name' = None"
  by (simp add: utask_create_def spinlock_lock_def utask_create_keeps_lock [OF assms])

definition unpaged :: heap_t where "unpaged = heap1\<lparr>hp_pg := sample_paging\<lparr>kernel_pml4 := 0\<rparr>\<rparr>"

lemma free_addrs: "heap_good h \<Longrightarrow> unat p \<in> addrs h \<Longrightarrow> \<exists>h'. free h p = Ret h' \<and> heap_good h' \<and> addrs h' = addrs h - {unat p}"
proof -
  assume "heap_good h" "unat p \<in> addrs h"
  then have s: "heap_good (kheap (sched0\<lparr>kheap := h\<rparr>))" "unat p \<in> addrs (kheap (sched0\<lparr>kheap := h\<rparr>))" by simp_all
  obtain h' where "heap_free p (sched0\<lparr>kheap := h\<rparr>) = Ret (sched0\<lparr>kheap := h, kheap := h'\<rparr>)" "heap_good h'"
    "addrs h' = addrs (kheap (sched0\<lparr>kheap := h\<rparr>)) - {unat p}" "heap_start_virt h' = heap_start_virt (kheap (sched0\<lparr>kheap := h\<rparr>))"
    using heap_free_addrs [OF s] .
  moreover from this(1) have "free h p = Ret h'"
    by (cases "free h p") (auto simp: heap_free_def dest: arg_cong [of _ _ kheap])
  ultimately show ?thesis by simp
qed

lemma split_block_pg: "hp_pg (split_block h b n) = hp_pg h" by (simp add: split_block_def upd_hdr_def Let_def)

lemma unpaged_run:
  "\<exists>s'. utask_create (sched0\<lparr>kheap := unpaged\<rparr>) 0x4000 64 0x400000 0x1000 0 0 0 = Some (Ret (0, s'))"
proof -
  have ok: "heap_ok unpaged 0x100000 [(4056, True)]" using heap1_ok by (simp add: unpaged_def heap_ok_def)
  then have g: "heap_good unpaged" by (auto simp: heap_good_def)
  define h1 where "h1 = take_block unpaged 0x100000 376"
  have m1: "malloc unpaged 376 = Some (Ret (0x100028, h1))" "heap_ok h1 0x100000 [(376, False), (3640, True)]"
    using malloc_fit [OF ok, of 376] 
    by (simp_all add: rounded_def fits_def prefix_of_fit_def block_addr_def header_to_payload_def h1_def place_def cut_def)
  define h2 where "h2 = take_block h1 0x1001A0 64"
  have m2: "malloc h1 64 = Some (Ret (0x1001C8, h2))"
    using malloc_fit(1) [OF m1(2), of 64]
    by (simp add: rounded_def fits_def prefix_of_fit_def block_addr_def header_to_payload_def h2_def)
  have g1: "grows unpaged h1 0x100028"
  proof (rule malloc_grows [OF g, of 376])
    fix q h assume "malloc unpaged 376 = Some (Ret (q, h))" "grows unpaged h q"
    with m1(1) show ?thesis by simp
  qed (use m1(1) in simp_all)
  then have "heap_good h1" by (simp add: grows_def)
  have g2: "grows h1 h2 0x1001C8"
  proof (rule malloc_grows [OF \<open>heap_good h1\<close>, of 64])
    fix q h assume "malloc h1 64 = Some (Ret (q, h))" "grows h1 h q"
    with m2 show ?thesis by simp
  qed (use m2 in simp_all)
  have pg: "kernel_pml4 (hp_pg h2) = 0" by (simp add: h2_def h1_def unpaged_def take_block_def upd_hdr_def split_block_pg)
  have a: "heap_good h2" "unat (0x1001C8 :: u64) \<in> addrs h2" "unat (0x100028 :: u64) \<in> addrs h2"
    using g2 grows_addrs [OF g1] grows_addrs [OF g2] by (simp_all add: grows_def)
  obtain h3 where h3: "free h2 0x1001C8 = Ret h3" "heap_good h3" "addrs h3 = addrs h2 - {unat (0x1001C8 :: u64)}"
    using free_addrs [OF a(1,2)] by blast
  have "unat (0x100028 :: u64) \<in> addrs h3" using a(3) h3(3) by simp
  then obtain h4 where h4: "free h3 0x100028 = Ret h4" using free_addrs [OF h3(2)] by blast
  show ?thesis using m1(1) m2 pg h3(1) h4
    by (simp add: utask_create_def spinlock_lock_def heap_call_def heap_free_def Let_def strdup_def paging_create_user_task_def) (simp add: sched0_def)
qed

theorem utask_create_once_witness:
  "\<exists>s'. utask_create (sched0\<lparr>kheap := unpaged\<rparr>) 0x4000 64 0x400000 0x1000 0 0 0 = Some (Ret (0, s')) \<and>
     utask_create s' 0x4000 64 0x400000 0x1000 0 0 0 = None"
  using unpaged_run utask_create_once by blast

end
