(* ===== verification/KTimer.thy ===== *)
theory KTimer
  imports KTime KSched
begin

text \<open>
  The local APIC timer, \<^verbatim>\<open>src/kernel/time/timer.c\<close>, with the interrupt entry of \<^verbatim>\<open>src/kernel/time/timer_isr.asm\<close>: calibration over the
  counter readings the hardware delivers, the choice of the initial count, the interrupt handler that drives the software clock and asks
  for preemption, and its composition with the scheduler. Port and APIC register writes have no effect on the state the kernel keeps;
  what the hardware answers (counter values, time stamps) is an argument of the definitions.
\<close>

section \<open>State\<close>

record timer_t =
  g_ticks :: u64
  period :: u32
  tsc_khz :: u32
  apic_bus_khz :: u32
  init_count :: u32
  calibrated :: bool
  seconds :: u32
  preempt_counter :: u32
  last_cursor :: u32
  cursor_updates :: nat
  clock :: ClockTime

abbreviation (input) PIT_BASE_FREQ :: "'a::len word" where "PIT_BASE_FREQ \<equiv> 1193180"
abbreviation (input) PIT_MAX_COUNT :: "'a::len word" where "PIT_MAX_COUNT \<equiv> 0xFFFF"
abbreviation (input) APIC_DIVISOR :: "'a::len word" where "APIC_DIVISOR \<equiv> 16"

section \<open>Calibration\<close>

text \<open>The readings of the counter are a list, in the order in which the loop asks for them.\<close>

fun read_verified :: "nat \<Rightarrow> u16 list \<Rightarrow> (u16 \<times> u16 list) option" where
  "read_verified attempts (val1 # val2 # rest) =
     (let attempts = attempts + 1 in
      if attempts > 10 then Some (val1, rest)
      else if unat val1 > unat val2 + 10 \<or> unat val2 > unat val1 + 10 then read_verified attempts rest
      else Some (of_nat ((unat val1 + unat val2) div 2), rest))"
| "read_verified attempts _ = None"

definition pit_read_counter_verified :: "u16 list \<Rightarrow> (u16 \<times> u16 list) option" where
  "pit_read_counter_verified readings = read_verified 0 readings"

lemma read_verified_shorter: "read_verified n rs = Some (v, rest) \<Longrightarrow> length rest < length rs"
  by (induction n rs rule: read_verified.induct) (fastforce simp: Let_def split: if_splits)+

function pit_countdown :: "u16 \<Rightarrow> nat \<Rightarrow> u16 list \<Rightarrow> (u16 \<times> nat) option" where
  "pit_countdown prev_count stall_count readings =
     (case pit_read_counter_verified readings of None \<Rightarrow> None | Some (curr_count, rest) \<Rightarrow>
        if curr_count > prev_count then Some (curr_count, stall_count)
        else let stall_count = stall_count + 1 in
          if stall_count > 1000000 then Some (curr_count, stall_count)
          else if curr_count > 0 then pit_countdown curr_count stall_count rest
          else Some (curr_count, stall_count))"
  by pat_completeness auto
termination
  by (relation "measure (\<lambda>(p, n, rs). length rs)") (auto simp: pit_read_counter_verified_def dest: read_verified_shorter)

declare pit_countdown.simps [simp del]

text \<open>One measurement: the counter readings, which reach the end of a countdown, and the time stamps around the loop.\<close>

record tsc_sample =
  counts :: "u16 list"
  ts_start :: u64
  ts_end :: u64

definition tsc_measure :: "u64 \<times> u32 \<Rightarrow> tsc_sample \<Rightarrow> u64 \<times> u32" where
  "tsc_measure acc m =
     (case pit_countdown PIT_MAX_COUNT 0 (counts m) of
        None \<Rightarrow> acc
      | Some (curr_count, stall_count) \<Rightarrow>
          if curr_count = 0 \<or> stall_count < 1000000 then
            (let tsc_elapsed = ts_end m - ts_start m;
                 freq = (tsc_elapsed * PIT_BASE_FREQ) div PIT_MAX_COUNT
             in if freq > 100000000 \<and> freq < 10000000000 then (fst acc + freq, snd acc + 1) else acc)
          else acc)"

definition timer_tsc_calibrate_precise :: "tsc_sample list \<Rightarrow> u32" where
  "timer_tsc_calibrate_precise ms =
     (let (total_tsc, valid_measurements) = foldl tsc_measure (0, 0) ms
      in if valid_measurements = 0 then 2000000
         else ucast (total_tsc div ucast valid_measurements div 1000))"

record apic_sample =
  apic_start :: u32
  apic_end :: u32
  at_start :: u64
  at_end :: u64

function stretch_ticks :: "u64 \<Rightarrow> u64 \<Rightarrow> u64 \<Rightarrow> u64" where
  "stretch_ticks est_freq expected_apic_ticks expected_ms =
     (if est_freq < 1000000 \<and> expected_apic_ticks < 0x200000000 then
        (let expected_apic_ticks = expected_apic_ticks + 0x100000000
         in stretch_ticks (expected_apic_ticks * 1000 div expected_ms) expected_apic_ticks expected_ms)
      else expected_apic_ticks)"
  by pat_completeness auto
termination
proof (relation "measure (\<lambda>(e, x, m). 0x400000000 - unat x)")
  fix e x m y :: u64 assume c: "e < 1000000 \<and> x < 0x200000000" and y: "y = x + 0x100000000"
  then have "unat x < 0x200000000" by (simp add: word_less_nat_alt)
  then have "unat y = unat x + 0x100000000" unfolding y by (subst unat_add_lem [THEN iffD1]) simp_all
  then show "((y * 1000 div m, y, m), e, x, m) \<in> measure (\<lambda>(e, x, m). 0x400000000 - unat x)"
    using \<open>unat x < 0x200000000\<close> by simp
qed simp

declare stretch_ticks.simps [simp del]

definition apic_measure :: "u32 \<Rightarrow> u32 \<Rightarrow> u32 \<times> u32 \<Rightarrow> apic_sample \<Rightarrow> u32 \<times> u32" where
  "apic_measure khz expected_ms acc m =
     (let apic_elapsed = (if apic_start m \<ge> apic_end m then apic_start m - apic_end m
                          else (0xFFFFFFFF - apic_end m) + apic_start m + 1);
          tsc_elapsed = at_end m - at_start m;
          apic_elapsed =
            (if tsc_elapsed > ucast khz * ucast expected_ms * 2 then
               ucast (stretch_ticks (ucast apic_elapsed * 1000 div ucast expected_ms) (ucast apic_elapsed) (ucast expected_ms))
             else apic_elapsed)
      in if apic_elapsed > 1000 \<and> apic_elapsed < 0x20000000 then (fst acc + apic_elapsed, snd acc + 1) else acc)"

definition timer_apic_calibrate_with_tsc :: "u32 \<Rightarrow> u32 \<Rightarrow> apic_sample list \<Rightarrow> u32" where
  "timer_apic_calibrate_with_tsc khz expected_ms ms =
     (let (total_apic_ticks, valid_measurements) = foldl (apic_measure khz expected_ms) (0, 0) ms
      in if valid_measurements = 0 then 0
         else let avg_apic_ticks = total_apic_ticks div valid_measurements
           in (avg_apic_ticks * APIC_DIVISOR * 1000) div expected_ms)"

definition timer_verify_calibration :: "timer_t \<Rightarrow> u64 \<Rightarrow> bool" where
  "timer_verify_calibration t elapsed_ticks =
     (if period t = 0 then False
      else let test_hz = (1000 :: u32);
               init_val = (ucast ((ucast (period t) :: u64) div (ucast test_hz * APIC_DIVISOR)) :: u32)
      in if init_val < 2 then False
         else let expected_ticks = test_hz div 20;
                  min_ticks = expected_ticks * 95 div 100;
                  max_ticks = expected_ticks * 105 div 100
           in elapsed_ticks \<ge> ucast min_ticks \<and> elapsed_ticks \<le> ucast max_ticks)"

section \<open>Initialisation\<close>

definition try_calibrate :: "u32 \<Rightarrow> (u32 \<Rightarrow> apic_sample list) \<Rightarrow> u32" where
  "try_calibrate khz ms =
     (let p = timer_apic_calibrate_with_tsc khz 50 (ms 50) in if p > 0 then p
      else let p = timer_apic_calibrate_with_tsc khz 100 (ms 100) in if p > 0 then p
      else timer_apic_calibrate_with_tsc khz 200 (ms 200))"

definition timer_apic_init :: "timer_t \<Rightarrow> u32 \<Rightarrow> tsc_sample list \<Rightarrow> (u32 \<Rightarrow> apic_sample list) \<Rightarrow> timer_t" where
  "timer_apic_init t desired_freq tsc_ms apic_ms =
     (let desired_freq = (if desired_freq = 0 then 1000 else desired_freq);
          t = t\<lparr>tsc_khz := timer_tsc_calibrate_precise tsc_ms\<rparr>;
          p = try_calibrate (tsc_khz t) apic_ms;
          t = (if p = 0 then t\<lparr>period := 2000000, calibrated := False\<rparr> else t\<lparr>period := p, calibrated := True\<rparr>);
          t = t\<lparr>apic_bus_khz := ucast ((ucast (period t) :: u64) * 1000 div APIC_DIVISOR div 1000)\<rparr>;
          divisor = (ucast desired_freq * APIC_DIVISOR :: u64);
          init_value = (if divisor = 0 then 0xFFFFFFFF
                        else let temp = ucast (period t) div divisor
                             in if temp > 0xFFFFFFFF then 0xFFFFFFFF else ucast temp);
          init_value = (if init_value < 2 then 2 else init_value)
      in t\<lparr>init_count := init_value\<rparr>)"

section \<open>The interrupt\<close>

definition timer_apic_handler :: "timer_t \<times> sched_t \<Rightarrow> timer_t \<times> sched_t" where
  "timer_apic_handler ts =
     (let (t, s) = ts;
          t = t\<lparr>g_ticks := g_ticks t + 1\<rparr>;
          t = (if g_ticks t \<ge> 1000 then t\<lparr>g_ticks := 0, seconds := seconds t + 1, clock := clock_tick (clock t)\<rparr> else t);
          t = t\<lparr>preempt_counter := preempt_counter t + 1\<rparr>;
          (t, s) = (if preempt_counter t \<ge> 10 then (t\<lparr>preempt_counter := 0\<rparr>, s\<lparr>need_reschedule := True\<rparr>) else (t, s));
          t = (if g_ticks t - ucast (last_cursor t) \<ge> 500
               then t\<lparr>last_cursor := ucast (g_ticks t), cursor_updates := cursor_updates t + 1\<rparr> else t)
      in (t, s))"

text \<open>The assembler entry: \<open>frame\<close> is where the registers of the interrupted task were pushed, the result where they are popped from.\<close>

definition timer_isr :: "timer_t \<times> sched_t \<Rightarrow> ptr \<Rightarrow> (ptr \<times> timer_t \<times> sched_t) outcome option" where
  "timer_isr ts frame =
     (let (t, s) = timer_apic_handler ts
      in if \<not> need_reschedule s then Some (Ret (frame, t, s))
         else rbind (schedule_from_isr s frame) (\<lambda>(out, s). Some (Ret (out, t, s))))"

section \<open>Queries\<close>

definition timer_apic_ticks :: "timer_t \<Rightarrow> u64" where "timer_apic_ticks t = g_ticks t"
definition timer_apic_freq :: "timer_t \<Rightarrow> u32" where "timer_apic_freq t = apic_bus_khz t * 1000"

definition timer_apic_current_freq :: "timer_t \<Rightarrow> u32" where
  "timer_apic_current_freq t =
     (if init_count t = 0 then 0
      else let freq = (ucast (period t) :: u64) div (ucast (init_count t) * APIC_DIVISOR)
           in if freq > 0xFFFFFFFF then 0xFFFFFFFF else ucast freq)"

definition timer_apic_ms :: "timer_t \<Rightarrow> u32" where
  "timer_apic_ms t =
     (let current_freq = timer_apic_current_freq t
      in if current_freq = 0 then 0 else ucast (g_ticks t * 1000 div ucast current_freq))"

definition timer_apic_ticks_per_ms :: "timer_t \<Rightarrow> u32" where "timer_apic_ticks_per_ms t = apic_bus_khz t"
definition timer_tsc_freq :: "timer_t \<Rightarrow> u64" where "timer_tsc_freq t = ucast (tsc_khz t) * 1000"

section \<open>Counting\<close>

text \<open>A sequence of interrupts, each with the frame it pushes.\<close>

fun isrs :: "ptr list \<Rightarrow> timer_t \<times> sched_t \<Rightarrow> (timer_t \<times> sched_t) option" where
  "isrs [] ts = Some ts"
| "isrs (p # ps) ts = (case timer_isr ts p of Some (Ret (out, t, s)) \<Rightarrow> isrs ps (t, s) | _ \<Rightarrow> None)"

lemma handler_fields:
  assumes "timer_apic_handler (t, s) = (t', s')"
  shows "g_ticks t' = (if g_ticks t + 1 \<ge> 1000 then 0 else g_ticks t + 1)"
    "seconds t' = (if g_ticks t + 1 \<ge> 1000 then seconds t + 1 else seconds t)"
    "clock t' = (if g_ticks t + 1 \<ge> 1000 then clock_tick (clock t) else clock t)"
    "preempt_counter t' = (if preempt_counter t + 1 \<ge> 10 then 0 else preempt_counter t + 1)"
    "s' = (if preempt_counter t + 1 \<ge> 10 then s\<lparr>need_reschedule := True\<rparr> else s)"
  using assms by (auto simp: timer_apic_handler_def Let_def split: if_splits)

text \<open>The frames of the interrupts that ask for a new selection, with \<open>c\<close> the preemption counter before the first.\<close>

fun due :: "nat \<Rightarrow> 'a list \<Rightarrow> 'a list" where
  "due c [] = []"
| "due c (p # ps) = (if c + 1 \<ge> 10 then p # due 0 ps else due (c + 1) ps)"

lemma due_take: "c < 10 \<Longrightarrow> due c (take (10 * j - c) ps) = take j (due c ps)"
proof (induction ps arbitrary: c j)
  case (Cons p ps)
  show ?case
  proof (cases j)
    case (Suc i)
    then have "10 * j - c = Suc (10 * j - (c + 1))" using Cons.prems by simp
    then have t: "take (10 * j - c) (p # ps) = p # take (10 * j - (c + 1)) ps" by (simp only: take_Suc_Cons)
    show ?thesis
    proof (cases "c = 9")
      case True
      then have "10 * j - (c + 1) = 10 * i - 0" using Suc by simp
      then show ?thesis using t Cons.IH [of 0 i] True Suc by simp
    next
      case False
      then show ?thesis using t Cons.IH [of "c + 1" j] Cons.prems by simp
    qed
  qed simp
qed simp

lemma due_length: "c < 10 \<Longrightarrow> length (due c ps) = (c + length ps) div 10"
proof (induction ps arbitrary: c)
  case (Cons p ps)
  then show ?case using Cons.IH [of 0] Cons.IH [of "c + 1"] by auto
qed simp

lemma due_set: "set (due c ps) \<subseteq> set ps"
proof (induction ps arbitrary: c)
  case (Cons p ps)
  from Cons.IH [of 0] Cons.IH [of "c + 1"] show ?case by auto
qed simp

lemma preempt_step:
  assumes "unat (preempt_counter t) = c" "c < 10"
  shows "preempt_counter t + 1 \<ge> 10 \<longleftrightarrow> c = 9" "c \<noteq> 9 \<Longrightarrow> unat (preempt_counter t + 1) = c + 1"
proof -
  have u: "unat (preempt_counter t + 1) = c + 1" using assms by (simp add: unat_word_ariths)
  then show "preempt_counter t + 1 \<ge> 10 \<longleftrightarrow> c = 9" using assms(2) by (auto simp: word_le_nat_alt)
  show "c \<noteq> 9 \<Longrightarrow> unat (preempt_counter t + 1) = c + 1" by (rule u)
qed

lemma schedule_resets: "schedule_from_isr s p = Some (Ret (out, s')) \<Longrightarrow> need_reschedule s \<Longrightarrow> \<not> need_reschedule s'"
  by (auto simp: schedule_from_isr_def Let_def upd_task_def bind_eq_Some_conv split: if_splits option.splits)

text \<open>The interrupts behave as the reschedules that are due: between two of them the scheduler is left alone.\<close>

lemma isrs_due:
  assumes "unat (preempt_counter t) = c" "c < 10" "\<not> need_reschedule s"
    and "due c ps = [] \<and> s' = s \<or> (\<exists>out. due c ps \<noteq> [] \<and> ticks (due c ps) s = Some (out, s'))"
  shows "\<exists>t'. isrs ps (t, s) = Some (t', s')"
  using assms
proof (induction ps arbitrary: t s c)
  case (Cons p ps)
  obtain t1 s1 where h: "timer_apic_handler (t, s) = (t1, s1)" by fastforce
  note f = handler_fields [OF h] and st = preempt_step [OF Cons.prems(1,2)]
  show ?case
  proof (cases "c = 9")
    case False
    then have "s1 = s" "unat (preempt_counter t1) = c + 1" using f(4,5) st by simp_all
    with Cons.IH [of t1 "c + 1" s] Cons.prems False h show ?thesis by (simp add: timer_isr_def)
  next
    case True
    then have s1: "s1 = s\<lparr>need_reschedule := True\<rparr>" "unat (preempt_counter t1) = 0" using f(4,5) st by simp_all
    then obtain out s2 where s2: "schedule_from_isr s1 p = Some (Ret (out, s2))"
      "due 0 ps = [] \<and> s' = s2 \<or> (\<exists>out. due 0 ps \<noteq> [] \<and> ticks (due 0 ps) s2 = Some (out, s'))"
      using Cons.prems(4) True by (auto split: option.splits outcome.splits if_splits)
    have "\<not> need_reschedule s2" using schedule_resets [OF s2(1)] s1 by simp
    with Cons.IH [of t1 0 s2] s1(2) s2 h show ?thesis by (simp add: timer_isr_def s1(1))
  qed
qed simp

text \<open>The counters after \<open>n\<close> interrupts.\<close>

lemma isr_counts:
  assumes "timer_isr (t, s) p = Some (Ret (out, t', s'))" "unat (g_ticks t) < 1000"
  shows "unat (g_ticks t') = (unat (g_ticks t) + 1) mod 1000" "seconds t' = seconds t + of_nat ((unat (g_ticks t) + 1) div 1000)"
    "clock t' = (clock_tick ^^ ((unat (g_ticks t) + 1) div 1000)) (clock t)"
proof -
  obtain t1 s1 where h: "timer_apic_handler (t, s) = (t1, s1)" by fastforce
  have "t' = t1" using assms(1) h by (cases "schedule_from_isr s1 p") (auto simp: timer_isr_def rbind_Ret_iff split: if_splits)
  note f = handler_fields [OF h, folded this]
  have u: "unat (g_ticks t + 1) = unat (g_ticks t) + 1" using assms(2) by (simp add: unat_word_ariths)
  show "unat (g_ticks t') = (unat (g_ticks t) + 1) mod 1000" "seconds t' = seconds t + of_nat ((unat (g_ticks t) + 1) div 1000)"
    "clock t' = (clock_tick ^^ ((unat (g_ticks t) + 1) div 1000)) (clock t)"
  proof -
    show "unat (g_ticks t') = (unat (g_ticks t) + 1) mod 1000"
      using f(1) u assms(2) by (cases "unat (g_ticks t) = 999") (simp_all add: word_le_nat_alt)
    show "seconds t' = seconds t + of_nat ((unat (g_ticks t) + 1) div 1000)"
      using f(2) u assms(2) by (cases "unat (g_ticks t) = 999") (simp_all add: word_le_nat_alt)
    show "clock t' = (clock_tick ^^ ((unat (g_ticks t) + 1) div 1000)) (clock t)"
      using f(3) u assms(2) by (cases "unat (g_ticks t) = 999") (simp_all add: word_le_nat_alt)
  qed
qed

section \<open>Properties\<close>

text \<open>C7 (liveness). A task on the ring that is ready runs soon: whatever task is current and whatever frames the interrupts push, it is
  the current task after at most ten timer interrupts for every task on the ring.\<close>

theorem ready_task_runs:
  assumes "on_ring s r" "task \<in> set r" "ready (tasks s) task" "\<not> need_reschedule s" "unat (preempt_counter t) < 10"
    and "10 * length r \<le> length ps" "0 \<notin> set ps"
  shows "\<exists>k t' s'. k \<le> 10 * length r \<and> isrs (take k ps) (t, s) = Some (t', s') \<and> current s' = task"
proof -
  let ?c = "unat (preempt_counter t)"
  have ring: "is_ring (tasks s) (task_ring s) r" using assms(1) by (simp add: on_ring_def)
  note fr = on_ring_from [OF assms(1)]
  have "task \<in> set (rot r (from_task s))" using rot_set [OF ring fr(1)] assms(2) by simp
  then obtain us vs where w: "rot r (from_task s) = us @ task # vs" by (meson split_list)
  have len: "length us < length r"
  proof -
    have "length (takeWhile P r) + length (dropWhile P r) = length r" for P by (induction r) auto
    then have "length (rot r (from_task s)) = length r" by (simp add: rot_def add.commute)
    then show ?thesis using w by simp
  qed
  have "10 * length r div 10 \<le> (?c + length ps) div 10" using assms(6) by (intro div_le_mono) simp
  then have "length us < length (due ?c ps)" using due_length [OF assms(5), of ps] len by simp
  moreover have "0 \<notin> set (due ?c ps)" using due_set [of ?c ps] assms(7) by auto
  ultimately obtain k out s' where k: "0 < k" "k \<le> Suc (length us)" "ticks (take k (due ?c ps)) s = Some (out, s')" "current s' = task"
    using ticks_reach [OF assms(1,3) w, of "due ?c ps"] by blast
  have dk: "due ?c (take (10 * k - ?c) ps) = take k (due ?c ps)" by (rule due_take [OF assms(5)])
  have "take k (due ?c ps) \<noteq> []" using k(1) \<open>length us < length (due ?c ps)\<close> by auto
  then obtain t' where "isrs (take (10 * k - ?c) ps) (t, s) = Some (t', s')"
    using isrs_due [OF refl assms(5,4), of "take (10 * k - ?c) ps" s'] k(3) dk by auto
  moreover have "10 * k - ?c \<le> 10 * length r" using k(2) len by simp
  ultimately show ?thesis using k(4) by blast
qed

text \<open>C23 (functional). The handler keeps time: after any number of interrupts the tick counter, the seconds and the software clock are
  those of the number of interrupts taken, one second and one clock tick for every thousand.\<close>

theorem timer_keeps_time:
  assumes "isrs ps (t, s) = Some (t', s')" "unat (g_ticks t) < 1000"
  shows "unat (g_ticks t') = (unat (g_ticks t) + length ps) mod 1000 \<and>
    seconds t' = seconds t + of_nat ((unat (g_ticks t) + length ps) div 1000) \<and>
    clock t' = (clock_tick ^^ ((unat (g_ticks t) + length ps) div 1000)) (clock t)"
  using assms
proof (induction ps arbitrary: t s)
  case (Cons p ps)
  obtain out t1 s1 where i: "timer_isr (t, s) p = Some (Ret (out, t1, s1))" "isrs ps (t1, s1) = Some (t', s')"
    using Cons.prems(1) by (auto split: option.splits outcome.splits)
  define q where "q = (unat (g_ticks t) + 1) div 1000"
  define m where "m = (unat (g_ticks t) + 1) mod 1000"
  have c: "unat (g_ticks t1) = m" "seconds t1 = seconds t + of_nat q" "clock t1 = (clock_tick ^^ q) (clock t)"
    using isr_counts [OF i(1) Cons.prems(2)] by (simp_all add: q_def m_def)
  have "unat (g_ticks t1) < 1000" using c(1) by (simp add: m_def)
  note ih = Cons.IH [OF i(2) this, unfolded c]
  have "unat (g_ticks t) + 1 = m + 1000 * q" by (simp add: q_def m_def)
  then have k: "unat (g_ticks t) + length (p # ps) = (m + length ps) + 1000 * q" by simp
  have "(unat (g_ticks t) + length (p # ps)) div 1000 = (m + length ps) div 1000 + q"
    "(unat (g_ticks t) + length (p # ps)) mod 1000 = (m + length ps) mod 1000" unfolding k by simp_all
  then show ?case using ih by (simp only: of_nat_add funpow_add comp_apply) (simp add: algebra_simps)
qed simp

definition sample_timer :: timer_t where
  "sample_timer = \<lparr>g_ticks = 999, period = 0, tsc_khz = 0, apic_bus_khz = 0, init_count = 0, calibrated = False, seconds = 4,
     preempt_counter = 9, last_cursor = 500, cursor_updates = 0, clock = \<lparr>hh = 1, mm = 2, ss = 3, epoch = 4\<rparr>\<rparr>"

lemma sample_isr: "\<exists>t' s'. isrs [0x55] (sample_timer, sched_pair) = Some (t', s')"
  by (simp add: timer_isr_def timer_apic_handler_def sample_timer_def sched_pair_def sched0_def schedule_from_isr_def pick_next_def
      pick_from.simps [of _ 2 2] runnable_def upd_task_def Let_def)

theorem timer_keeps_time_witness:
  "\<exists>t' s'. isrs [0x55] (sample_timer, sched_pair) = Some (t', s') \<and> g_ticks t' = 0 \<and> seconds t' = 5 \<and> ss (clock t') = 4"
proof -
  obtain t' s' where i: "isrs [0x55] (sample_timer, sched_pair) = Some (t', s')" using sample_isr by blast
  have "unat (g_ticks sample_timer) < 1000" by (simp add: sample_timer_def)
  from timer_keeps_time [OF i this] have "unat (g_ticks t') = 0" "seconds t' = 5" "clock t' = clock_tick \<lparr>hh = 1, mm = 2, ss = 3, epoch = 4\<rparr>"
    by (simp_all add: sample_timer_def)
  with i show ?thesis by (simp add: clock_tick_def Let_def unat_eq_0)
qed

theorem ready_task_runs_witness:
  "\<exists>k t' s'. k \<le> 20 \<and> isrs (take k (replicate 20 0x55)) (sample_timer, sched_pair\<lparr>need_reschedule := False\<rparr>) = Some (t', s') \<and> current s' = 2"
proof -
  have "on_ring (sched_pair\<lparr>need_reschedule := False\<rparr>) [1, 2]" by (simp add: on_ring_def is_ring_def sched_pair_def)
  moreover have "ready (tasks (sched_pair\<lparr>need_reschedule := False\<rparr>)) 2" by (simp add: ready_def runnable_def sched_pair_def)
  ultimately show ?thesis
    using ready_task_runs [of "sched_pair\<lparr>need_reschedule := False\<rparr>" "[1, 2]" 2 sample_timer "replicate 20 0x55"] by (simp add: sample_timer_def)
qed



text \<open>A bus of 100 MHz: 312500 counts in 50 ms. The product wraps and the measured frequency comes out as 14 MHz.\<close>

lemma timer_period_wraps:
  "timer_apic_calibrate_with_tsc 2000000 50 [\<lparr>apic_start = 0xFFFFFFFF, apic_end = 0xFFFFFFFF - 312500, at_start = 0, at_end = 100000000\<rparr>] = 14100654"
  by (simp add: timer_apic_calibrate_with_tsc_def apic_measure_def Let_def)

end
