(* ===== verification/KHash.thy ===== *)
theory KHash
  imports KPrelude
begin

text \<open>
  The hash functions of \<^verbatim>\<open>src/crypto/hash\<close>: MD5, SHA-1 and SHA-256, each with its block transformation, its byte-wise update,
  its final padding and the one-call form. The locale \<^verbatim>\<open>stream_hash\<close> is what the three have in common, the Merkle-Damgard
  construction over a block transformation; it is interpreted on each of them. A write past the 64-byte padding array of the final
  functions is the result \<open>None\<close>.
\<close>

section \<open>Shared arithmetic\<close>

definition CRYPTO_ROTL32 :: "u32 \<Rightarrow> nat \<Rightarrow> u32" where "CRYPTO_ROTL32 x n = push_bit n x OR drop_bit (32 - n) x"
definition CRYPTO_ROTR32 :: "u32 \<Rightarrow> nat \<Rightarrow> u32" where "CRYPTO_ROTR32 x n = drop_bit n x OR push_bit (32 - n) x"

text \<open>Words of a block and bytes of a word, in the two byte orders.\<close>

fun words_be :: "u8 list \<Rightarrow> u32 list" where
  "words_be (b0 # b1 # b2 # b3 # bs) =
     (push_bit 24 (ucast b0) OR push_bit 16 (ucast b1) OR push_bit 8 (ucast b2) OR ucast b3) # words_be bs"
| "words_be _ = []"

fun words_le :: "u8 list \<Rightarrow> u32 list" where
  "words_le (b0 # b1 # b2 # b3 # bs) =
     (ucast b0 OR push_bit 8 (ucast b1) OR push_bit 16 (ucast b2) OR push_bit 24 (ucast b3)) # words_le bs"
| "words_le _ = []"

definition bytes_be :: "u32 \<Rightarrow> u8 list" where
  "bytes_be w = [ucast (drop_bit 24 w), ucast (drop_bit 16 w), ucast (drop_bit 8 w), ucast w]"

definition bytes_le :: "u32 \<Rightarrow> u8 list" where
  "bytes_le w = [ucast w, ucast (drop_bit 8 w), ucast (drop_bit 16 w), ucast (drop_bit 24 w)]"

text \<open>The length in bits at the end of the padding.\<close>

definition len_be :: "u64 \<Rightarrow> u8 list" where "len_be n = map (\<lambda>i. ucast (drop_bit (56 - i * 8) n)) [0..<8]"
definition len_le :: "u64 \<Rightarrow> u8 list" where "len_le n = map (\<lambda>i. ucast (drop_bit (i * 8) n)) [0..<8]"

section \<open>Contexts\<close>

text \<open>The context structures differ in the length of \<^verbatim>\<open>state\<close> only.\<close>

record hash_ctx =
  hstate :: "u32 list"
  hcount :: u64
  hbuffer :: "u8 list"

text \<open>One turn of the update loop.\<close>

definition absorb :: "(u32 list \<Rightarrow> u8 list \<Rightarrow> u32 list) \<Rightarrow> hash_ctx \<Rightarrow> u8 \<Rightarrow> hash_ctx" where
  "absorb transform ctx x =
     (let ctx = ctx\<lparr>hbuffer := (hbuffer ctx)[unat (hcount ctx mod 64) := x]\<rparr>;
          ctx = ctx\<lparr>hcount := hcount ctx + 1\<rparr>
      in if hcount ctx mod 64 = 0 then ctx\<lparr>hstate := transform (hstate ctx) (hbuffer ctx)\<rparr> else ctx)"

text \<open>The padding array of the final functions, for a context with \<open>n\<close> bytes behind it: 64 bytes are reserved for it.\<close>

definition padding :: "(u64 \<Rightarrow> u8 list) \<Rightarrow> u64 \<Rightarrow> u8 list option" where
  "padding enc n =
     (let bit_len = n * 8;
          pad_len = 64 - unat (n mod 64);
          pad_len = (if pad_len < 9 then pad_len + 64 else pad_len)
      in if pad_len > 64 then None else Some (0x80 # replicate (pad_len - 9) 0 @ enc bit_len))"

section \<open>MD5\<close>

definition MD5_INIT :: "u32 list" where "MD5_INIT = [0x67452301, 0xefcdab89, 0x98badcfe, 0x10325476]"

definition MD5_K :: "u32 list" where
  "MD5_K =
    [0xd76aa478, 0xe8c7b756, 0x242070db, 0xc1bdceee, 0xf57c0faf, 0x4787c62a, 0xa8304613, 0xfd469501,
     0x698098d8, 0x8b44f7af, 0xffff5bb1, 0x895cd7be, 0x6b901122, 0xfd987193, 0xa679438e, 0x49b40821,
     0xf61e2562, 0xc040b340, 0x265e5a51, 0xe9b6c7aa, 0xd62f105d, 0x02441453, 0xd8a1e681, 0xe7d3fbc8,
     0x21e1cde6, 0xc33707d6, 0xf4d50d87, 0x455a14ed, 0xa9e3e905, 0xfcefa3f8, 0x676f02d9, 0x8d2a4c8a,
     0xfffa3942, 0x8771f681, 0x6d9d6122, 0xfde5380c, 0xa4beea44, 0x4bdecfa9, 0xf6bb4b60, 0xbebfbc70,
     0x289b7ec6, 0xeaa127fa, 0xd4ef3085, 0x04881d05, 0xd9d4d039, 0xe6db99e5, 0x1fa27cf8, 0xc4ac5665,
     0xf4292244, 0x432aff97, 0xab9423a7, 0xfc93a039, 0x655b59c3, 0x8f0ccc92, 0xffeff47d, 0x85845dd1,
     0x6fa87e4f, 0xfe2ce6e0, 0xa3014314, 0x4e0811a1, 0xf7537e82, 0xbd3af235, 0x2ad7d2bb, 0xeb86d391]"

definition MD5_S :: "nat list" where
  "MD5_S =
    [7, 12, 17, 22, 7, 12, 17, 22, 7, 12, 17, 22, 7, 12, 17, 22,
     5, 9, 14, 20, 5, 9, 14, 20, 5, 9, 14, 20, 5, 9, 14, 20,
     4, 11, 16, 23, 4, 11, 16, 23, 4, 11, 16, 23, 4, 11, 16, 23,
     6, 10, 15, 21, 6, 10, 15, 21, 6, 10, 15, 21, 6, 10, 15, 21]"

text \<open>The block word each of the 64 macro calls uses.\<close>

definition MD5_X :: "nat list" where
  "MD5_X =
    [0, 1, 2, 3, 4, 5, 6, 7, 8, 9, 10, 11, 12, 13, 14, 15,
     1, 6, 11, 0, 5, 10, 15, 4, 9, 14, 3, 8, 13, 2, 7, 12,
     5, 8, 11, 14, 1, 4, 7, 10, 13, 0, 3, 6, 9, 12, 15, 2,
     0, 7, 14, 5, 12, 3, 10, 1, 8, 15, 6, 13, 4, 11, 2, 9]"

definition MD5_F :: "u32 \<Rightarrow> u32 \<Rightarrow> u32 \<Rightarrow> u32" where "MD5_F x y z = (x AND y) OR (NOT x AND z)"
definition MD5_G :: "u32 \<Rightarrow> u32 \<Rightarrow> u32 \<Rightarrow> u32" where "MD5_G x y z = (x AND z) OR (y AND NOT z)"
definition MD5_H :: "u32 \<Rightarrow> u32 \<Rightarrow> u32 \<Rightarrow> u32" where "MD5_H x y z = x XOR y XOR z"
definition MD5_I :: "u32 \<Rightarrow> u32 \<Rightarrow> u32 \<Rightarrow> u32" where "MD5_I x y z = y XOR (x OR NOT z)"

text \<open>One macro call. The calls take the four variables in rotation, so the result is the tuple as the next call takes it.\<close>

fun md5_op :: "(u32 \<Rightarrow> u32 \<Rightarrow> u32 \<Rightarrow> u32) \<Rightarrow> u32 list \<Rightarrow> u32 \<times> u32 \<times> u32 \<times> u32 \<Rightarrow> nat \<times> nat \<times> u32 \<Rightarrow> u32 \<times> u32 \<times> u32 \<times> u32" where
  "md5_op fn x (a, b, c, d) (k, s, i) =
     (let a = a + (fn b c d + x ! k + i);
          a = CRYPTO_ROTL32 a s
      in (d, a + b, b, c))"

definition md5_transform :: "u32 list \<Rightarrow> u8 list \<Rightarrow> u32 list" where
  "md5_transform state block =
     (let x = words_le block;
          ops = zip MD5_X (zip MD5_S MD5_K);
          v = (state ! 0, state ! 1, state ! 2, state ! 3);
          v = foldl (md5_op MD5_F x) v (take 16 ops);
          v = foldl (md5_op MD5_G x) v (take 16 (drop 16 ops));
          v = foldl (md5_op MD5_H x) v (take 16 (drop 32 ops));
          (a, b, c, d) = foldl (md5_op MD5_I x) v (drop 48 ops)
      in [state ! 0 + a, state ! 1 + b, state ! 2 + c, state ! 3 + d])"

definition crypto_md5_init :: "hash_ctx \<Rightarrow> hash_ctx" where
  "crypto_md5_init ctx = ctx\<lparr>hstate := MD5_INIT, hcount := 0\<rparr>"

definition crypto_md5_update :: "hash_ctx \<Rightarrow> u8 list \<Rightarrow> hash_ctx" where
  "crypto_md5_update ctx data = foldl (absorb md5_transform) ctx data"

definition crypto_md5_final :: "hash_ctx \<Rightarrow> u8 list option" where
  "crypto_md5_final ctx =
     Option.bind (padding len_le (hcount ctx)) (\<lambda>p. Some (concat (map bytes_le (hstate (crypto_md5_update ctx p)))))"

text \<open>The context of the one-call form is a local variable: \<open>junk\<close> is what its buffer holds before.\<close>

definition crypto_md5 :: "hash_ctx \<Rightarrow> u8 list \<Rightarrow> u8 list option" where
  "crypto_md5 junk data = crypto_md5_final (crypto_md5_update (crypto_md5_init junk) data)"

section \<open>SHA-1\<close>

definition SHA1_INIT :: "u32 list" where "SHA1_INIT = [0x67452301, 0xefcdab89, 0x98badcfe, 0x10325476, 0xc3d2e1f0]"

definition SHA1_F0 :: "u32 \<Rightarrow> u32 \<Rightarrow> u32 \<Rightarrow> u32" where "SHA1_F0 x y z = (x AND y) OR (NOT x AND z)"
definition SHA1_F1 :: "u32 \<Rightarrow> u32 \<Rightarrow> u32 \<Rightarrow> u32" where "SHA1_F1 x y z = x XOR y XOR z"
definition SHA1_F2 :: "u32 \<Rightarrow> u32 \<Rightarrow> u32 \<Rightarrow> u32" where "SHA1_F2 x y z = (x AND y) OR (x AND z) OR (y AND z)"
definition SHA1_F3 :: "u32 \<Rightarrow> u32 \<Rightarrow> u32 \<Rightarrow> u32" where "SHA1_F3 x y z = x XOR y XOR z"

fun sha1_extend :: "nat \<Rightarrow> u32 list \<Rightarrow> u32 list" where
  "sha1_extend 0 w = w"
| "sha1_extend (Suc n) w =
     (let i = length w
      in sha1_extend n (w @ [CRYPTO_ROTL32 (w ! (i - 3) XOR w ! (i - 8) XOR w ! (i - 14) XOR w ! (i - 16)) 1]))"

fun sha1_round :: "(u32 \<Rightarrow> u32 \<Rightarrow> u32 \<Rightarrow> u32) \<Rightarrow> u32 \<Rightarrow> u32 \<times> u32 \<times> u32 \<times> u32 \<times> u32 \<Rightarrow> u32 \<Rightarrow> u32 \<times> u32 \<times> u32 \<times> u32 \<times> u32" where
  "sha1_round fn k (a, b, c, d, e) wi =
     (let temp = CRYPTO_ROTL32 a 5 + fn b c d + e + wi + k in (temp, a, CRYPTO_ROTL32 b 30, c, d))"

definition sha1_transform :: "u32 list \<Rightarrow> u8 list \<Rightarrow> u32 list" where
  "sha1_transform state block =
     (let w = sha1_extend 64 (words_be block);
          v = (state ! 0, state ! 1, state ! 2, state ! 3, state ! 4);
          v = foldl (sha1_round SHA1_F0 0x5a827999) v (take 20 w);
          v = foldl (sha1_round SHA1_F1 0x6ed9eba1) v (take 20 (drop 20 w));
          v = foldl (sha1_round SHA1_F2 0x8f1bbcdc) v (take 20 (drop 40 w));
          (a, b, c, d, e) = foldl (sha1_round SHA1_F3 0xca62c1d6) v (drop 60 w)
      in [state ! 0 + a, state ! 1 + b, state ! 2 + c, state ! 3 + d, state ! 4 + e])"

definition crypto_sha1_init :: "hash_ctx \<Rightarrow> hash_ctx" where
  "crypto_sha1_init ctx = ctx\<lparr>hstate := SHA1_INIT, hcount := 0\<rparr>"

definition crypto_sha1_update :: "hash_ctx \<Rightarrow> u8 list \<Rightarrow> hash_ctx" where
  "crypto_sha1_update ctx data = foldl (absorb sha1_transform) ctx data"

definition crypto_sha1_final :: "hash_ctx \<Rightarrow> u8 list option" where
  "crypto_sha1_final ctx =
     Option.bind (padding len_be (hcount ctx)) (\<lambda>p. Some (concat (map bytes_be (hstate (crypto_sha1_update ctx p)))))"

definition crypto_sha1 :: "hash_ctx \<Rightarrow> u8 list \<Rightarrow> u8 list option" where
  "crypto_sha1 junk data = crypto_sha1_final (crypto_sha1_update (crypto_sha1_init junk) data)"

section \<open>SHA-256\<close>

definition SHA256_INIT :: "u32 list" where
  "SHA256_INIT = [0x6a09e667, 0xbb67ae85, 0x3c6ef372, 0xa54ff53a, 0x510e527f, 0x9b05688c, 0x1f83d9ab, 0x5be0cd19]"

definition SHA256_K :: "u32 list" where
  "SHA256_K =
    [0x428a2f98, 0x71374491, 0xb5c0fbcf, 0xe9b5dba5, 0x3956c25b, 0x59f111f1, 0x923f82a4, 0xab1c5ed5,
     0xd807aa98, 0x12835b01, 0x243185be, 0x550c7dc3, 0x72be5d74, 0x80deb1fe, 0x9bdc06a7, 0xc19bf174,
     0xe49b69c1, 0xefbe4786, 0x0fc19dc6, 0x240ca1cc, 0x2de92c6f, 0x4a7484aa, 0x5cb0a9dc, 0x76f988da,
     0x983e5152, 0xa831c66d, 0xb00327c8, 0xbf597fc7, 0xc6e00bf3, 0xd5a79147, 0x06ca6351, 0x14292967,
     0x27b70a85, 0x2e1b2138, 0x4d2c6dfc, 0x53380d13, 0x650a7354, 0x766a0abb, 0x81c2c92e, 0x92722c85,
     0xa2bfe8a1, 0xa81a664b, 0xc24b8b70, 0xc76c51a3, 0xd192e819, 0xd6990624, 0xf40e3585, 0x106aa070,
     0x19a4c116, 0x1e376c08, 0x2748774c, 0x34b0bcb5, 0x391c0cb3, 0x4ed8aa4a, 0x5b9cca4f, 0x682e6ff3,
     0x748f82ee, 0x78a5636f, 0x84c87814, 0x8cc70208, 0x90befffa, 0xa4506ceb, 0xbef9a3f7, 0xc67178f2]"

definition SHA256_Ch :: "u32 \<Rightarrow> u32 \<Rightarrow> u32 \<Rightarrow> u32" where "SHA256_Ch x y z = (x AND y) XOR (NOT x AND z)"
definition SHA256_Maj :: "u32 \<Rightarrow> u32 \<Rightarrow> u32 \<Rightarrow> u32" where "SHA256_Maj x y z = (x AND y) XOR (x AND z) XOR (y AND z)"
definition SHA256_Sigma0 :: "u32 \<Rightarrow> u32" where "SHA256_Sigma0 x = CRYPTO_ROTR32 x 2 XOR CRYPTO_ROTR32 x 13 XOR CRYPTO_ROTR32 x 22"
definition SHA256_Sigma1 :: "u32 \<Rightarrow> u32" where "SHA256_Sigma1 x = CRYPTO_ROTR32 x 6 XOR CRYPTO_ROTR32 x 11 XOR CRYPTO_ROTR32 x 25"
definition SHA256_sigma0 :: "u32 \<Rightarrow> u32" where "SHA256_sigma0 x = CRYPTO_ROTR32 x 7 XOR CRYPTO_ROTR32 x 18 XOR drop_bit 3 x"
definition SHA256_sigma1 :: "u32 \<Rightarrow> u32" where "SHA256_sigma1 x = CRYPTO_ROTR32 x 17 XOR CRYPTO_ROTR32 x 19 XOR drop_bit 10 x"

fun sha256_extend :: "nat \<Rightarrow> u32 list \<Rightarrow> u32 list" where
  "sha256_extend 0 w = w"
| "sha256_extend (Suc n) w =
     (let i = length w
      in sha256_extend n (w @ [SHA256_sigma1 (w ! (i - 2)) + w ! (i - 7) + SHA256_sigma0 (w ! (i - 15)) + w ! (i - 16)]))"

fun sha256_round :: "u32 \<times> u32 \<times> u32 \<times> u32 \<times> u32 \<times> u32 \<times> u32 \<times> u32 \<Rightarrow> u32 \<times> u32 \<Rightarrow> u32 \<times> u32 \<times> u32 \<times> u32 \<times> u32 \<times> u32 \<times> u32 \<times> u32" where
  "sha256_round (a, b, c, d, e, f, g, h) (k, wi) =
     (let t1 = h + SHA256_Sigma1 e + SHA256_Ch e f g + k + wi;
          t2 = SHA256_Sigma0 a + SHA256_Maj a b c
      in (t1 + t2, a, b, c, d + t1, e, f, g))"

definition sha256_transform :: "u32 list \<Rightarrow> u8 list \<Rightarrow> u32 list" where
  "sha256_transform state block =
     (let w = sha256_extend 48 (words_be block);
          (a, b, c, d, e, f, g, h) =
            foldl sha256_round (state ! 0, state ! 1, state ! 2, state ! 3, state ! 4, state ! 5, state ! 6, state ! 7) (zip SHA256_K w)
      in [state ! 0 + a, state ! 1 + b, state ! 2 + c, state ! 3 + d, state ! 4 + e, state ! 5 + f, state ! 6 + g, state ! 7 + h])"

definition crypto_sha256_init :: "hash_ctx \<Rightarrow> hash_ctx" where
  "crypto_sha256_init ctx = ctx\<lparr>hstate := SHA256_INIT, hcount := 0\<rparr>"

definition crypto_sha256_update :: "hash_ctx \<Rightarrow> u8 list \<Rightarrow> hash_ctx" where
  "crypto_sha256_update ctx data = foldl (absorb sha256_transform) ctx data"

definition crypto_sha256_final :: "hash_ctx \<Rightarrow> u8 list option" where
  "crypto_sha256_final ctx =
     Option.bind (padding len_be (hcount ctx)) (\<lambda>p. Some (concat (map bytes_be (hstate (crypto_sha256_update ctx p)))))"

definition crypto_sha256 :: "hash_ctx \<Rightarrow> u8 list \<Rightarrow> u8 list option" where
  "crypto_sha256 junk data = crypto_sha256_final (crypto_sha256_update (crypto_sha256_init junk) data)"

section \<open>The construction\<close>

text \<open>The reference: the message padded by 0x80, zeros and its length in bits to whole blocks, and the transformation folded over them.\<close>

definition blocks :: "u8 list \<Rightarrow> u8 list list" where
  "blocks m = map (\<lambda>i. take 64 (drop (64 * i) m)) [0..<length m div 64]"

definition pad_msg :: "(u64 \<Rightarrow> u8 list) \<Rightarrow> u8 list \<Rightarrow> u8 list" where
  "pad_msg enc m = m @ 0x80 # replicate ((119 - length m mod 64) mod 64) 0 @ enc (of_nat (8 * length m))"

definition md_hash :: "(u32 list \<Rightarrow> u8 list \<Rightarrow> u32 list) \<Rightarrow> u32 list \<Rightarrow> (u64 \<Rightarrow> u8 list) \<Rightarrow> u8 list \<Rightarrow> u32 list" where
  "md_hash transform init enc m = foldl transform init (blocks (pad_msg enc m))"

lemma blocks_snoc:
  "blocks (m @ [x]) = blocks m @ (if (length m + 1) mod 64 = 0 then [drop (64 * (length m div 64)) m @ [x]] else [])"
proof -
  let ?q = "length m div 64"
  have same: "map (\<lambda>i. take 64 (drop (64 * i) (m @ [x]))) [0..<?q] = blocks m"
    unfolding blocks_def
  proof (rule map_cong [OF refl])
    fix i assume "i \<in> set [0..<?q]"
    then have "i + 1 \<le> ?q" by simp
    then have "64 * (i + 1) \<le> 64 * ?q" by (rule mult_le_mono2)
    then have "64 * (i + 1) \<le> length m" using times_div_less_eq_dividend by (rule le_trans)
    then show "take 64 (drop (64 * i) (m @ [x])) = take 64 (drop (64 * i) m)" by simp
  qed
  show ?thesis
  proof (cases "(length m + 1) mod 64 = 0")
    case True
    define q where "q = ?q"
    have "length m mod 64 = 63" using True by (simp add: mod_Suc split: if_splits)
    then have e: "length m = 64 * q + 63" using mult_div_mod_eq [of 64 "length m"] unfolding q_def by simp
    have "length (m @ [x]) div 64 = Suc q" using True by (simp add: div_Suc q_def)
    then have "blocks (m @ [x]) = blocks m @ [take 64 (drop (64 * q) (m @ [x]))]" using same unfolding blocks_def q_def [symmetric] by simp
    moreover have "take 64 (drop (64 * q) (m @ [x])) = drop (64 * q) m @ [x]" using e by simp
    ultimately show ?thesis using True by (simp add: q_def)
  next
    case False
    then have "length (m @ [x]) div 64 = ?q" by (simp add: div_Suc)
    then have "blocks (m @ [x]) = blocks m" using same by (simp only: blocks_def)
    then show ?thesis using False by (simp only: if_False append_Nil2)
  qed
qed

lemma unat_count: "unat ((of_nat n :: u64) mod 64) = n mod 64"
proof -
  have "(n mod 2 ^ 64) mod 64 = n mod (64 :: nat)" by (rule mod_mod_cancel) simp
  then show ?thesis by (simp add: unat_mod unat_of_nat)
qed

text \<open>What a block transformation with its initial state and its length encoding owes the construction.\<close>

locale stream_hash =
  fixes transform :: "u32 list \<Rightarrow> u8 list \<Rightarrow> u32 list" and init :: "u32 list" and enc :: "u64 \<Rightarrow> u8 list" and n :: nat
  assumes init_length: "length init = n"
    and transform_length: "length s = n \<Longrightarrow> length (transform s b) = n"
    and enc_length: "length (enc w) = 8"
begin

lemma absorb_inv:
  assumes "hstate ctx = init" "hcount ctx = 0" "length (hbuffer ctx) = 64"
  defines "c \<equiv> foldl (absorb transform) ctx"
  shows "hstate (c m) = foldl transform init (blocks m) \<and> hcount (c m) = of_nat (length m) \<and> length (hbuffer (c m)) = 64 \<and>
    take (length m mod 64) (hbuffer (c m)) = drop (64 * (length m div 64)) m"
proof (induction m rule: rev_induct)
  case Nil
  then show ?case using assms by (simp add: blocks_def)
next
  case (snoc x m)
  let ?k = "length m mod 64" and ?b = "hbuffer (c m)"
  have k: "?k < 64" by simp
  have st: "c (m @ [x]) = absorb transform (c m) x" by (simp add: c_def)
  have cm: "unat (hcount (c m) mod 64) = ?k" using snoc unat_count by simp
  have c1: "(hcount (c m) + 1) mod 64 = 0 \<longleftrightarrow> (length m + 1) mod 64 = 0"
  proof -
    have "hcount (c m) + 1 = of_nat (length m + 1)" using snoc by simp
    then have "unat ((hcount (c m) + 1) mod 64) = (length m + 1) mod 64" using unat_count by metis
    then show ?thesis by (metis unat_eq_0)
  qed
  have buf: "take (Suc ?k) (?b[?k := x]) = drop (64 * (length m div 64)) m @ [x]"
  proof -
    have "length (drop (64 * (length m div 64)) m) = ?k" by (simp add: minus_mult_div_eq_mod)
    moreover have "take (Suc ?k) (?b[?k := x]) = take ?k ?b @ [x]" using snoc k by (simp add: take_Suc_conv_app_nth)
    ultimately show ?thesis using snoc by simp
  qed
  have len: "length (hbuffer (c m)) = 64" "hcount (c m) = of_nat (length m)" "hstate (c m) = foldl transform init (blocks m)"
    using snoc by simp_all
  show ?case
  proof (cases "(length m + 1) mod 64 = 0")
    case True
    then have l: "?k = 63" by (simp add: mod_Suc split: if_splits)
    have "?b[?k := x] = drop (64 * (length m div 64)) m @ [x]" using buf len(1) l by simp
    moreover have "drop (64 * (length (m @ [x]) div 64)) (m @ [x]) = []"
    proof -
      have "64 dvd length (m @ [x])" using True by (simp add: mod_eq_0_iff_dvd)
      then have "64 * (length (m @ [x]) div 64) = length (m @ [x])" by (rule dvd_mult_div_cancel)
      then show ?thesis by (simp only: drop_all order_refl)
    qed
    moreover have "length m - 64 * (length m div 64) = 63" using l by (simp add: minus_mult_div_eq_mod)
    ultimately show ?thesis using True c1 cm len by (simp add: st absorb_def Let_def blocks_snoc)
  next
    case False
    then have e: "(length m + 1) mod 64 = Suc ?k" "(length m + 1) div 64 = length m div 64"
      by (simp_all add: mod_Suc div_Suc split: if_splits)
    have "64 * (length m div 64) \<le> length m" by simp
    then have "drop (64 * (length m div 64)) (m @ [x]) = drop (64 * (length m div 64)) m @ [x]" by simp
    then show ?thesis using False c1 cm len buf e by (simp add: st absorb_def Let_def blocks_snoc)
  qed
qed

lemma state_length: "length (foldl transform init bs) = n"
  by (induction bs rule: rev_induct) (simp_all add: init_length transform_length)

text \<open>The final padding completes the reference message, where the array holds it.\<close>

lemma padding_msg:
  "padding enc (of_nat (length m)) =
     (if length m mod 64 \<le> 55 then Some (drop (length m) (pad_msg enc m)) else None)"
proof -
  define k where "k = length m mod 64"
  have k: "k < 64" by (simp add: k_def)
  have u: "unat ((of_nat (length m) :: u64) mod 64) = k" unfolding k_def by (rule unat_count)
  show ?thesis unfolding k_def [symmetric]
  proof (cases "k \<le> 55")
    case True
    then have l: "\<not> 64 - k < 9" "\<not> 64 < 64 - k" by linarith+
    have "119 - k = (55 - k) + 64" using True by simp
    moreover have "((55 - k) + 64) mod 64 = 55 - k" by simp
    ultimately have "(119 - k) mod 64 = 55 - k" by (simp only:)
    then show "padding enc (of_nat (length m)) = (if k \<le> 55 then Some (drop (length m) (pad_msg enc m)) else None)"
      using True u l by (simp add: padding_def Let_def pad_msg_def mult.commute flip: k_def)
  next
    case False
    then have "64 - k < 9" "64 - k + 64 > 64" using k by simp_all
    then show "padding enc (of_nat (length m)) = (if k \<le> 55 then Some (drop (length m) (pad_msg enc m)) else None)"
      using False u by (simp add: padding_def Let_def)
  qed
qed

lemma final_hash:
  fixes m :: "u8 list"
  assumes "hstate ctx = init" "hcount ctx = 0" "length (hbuffer ctx) = 64"
  defines "c \<equiv> foldl (absorb transform) ctx m"
  shows "Option.bind (padding enc (hcount c)) (\<lambda>p. Some (out (hstate (foldl (absorb transform) c p)))) =
    (if length m mod 64 \<le> 55 then Some (out (md_hash transform init enc m)) else None)"
proof -
  note inv = absorb_inv [OF assms(1-3)]
  have "hcount c = of_nat (length m)" using inv [of m] by (simp add: c_def)
  moreover have "m @ drop (length m) (pad_msg enc m) = pad_msg enc m" by (simp add: pad_msg_def)
  then have "hstate (foldl (absorb transform) c (drop (length m) (pad_msg enc m))) = md_hash transform init enc m"
    using inv [of "pad_msg enc m"] by (simp add: c_def md_hash_def flip: foldl_append)
  ultimately show ?thesis by (simp add: padding_msg)
qed

end

lemma len_be_length [simp]: "length (len_be w) = 8" by (simp add: len_be_def)
lemma len_le_length [simp]: "length (len_le w) = 8" by (simp add: len_le_def)

interpretation md5: stream_hash md5_transform MD5_INIT len_le 4
  by unfold_locales (simp_all add: MD5_INIT_def md5_transform_def Let_def split: prod.splits)

interpretation sha1: stream_hash sha1_transform SHA1_INIT len_be 5
  by unfold_locales (simp_all add: SHA1_INIT_def sha1_transform_def Let_def split: prod.splits)

interpretation sha256: stream_hash sha256_transform SHA256_INIT len_be 8
  by unfold_locales (simp_all add: SHA256_INIT_def sha256_transform_def Let_def split: prod.splits)

lemma foldl_pieces: "foldl (foldl f) c pieces = foldl f c (concat pieces)"
  by (induction pieces arbitrary: c) simp_all

section \<open>Properties\<close>

text \<open>
  C8 (equivalence). However the input is cut into pieces for the update calls, the three hash functions compute the Merkle-Damgard
  construction over their block transformations, with the digest written in their byte order, for every input whose last block has at
  most 55 bytes. For all other inputs the final call writes past its padding array.
\<close>

theorem hashes_merkle_damgard:
  assumes "length (hbuffer junk) = 64"
  shows "crypto_md5_final (foldl crypto_md5_update (crypto_md5_init junk) pieces) =
      (if length (concat pieces) mod 64 \<le> 55 then Some (concat (map bytes_le (md_hash md5_transform MD5_INIT len_le (concat pieces)))) else None) \<and>
    crypto_sha1_final (foldl crypto_sha1_update (crypto_sha1_init junk) pieces) =
      (if length (concat pieces) mod 64 \<le> 55 then Some (concat (map bytes_be (md_hash sha1_transform SHA1_INIT len_be (concat pieces)))) else None) \<and>
    crypto_sha256_final (foldl crypto_sha256_update (crypto_sha256_init junk) pieces) =
      (if length (concat pieces) mod 64 \<le> 55 then Some (concat (map bytes_be (md_hash sha256_transform SHA256_INIT len_be (concat pieces)))) else None)"
proof -
  have u: "crypto_md5_update = foldl (absorb md5_transform)" "crypto_sha1_update = foldl (absorb sha1_transform)"
    "crypto_sha256_update = foldl (absorb sha256_transform)"
    by (intro ext, simp add: crypto_md5_update_def crypto_sha1_update_def crypto_sha256_update_def)+
  show ?thesis unfolding crypto_md5_final_def crypto_sha1_final_def crypto_sha256_final_def u foldl_pieces
    by (intro conjI; rule md5.final_hash sha1.final_hash sha256.final_hash)
      (simp_all add: crypto_md5_init_def crypto_sha1_init_def crypto_sha256_init_def assms)
qed

definition sample_ctx :: hash_ctx where "sample_ctx = \<lparr>hstate = [], hcount = 7, hbuffer = replicate 64 9\<rparr>"

theorem hashes_merkle_damgard_witness:
  "crypto_sha256_final (foldl crypto_sha256_update (crypto_sha256_init sample_ctx) [[0x61], [0x62, 0x63]]) =
     Some (concat (map bytes_be (md_hash sha256_transform SHA256_INIT len_be [0x61, 0x62, 0x63]))) \<and>
   crypto_md5_final (foldl crypto_md5_update (crypto_md5_init sample_ctx) [replicate 60 1]) = None"
  using hashes_merkle_damgard [of sample_ctx "[[0x61], [0x62, 0x63]]"] hashes_merkle_damgard [of sample_ctx "[replicate 60 1]"]
  by (simp add: sample_ctx_def)


end
