(* ===== verification/KCrypto.thy ===== *)
theory KCrypto
  imports KHash
begin

text \<open>
  The ChaCha20 stream cipher of \<^verbatim>\<open>src/crypto/cipher/chacha20.c\<close>, the random number generator of \<^verbatim>\<open>src/crypto/random.c\<close> that runs
  on it, and the self-tests of \<^verbatim>\<open>src/crypto/selftest.c\<close>. Time stamps, the answers of the RDRAND instruction, the stack pointer and the
  flags are what the processor delivers and are arguments; so is what a local array holds before the code writes it.
\<close>

section \<open>ChaCha20\<close>

record chacha_ctx =
  cstate :: "u32 list"

text \<open>A quarter round is four times an addition \<open>a += b\<close> and a step \<open>d ^= a; d = CRYPTO_ROTL32(d, n)\<close> on words of the working state.\<close>

definition qr_add :: "nat \<Rightarrow> nat \<Rightarrow> u32 list \<Rightarrow> u32 list" where "qr_add a b w = w[a := w ! a + w ! b]"
definition qr_mix :: "nat \<Rightarrow> nat \<Rightarrow> nat \<Rightarrow> u32 list \<Rightarrow> u32 list" where "qr_mix d a n w = w[d := CRYPTO_ROTL32 (w ! d XOR w ! a) n]"

definition CHACHA_QR :: "nat \<Rightarrow> nat \<Rightarrow> nat \<Rightarrow> nat \<Rightarrow> u32 list \<Rightarrow> u32 list" where
  "CHACHA_QR a b c d w =
     qr_mix b c 7 (qr_add c d (qr_mix d a 8 (qr_add a b (qr_mix b c 12 (qr_add c d (qr_mix d a 16 (qr_add a b w)))))))"

definition crypto_chacha20_init :: "u8 list \<Rightarrow> u8 list \<Rightarrow> chacha_ctx" where
  "crypto_chacha20_init key iv =
     \<lparr>cstate = [0x61707865, 0x3320646e, 0x79622d32, 0x6b206574] @ words_le (take 32 key) @ [0] @ words_le (take 12 iv)\<rparr>"

definition chacha_double_round :: "u32 list \<Rightarrow> u32 list" where
  "chacha_double_round w =
     CHACHA_QR 3 4 9 14 (CHACHA_QR 2 7 8 13 (CHACHA_QR 1 6 11 12 (CHACHA_QR 0 5 10 15
       (CHACHA_QR 3 7 11 15 (CHACHA_QR 2 6 10 14 (CHACHA_QR 1 5 9 13 (CHACHA_QR 0 4 8 12 w)))))))"

fun chacha_rounds :: "nat \<Rightarrow> u32 list \<Rightarrow> u32 list" where
  "chacha_rounds 0 w = w"
| "chacha_rounds (Suc i) w = chacha_rounds i (chacha_double_round w)"

definition chacha_next :: "u32 list \<Rightarrow> u32 list" where
  "chacha_next st =
     (let st = st[12 := st ! 12 + 1] in if st ! 12 = 0 then st[13 := st ! 13 + 1] else st)"

definition chacha20_block :: "chacha_ctx \<Rightarrow> u8 list \<times> chacha_ctx" where
  "chacha20_block ctx =
     (let working = chacha_rounds 10 (cstate ctx);
          working = map2 (+) working (cstate ctx);
          output = concat (map bytes_le working)
      in (output, ctx\<lparr>cstate := chacha_next (cstate ctx)\<rparr>))"

function crypto_chacha20_xor :: "chacha_ctx \<Rightarrow> u8 list \<Rightarrow> u8 list \<times> chacha_ctx" where
  "crypto_chacha20_xor ctx data =
     (if data = [] then ([], ctx)
      else let (keystream, ctx) = chacha20_block ctx;
               chunk = (if length data < 64 then length data else 64);
               (rest, ctx) = crypto_chacha20_xor ctx (drop chunk data)
           in (map2 (XOR) (take chunk data) keystream @ rest, ctx))"
  by pat_completeness auto
termination
  by (relation "measure (\<lambda>(ctx, data). length data)") (auto simp: length_greater_0_conv simp del: length_greater_0_conv split: if_splits)

declare crypto_chacha20_xor.simps [simp del]

definition crypto_chacha20_encrypt :: "chacha_ctx \<Rightarrow> u8 list \<Rightarrow> u8 list \<times> chacha_ctx" where
  "crypto_chacha20_encrypt ctx src = crypto_chacha20_xor ctx src"

definition crypto_chacha20_decrypt :: "chacha_ctx \<Rightarrow> u8 list \<Rightarrow> u8 list \<times> chacha_ctx" where
  "crypto_chacha20_decrypt ctx src = crypto_chacha20_encrypt ctx src"

section \<open>The random number generator\<close>

record rng_t =
  rctx :: chacha_ctx
  pool :: "u8 list"
  pool_idx :: nat
  reseed_counter :: u64
  initialized :: bool
  rdrand_ok :: bool

text \<open>The answer of the RDRAND instruction with \<open>retry\<close> tries left after it: the carry flag and the value.\<close>

fun rdrand64 :: "nat \<Rightarrow> (nat \<Rightarrow> bool \<times> u64) \<Rightarrow> u64" where
  "rdrand64 0 rdrand = 0"
| "rdrand64 (Suc retry) rdrand = (let (ok, val) = rdrand retry in if ok then val else rdrand64 retry rdrand)"

definition crypto_memzero :: "u8 list \<Rightarrow> u8 list" where "crypto_memzero p = map (\<lambda>_. 0) p"

definition rdrand_available :: "u32 \<Rightarrow> bool" where "rdrand_available ecx = (ecx AND push_bit 30 1 \<noteq> 0)"

definition add_entropy :: "u8 list \<Rightarrow> rng_t \<Rightarrow> rng_t" where
  "add_entropy data g = foldl (\<lambda>g x. g\<lparr>pool := (pool g)[pool_idx g := pool g ! pool_idx g XOR x], pool_idx := (pool_idx g + 1) mod 256\<rparr>) g data"

definition entropy_bytes :: "u64 \<Rightarrow> u8 list" where "entropy_bytes e = map (\<lambda>i. ucast (drop_bit (8 * i) e)) [0..<8]"

record entropy_source =
  es_tsc :: u64
  es_rdrand :: "nat \<Rightarrow> bool \<times> u64"
  es_rsp :: u64
  es_flags :: u64

definition collect_entropy :: "entropy_source \<Rightarrow> rng_t \<Rightarrow> rng_t" where
  "collect_entropy e g =
     (let entropy = 0 XOR es_tsc e;
          g = add_entropy (entropy_bytes entropy) g;
          (entropy, g) = (if rdrand_ok g then
              let entropy = entropy XOR rdrand64 10 (es_rdrand e) in (entropy, add_entropy (entropy_bytes entropy) g)
            else (entropy, g));
          entropy = entropy XOR es_rsp e;
          g = add_entropy (entropy_bytes entropy) g;
          entropy = entropy XOR es_flags e
      in add_entropy (entropy_bytes entropy) g)"

definition crypto_rng_reseed :: "u8 list \<Rightarrow> entropy_source \<Rightarrow> rng_t \<Rightarrow> rng_t" where
  "crypto_rng_reseed junk e g =
     (if \<not> initialized g then g
      else let (new_key, ctx) = crypto_chacha20_xor (rctx g) junk;
               g = collect_entropy e (g\<lparr>rctx := ctx\<rparr>);
               new_key = map2 (XOR) new_key (take 32 (pool g));
               g = g\<lparr>rctx := crypto_chacha20_init new_key (take 12 (pool g))\<rparr>
           in g\<lparr>reseed_counter := reseed_counter g + 1\<rparr>)"

definition crypto_rng_init :: "u32 \<Rightarrow> (nat \<Rightarrow> entropy_source) \<Rightarrow> u8 list \<Rightarrow> entropy_source \<Rightarrow> rng_t" where
  "crypto_rng_init ecx es junk e =
     (let g = \<lparr>rctx = \<lparr>cstate = replicate 16 0\<rparr>, pool = replicate 256 0, pool_idx = 0, reseed_counter = 0, initialized = False,
               rdrand_ok = rdrand_available ecx\<rparr>;
          g = foldl (\<lambda>g i. collect_entropy (es i) g) g [0..<32];
          g = g\<lparr>rctx := crypto_chacha20_init (pool g) (map (\<lambda>i. pool g ! i XOR pool g ! (32 + i)) [0..<12])\<rparr>;
          g = g\<lparr>initialized := True\<rparr>
      in crypto_rng_reseed junk e g)"

abbreviation (input) CRYPTO_OK :: int where "CRYPTO_OK \<equiv> 0"
abbreviation (input) CRYPTO_ERR_INVALID_PARAM :: int where "CRYPTO_ERR_INVALID_PARAM \<equiv> - 1"
abbreviation (input) CRYPTO_ERR_HARDWARE_FAIL :: int where "CRYPTO_ERR_HARDWARE_FAIL \<equiv> - 4"

text \<open>The buffer is \<open>None\<close> for the null pointer; otherwise the result is what it holds afterwards.\<close>

definition crypto_get_random_bytes :: "u8 list option \<Rightarrow> u8 list \<Rightarrow> entropy_source \<Rightarrow> rng_t \<Rightarrow> int \<times> u8 list option \<times> rng_t" where
  "crypto_get_random_bytes buf junk e g =
     (case buf of
        None \<Rightarrow> (CRYPTO_ERR_INVALID_PARAM, None, g)
      | Some b \<Rightarrow>
          if length b = 0 then (CRYPTO_ERR_INVALID_PARAM, buf, g)
          else if \<not> initialized g then (CRYPTO_ERR_HARDWARE_FAIL, buf, g)
          else let g = (if reseed_counter g > 1024 * 1024 div 64 then crypto_rng_reseed junk e g else g);
                   (out, ctx) = crypto_chacha20_xor (rctx g) b;
                   g = g\<lparr>rctx := ctx, reseed_counter := reseed_counter g + of_nat (length b)\<rparr>
               in (CRYPTO_OK, Some out, g))"

section \<open>Self-tests\<close>

definition check_digest :: "u8 list option \<Rightarrow> u8 list \<Rightarrow> int option" where
  "check_digest digest expected =
     (case digest of None \<Rightarrow> None | Some d \<Rightarrow> Some (if d = expected then CRYPTO_OK else CRYPTO_ERR_HARDWARE_FAIL))"

definition crypto_test_md5 :: "hash_ctx \<Rightarrow> int option" where
  "crypto_test_md5 junk =
     check_digest (crypto_md5 junk [0x61, 0x62, 0x63])
       [0x90, 0x01, 0x50, 0x98, 0x3c, 0xd2, 0x4f, 0xb0, 0xd6, 0x96, 0x3f, 0x7d, 0x28, 0xe1, 0x7f, 0x72]"

definition crypto_test_sha1 :: "hash_ctx \<Rightarrow> int option" where
  "crypto_test_sha1 junk =
     check_digest (crypto_sha1 junk [0x61, 0x62, 0x63])
       [0xa9, 0x99, 0x3e, 0x36, 0x47, 0x06, 0x81, 0x6a, 0xba, 0x3e, 0x25, 0x71, 0x78, 0x50, 0xc2, 0x6c, 0x9c, 0xd0, 0xd8, 0x9d]"

definition crypto_test_sha256 :: "hash_ctx \<Rightarrow> int option" where
  "crypto_test_sha256 junk =
     check_digest (crypto_sha256 junk [0x61, 0x62, 0x63])
       [0xba, 0x78, 0x16, 0xbf, 0x8f, 0x01, 0xcf, 0xea, 0x41, 0x41, 0x40, 0xde, 0x5d, 0xae, 0x22, 0x23,
        0xb0, 0x03, 0x61, 0xa3, 0x96, 0x17, 0x7a, 0x9c, 0xb4, 0x10, 0xff, 0x61, 0xf2, 0x00, 0x15, 0xad]"

definition crypto_test_chacha20 :: int where
  "crypto_test_chacha20 =
     (let key = replicate 32 0; iv = replicate 12 0; plaintext = map of_nat [0..<64];
          (ciphertext, ctx) = crypto_chacha20_encrypt (crypto_chacha20_init key iv) plaintext;
          (decrypted, ctx) = crypto_chacha20_decrypt (crypto_chacha20_init key iv) ciphertext
      in if decrypted = plaintext then CRYPTO_OK else CRYPTO_ERR_HARDWARE_FAIL)"

definition crypto_test_rng :: "u8 list \<Rightarrow> u8 list \<Rightarrow> entropy_source \<Rightarrow> rng_t \<Rightarrow> int \<times> rng_t" where
  "crypto_test_rng buf junk e g =
     (let (r, out, g) = crypto_get_random_bytes (Some buf) junk e g;
          non_zero = length (filter (\<lambda>b. b \<noteq> 0) (the out))
      in (if non_zero > 0 then CRYPTO_OK else CRYPTO_ERR_HARDWARE_FAIL, g))"

definition crypto_self_test :: "hash_ctx \<Rightarrow> u8 list \<Rightarrow> u8 list \<Rightarrow> entropy_source \<Rightarrow> rng_t \<Rightarrow> (int \<times> rng_t) option" where
  "crypto_self_test junk buf kjunk e g =
     Option.bind (crypto_test_md5 junk) (\<lambda>r1.
     Option.bind (crypto_test_sha1 junk) (\<lambda>r2.
     Option.bind (crypto_test_sha256 junk) (\<lambda>r3.
     let r4 = crypto_test_chacha20;
         (r5, g) = crypto_test_rng buf kjunk e g;
         failed = length (filter (\<lambda>r. r \<noteq> CRYPTO_OK) [r1, r2, r3, r4, r5])
     in Some (if failed = 0 then CRYPTO_OK else CRYPTO_ERR_HARDWARE_FAIL, g))))"

section \<open>The key stream\<close>

lemma CHACHA_QR_length [simp]: "length (CHACHA_QR a b c d w) = length w" by (simp add: CHACHA_QR_def qr_add_def qr_mix_def)

text \<open>The quarter-round vector of RFC 8439, section 2.1.1.\<close>

lemma quarter_round_vector:
  "CHACHA_QR 0 1 2 3 [0x11111111, 0x01020304, 0x9b8d6f43, 0x01234567] = [0xea2a92f4, 0xcb1cf8ce, 0x4581472e, 0x5881c4bb]"
  by code_simp

lemma rounds_length [simp]: "length (chacha_rounds n w) = length w"
  by (induction n arbitrary: w) (simp_all add: chacha_double_round_def)

lemma block_length: "length (cstate ctx) = 16 \<Longrightarrow> length (fst (chacha20_block ctx)) = 64"
  by (simp add: chacha20_block_def Let_def length_concat comp_def bytes_le_def sum_list_triv)

lemma xor_map2: "length ks \<ge> length xs \<Longrightarrow> map2 (XOR) (map2 (XOR) xs ks) ks = (xs :: u8 list)"
proof (induction xs arbitrary: ks)
  case (Cons x xs)
  then obtain k ks' where "ks = k # ks'" by (cases ks) auto
  with Cons show ?case by (simp add: xor.assoc)
qed simp

lemma xor_step:
  assumes "chacha20_block ctx = (ks, ctx')" "data \<noteq> []"
  shows "crypto_chacha20_xor ctx data =
    (let (rest, ctx'') = crypto_chacha20_xor ctx' (drop 64 data) in (map2 (XOR) (take 64 data) ks @ rest, ctx''))"
  using assms by (subst crypto_chacha20_xor.simps) (auto simp: Let_def split: prod.splits)

lemma block_state_length: "length (cstate (snd (chacha20_block ctx))) = length (cstate ctx)"
  by (simp add: chacha20_block_def Let_def chacha_next_def)

lemma xor_twice:
  "length (cstate ctx) = 16 \<Longrightarrow> crypto_chacha20_xor ctx data = (out, ctx') \<Longrightarrow> length out = length data \<and> crypto_chacha20_xor ctx out = (data, ctx')"
proof (induction "length data" arbitrary: ctx data out ctx' rule: less_induct)
  case less
  show ?case
  proof (cases "data = []")
    case True
    then show ?thesis using less.prems by (auto simp: crypto_chacha20_xor.simps [of _ "[]"])
  next
    case False
    obtain ks c1 where b: "chacha20_block ctx = (ks, c1)" by fastforce
    have ks: "length ks = 64" using block_length [OF less.prems(1)] b by simp
    obtain rest c2 where r: "crypto_chacha20_xor c1 (drop 64 data) = (rest, c2)" by fastforce
    let ?x = "map2 (XOR) (take 64 data) ks"
    have o: "out = ?x @ rest" "ctx' = c2" using less.prems(2) xor_step [OF b False] r by simp_all
    have ih: "length rest = length (drop 64 data)" "crypto_chacha20_xor c1 rest = (drop 64 data, c2)"
      using less.hyps [OF _ _ r] False block_state_length [of ctx] b less.prems(1) by simp_all
    have lx: "length ?x = min (length data) 64" using ks by simp
    have "out \<noteq> []" using o lx False by (cases data) auto
    have parts: "take 64 out = ?x" "drop 64 out = rest"
    proof -
      have "length ?x = 64 \<or> rest = []"
      proof (cases "64 \<le> length data")
        case False
        then have "length rest = 0" using ih(1) by simp
        then show ?thesis by simp
      qed (use lx in simp)
      then show "take 64 out = ?x" "drop 64 out = rest" using o(1) lx by auto
    qed
    have "map2 (XOR) ?x ks = take 64 data" using xor_map2 [of "take 64 data" ks] ks by simp
    then have "crypto_chacha20_xor ctx out = (take 64 data @ drop 64 data, c2)"
      by (simp only: xor_step [OF b \<open>out \<noteq> []\<close>] parts ih Let_def prod.case)
    moreover have "length out = length ?x + length rest" by (simp only: o length_append)
    then have "length out = length data" by (simp only: lx ih length_drop)
    ultimately show ?thesis using o(2) by simp
  qed
qed

text \<open>Whole blocks leave the context where the next call goes on.\<close>

lemma xor_append:
  "64 dvd length xs \<Longrightarrow> crypto_chacha20_xor ctx (xs @ ys) =
    (let (o1, c1) = crypto_chacha20_xor ctx xs; (o2, c2) = crypto_chacha20_xor c1 ys in (o1 @ o2, c2))"
proof (induction "length xs" arbitrary: ctx xs rule: less_induct)
  case less
  show ?case
  proof (cases "xs = []")
    case True
    then show ?thesis by (simp add: crypto_chacha20_xor.simps [of ctx "[]"])
  next
    case False
    then have l: "64 \<le> length xs" using less.prems by (simp add: dvd_imp_le)
    obtain ks c where b: "chacha20_block ctx = (ks, c)" by fastforce
    have "64 dvd length (drop 64 xs)" using less.prems l by (simp add: dvd_diff_nat)
    from less.hyps [OF _ this, of c] False
    have "crypto_chacha20_xor c (drop 64 xs @ ys) =
      (let (o1, c1) = crypto_chacha20_xor c (drop 64 xs); (o2, c2) = crypto_chacha20_xor c1 ys in (o1 @ o2, c2))" by simp
    then show ?thesis using xor_step [OF b False] xor_step [OF b, of "xs @ ys"] False l
      by (simp add: Let_def split: prod.splits)
  qed
qed

text \<open>The words 12 and 13 are a 64-bit block counter.\<close>

definition block_counter :: "chacha_ctx \<Rightarrow> nat" where
  "block_counter ctx = unat (cstate ctx ! 12) + 2 ^ 32 * unat (cstate ctx ! 13)"

lemma chacha_next_counter:
  assumes "length st = 16" "unat (st ! 12) + 2 ^ 32 * unat (st ! 13) + 1 < 2 ^ 64"
  shows "unat (chacha_next st ! 12) + 2 ^ 32 * unat (chacha_next st ! 13) = unat (st ! 12) + 2 ^ 32 * unat (st ! 13) + 1"
    "length (chacha_next st) = 16"
proof -
  show "length (chacha_next st) = 16" using assms(1) by (simp add: chacha_next_def Let_def)
  show "unat (chacha_next st ! 12) + 2 ^ 32 * unat (chacha_next st ! 13) = unat (st ! 12) + 2 ^ 32 * unat (st ! 13) + 1"
  proof (cases "st ! 12 + 1 = 0")
    case True
    then have a: "st ! 12 = - 1" by (simp add: eq_neg_iff_add_eq_0)
    have "unat (- 1 :: u32) = 2 ^ 32 - 1" by (simp add: unsigned_minus_1_eq_mask mask_eq_exp_minus_1)
    then have "unat (st ! 12) = 2 ^ 32 - 1" using a by simp
    moreover from this have "unat (st ! 13) + 1 < 2 ^ 32" using assms(2) by simp
    then have "unat (st ! 13 + 1) = unat (st ! 13) + 1" by (simp add: unat_word_ariths)
    ultimately show ?thesis using True assms(1) by (simp add: chacha_next_def Let_def)
  next
    case False
    then have "unat (st ! 12 + 1) = unat (st ! 12) + 1" using unatSuc [of "st ! 12"] by (simp add: add.commute)
    then show ?thesis using False assms(1) by (simp add: chacha_next_def Let_def)
  qed
qed

text \<open>But word 13 is also the first word of the nonce: when word 12 wraps, the stream goes on as the stream of another nonce.\<close>

lemma counter_enters_nonce:
  assumes "cstate ctx = pre @ [- 1, n0, n1, n2]" "length pre = 12"
  shows "cstate (snd (chacha20_block ctx)) = pre @ [0, n0 + 1, n1, n2]"
proof -
  have "(pre @ [- 1, n0, n1, n2])[12 := 0] = pre @ [0, n0, n1, n2]" using assms(2) by (simp add: list_update_append)
  moreover have "(pre @ [0, n0, n1, n2])[13 := n0 + 1] = pre @ [0, n0 + 1, n1, n2]" using assms(2) by (simp add: list_update_append)
  ultimately show ?thesis using assms by (simp add: chacha20_block_def Let_def chacha_next_def nth_append)
qed

section \<open>The generator's invariant\<close>

definition rng_ok :: "rng_t \<Rightarrow> bool" where
  "rng_ok g = (length (pool g) = 256 \<and> pool_idx g < 256 \<and> length (cstate (rctx g)) = 16)"

lemma add_entropy_ok:
  "rng_ok g \<Longrightarrow> rng_ok (add_entropy data g) \<and> initialized (add_entropy data g) = initialized g \<and>
    reseed_counter (add_entropy data g) = reseed_counter g"
  by (induction data arbitrary: g) (simp_all add: add_entropy_def rng_ok_def)

lemma collect_entropy_ok:
  "rng_ok g \<Longrightarrow> rng_ok (collect_entropy e g) \<and> initialized (collect_entropy e g) = initialized g \<and>
    reseed_counter (collect_entropy e g) = reseed_counter g"
  by (simp add: collect_entropy_def Let_def add_entropy_ok)

lemma words_le_length: "length (words_le bs) = length bs div 4"
  by (induction bs rule: words_le.induct) simp_all

lemma chacha20_init_length: "32 \<le> length key \<Longrightarrow> 12 \<le> length iv \<Longrightarrow> length (cstate (crypto_chacha20_init key iv)) = 16"
  by (simp add: crypto_chacha20_init_def words_le_length)

lemma xor_state_length: "crypto_chacha20_xor ctx data = (out, ctx') \<Longrightarrow> length (cstate ctx') = length (cstate ctx)"
proof (induction "length data" arbitrary: ctx data out ctx' rule: less_induct)
  case less
  show ?case
  proof (cases "data = []")
    case True
    then show ?thesis using less.prems by (simp add: crypto_chacha20_xor.simps [of _ "[]"])
  next
    case False
    obtain ks c1 where b: "chacha20_block ctx = (ks, c1)" by fastforce
    have l: "length (cstate c1) = length (cstate ctx)" using b block_state_length [of ctx] by simp
    obtain rest c2 where r: "crypto_chacha20_xor c1 (drop 64 data) = (rest, c2)" by fastforce
    have "length (cstate c2) = length (cstate c1)" using less.hyps [OF _ r] False by simp
    then show ?thesis using less.prems xor_step [OF b False] r l by simp
  qed
qed

lemma reseed_ok:
  assumes "rng_ok g" "length junk = 32"
  shows "rng_ok (crypto_rng_reseed junk e g) \<and> initialized (crypto_rng_reseed junk e g) = initialized g \<and>
    (initialized g \<longrightarrow> reseed_counter (crypto_rng_reseed junk e g) = reseed_counter g + 1)"
proof -
  obtain k c where x: "crypto_chacha20_xor (rctx g) junk = (k, c)" by fastforce
  have "length k = 32" "length (cstate c) = 16"
    using xor_twice [OF _ x] xor_state_length [OF x] assms by (simp_all add: rng_ok_def)
  moreover from this have "rng_ok (g\<lparr>rctx := c\<rparr>)" using assms(1) by (simp add: rng_ok_def)
  note c = collect_entropy_ok [OF this, of e]
  ultimately show ?thesis using assms(1) c x by (simp add: crypto_rng_reseed_def Let_def rng_ok_def chacha20_init_length)
qed

lemma rng_init_ok:
  assumes "length junk = 32"
  shows "rng_ok (crypto_rng_init ecx es junk e) \<and> initialized (crypto_rng_init ecx es junk e) \<and> reseed_counter (crypto_rng_init ecx es junk e) = 1"
proof -
  define g0 where "g0 = \<lparr>rctx = \<lparr>cstate = replicate 16 0\<rparr>, pool = replicate 256 0, pool_idx = 0, reseed_counter = 0, initialized = False,
               rdrand_ok = rdrand_available ecx\<rparr>"
  define g1 where "g1 = foldl (\<lambda>g i. collect_entropy (es i) g) g0 [0..<32]"
  have fold: "rng_ok g \<Longrightarrow> rng_ok (foldl (\<lambda>g i. collect_entropy (es i) g) g is) \<and>
      reseed_counter (foldl (\<lambda>g i. collect_entropy (es i) g) g is) = reseed_counter g" for g "is"
    by (induction "is" arbitrary: g) (simp_all add: collect_entropy_ok)
  have g1: "rng_ok g1" "reseed_counter g1 = 0" using fold [of g0] by (simp_all add: g1_def g0_def rng_ok_def)
  define g2 where "g2 = g1\<lparr>rctx := crypto_chacha20_init (pool g1) (map (\<lambda>i. pool g1 ! i XOR pool g1 ! (32 + i)) [0..<12]), initialized := True\<rparr>"
  have "rng_ok g2" using g1(1) by (simp add: g2_def rng_ok_def chacha20_init_length)
  moreover have "crypto_rng_init ecx es junk e = crypto_rng_reseed junk e g2"
    by (simp add: crypto_rng_init_def Let_def g2_def g1_def g0_def)
  ultimately show ?thesis using reseed_ok [OF _ assms, of g2 e] g1(2) by (simp add: g2_def)
qed

lemma random_bytes_run:
  fixes e :: entropy_source
  assumes "rng_ok g" "length junk = 32" "initialized g" "b \<noteq> []"
  defines "g1 \<equiv> (if reseed_counter g > 16384 then crypto_rng_reseed junk e g else g)"
  shows "\<exists>out g'. crypto_get_random_bytes (Some b) junk e g = (CRYPTO_OK, Some out, g') \<and> length out = length b \<and>
    out = fst (crypto_chacha20_xor (rctx g1) b) \<and> rng_ok g' \<and> initialized g' \<and>
    reseed_counter g' = reseed_counter g1 + of_nat (length b)"
proof -
  obtain out c where x: "crypto_chacha20_xor (rctx g1) b = (out, c)" by fastforce
  have g1: "rng_ok g1" "initialized g1" using reseed_ok [OF assms(1,2)] assms(1,3) by (simp_all add: g1_def)
  have "length out = length b" "length (cstate c) = 16"
    using xor_twice [OF _ x] xor_state_length [OF x] g1(1) by (simp_all add: rng_ok_def)
  moreover have "crypto_get_random_bytes (Some b) junk e g =
      (CRYPTO_OK, Some out, g1\<lparr>rctx := c, reseed_counter := reseed_counter g1 + of_nat (length b)\<rparr>)"
    using x assms(3,4) by (simp add: crypto_get_random_bytes_def g1_def Let_def)
  ultimately show ?thesis using g1 x by (simp add: rng_ok_def)
qed

text \<open>A request after any number of requests: each is the buffer, what the uninitialised key array holds and the processor's answers.\<close>

fun rng_requests :: "(u8 list \<times> u8 list \<times> entropy_source) list \<Rightarrow> rng_t \<Rightarrow> rng_t" where
  "rng_requests [] g = g"
| "rng_requests ((b, junk, e) # rs) g = rng_requests rs (snd (snd (crypto_get_random_bytes (Some b) junk e g)))"

lemma rng_requests_ok:
  "rng_ok g \<Longrightarrow> initialized g \<Longrightarrow> list_all (\<lambda>(b, junk, e). length junk = 32) rs \<Longrightarrow>
    rng_ok (rng_requests rs g) \<and> initialized (rng_requests rs g)"
proof (induction rs arbitrary: g)
  case (Cons r rs)
  obtain b junk e where r: "r = (b, junk, e)" by (cases r)
  have "rng_ok (snd (snd (crypto_get_random_bytes (Some b) junk e g))) \<and> initialized (snd (snd (crypto_get_random_bytes (Some b) junk e g)))"
  proof (cases "b = []")
    case True
    then show ?thesis using Cons.prems by (simp add: crypto_get_random_bytes_def)
  next
    case False
    then show ?thesis using random_bytes_run [OF Cons.prems(1) _ Cons.prems(2), of junk b e] Cons.prems(3) r by auto
  qed
  then show ?case using Cons r by simp
qed simp

lemma reseeds_forever:
  assumes "rng_ok g" "length junk = 32" "initialized g" "b \<noteq> []" "reseed_counter g > 16384"
    "unat (reseed_counter g) + length b + 1 < 2 ^ 64"
  shows "reseed_counter (snd (snd (crypto_get_random_bytes (Some b) junk e g))) > 16384"
proof -
  have "reseed_counter (snd (snd (crypto_get_random_bytes (Some b) junk e g))) = reseed_counter g + 1 + of_nat (length b)"
    using random_bytes_run [OF assms(1-4), of e] reseed_ok [OF assms(1,2), of e] assms(3,5) by auto
  moreover have "unat (reseed_counter g + 1 + of_nat (length b)) = unat (reseed_counter g) + 1 + length b"
    using assms(6) by (simp add: unat_word_ariths unat_of_nat)
  moreover have "16384 < unat (reseed_counter g)" using assms(5) by (simp add: word_less_nat_alt)
  ultimately show ?thesis by (simp add: word_less_nat_alt)
qed

text \<open>The generator's test looks at the buffer and not at the result: it passes on an uninitialised generator when the stack holds a nonzero byte.\<close>

lemma rng_test_ignores_error:
  assumes "\<not> initialized g" "\<exists>x \<in> set buf. x \<noteq> 0"
  shows "fst (crypto_test_rng buf junk e g) = CRYPTO_OK"
    "fst (crypto_get_random_bytes (Some buf) junk e g) \<noteq> CRYPTO_OK"
  using assms by (auto simp: crypto_test_rng_def crypto_get_random_bytes_def Let_def filter_empty_conv)

lemma chacha20_self_test: "crypto_test_chacha20 = CRYPTO_OK"
proof -
  let ?c = "crypto_chacha20_init (replicate 32 0) (replicate 12 0)"
  obtain out c where x: "crypto_chacha20_xor ?c (map of_nat [0..<64]) = (out, c)" by fastforce
  then show ?thesis using xor_twice [OF _ x]
    by (simp add: chacha20_init_length crypto_test_chacha20_def crypto_chacha20_encrypt_def crypto_chacha20_decrypt_def)
qed

section \<open>Properties\<close>

text \<open>
  C18 (roundtrip). From every context of sixteen words, decrypting with the context encryption started from gives the plaintext back, of every
  length, and leaves the context where encryption left it; the ciphertext has the plaintext's length; encrypting whole blocks first and the rest
  with the context they leave is encrypting at once; and the code's own ChaCha20 self-test passes.
\<close>

theorem chacha_roundtrip:
  assumes "length (cstate ctx) = 16"
  shows "crypto_chacha20_decrypt ctx (fst (crypto_chacha20_encrypt ctx d)) = (d, snd (crypto_chacha20_encrypt ctx d)) \<and>
    length (fst (crypto_chacha20_encrypt ctx d)) = length d \<and>
    (64 dvd length d \<longrightarrow> fst (crypto_chacha20_encrypt ctx (d @ d')) =
      fst (crypto_chacha20_encrypt ctx d) @ fst (crypto_chacha20_encrypt (snd (crypto_chacha20_encrypt ctx d)) d')) \<and>
    crypto_test_chacha20 = CRYPTO_OK"
proof -
  obtain out c where x: "crypto_chacha20_xor ctx d = (out, c)" by fastforce
  have "fst (crypto_chacha20_encrypt ctx (d @ d')) =
      fst (crypto_chacha20_encrypt ctx d) @ fst (crypto_chacha20_encrypt (snd (crypto_chacha20_encrypt ctx d)) d')" if "64 dvd length d"
    using xor_append [OF that, of ctx d'] by (simp add: crypto_chacha20_encrypt_def split: prod.splits)
  then show ?thesis using xor_twice [OF assms x] x chacha20_self_test
    by (simp add: crypto_chacha20_encrypt_def crypto_chacha20_decrypt_def)
qed

theorem chacha_roundtrip_witness:
  "let ctx = crypto_chacha20_init (replicate 32 7) (replicate 12 9); d = replicate 64 1 in
    crypto_chacha20_decrypt ctx (fst (crypto_chacha20_encrypt ctx d)) = (d, snd (crypto_chacha20_encrypt ctx d)) \<and>
    fst (crypto_chacha20_encrypt ctx (d @ [1, 2])) =
      fst (crypto_chacha20_encrypt ctx d) @ fst (crypto_chacha20_encrypt (snd (crypto_chacha20_encrypt ctx d)) [1, 2])"
proof -
  let ?ctx = "crypto_chacha20_init (replicate 32 7) (replicate 12 9)" and ?d = "replicate 64 1 :: u8 list"
  have c: "length (cstate ?ctx) = 16" by (simp add: chacha20_init_length)
  have "64 dvd length ?d" by simp
  then show ?thesis using chacha_roundtrip [OF c, of ?d "[1, 2]"] unfolding Let_def by blast
qed


definition sample_entropy :: entropy_source where
  "sample_entropy = \<lparr>es_tsc = 123456789, es_rdrand = (\<lambda>retry. (retry < 8, of_nat retry)), es_rsp = 0xFFFF800000100000, es_flags = 0x202\<rparr>"


end
