(* ===== verification/KFormat.thy ===== *)
theory KFormat
  imports KString
begin

text \<open>
  The formatted output of \<^verbatim>\<open>src/libk/vsnprintf.c\<close>.

  The output goes to the byte memory. The format is the list of its characters up to the terminator; an argument string is the list of its
  characters too, which the output is taken not to overwrite. An argument that is missing or not of the kind its conversion asks for is
  undefined in C and \<open>None\<close> here. The floating-point arithmetic of the \<^verbatim>\<open>f\<close> conversion is the parameter \<open>fparts\<close>: from the argument and
  the precision it gives the integral part and the scaled fraction; their output is modelled.

  The lemmas show that no call writes outside its buffer, that a call leaves a terminated string, and what the conversions print.
\<close>

section \<open>Output\<close>

record printf_state =
  pmem :: mem
  pstr :: u64
  psize :: u64
  written :: u64

definition out_char :: "printf_state \<Rightarrow> u8 \<Rightarrow> printf_state" where
  "out_char st c =
     (let st = (if written st < psize st then st\<lparr>pmem := (pmem st)(pstr st + written st := c)\<rparr> else st)
      in st\<lparr>written := written st + 1\<rparr>)"

definition out_string :: "printf_state \<Rightarrow> u8 list \<Rightarrow> u64 \<Rightarrow> printf_state" where
  "out_string st s len =
     (if len = - 1 then foldl out_char st (takeWhile (\<lambda>c. c \<noteq> 0) s) else foldl out_char st (take (unat len) s))"

text \<open>The loop \<^verbatim>\<open>for (i = 0; i < n && state.written < size; i++) out_char(&state, ' ')\<close>.\<close>

fun out_spaces :: "nat \<Rightarrow> printf_state \<Rightarrow> printf_state" where
  "out_spaces 0 st = st"
| "out_spaces (Suc n) st = (if written st < psize st then out_spaces n (out_char st 0x20) else st)"

definition digits_lower :: "u8 list" where
  "digits_lower = [0x30, 0x31, 0x32, 0x33, 0x34, 0x35, 0x36, 0x37, 0x38, 0x39, 0x61, 0x62, 0x63, 0x64, 0x65, 0x66]"

definition digits_upper :: "u8 list" where
  "digits_upper = [0x30, 0x31, 0x32, 0x33, 0x34, 0x35, 0x36, 0x37, 0x38, 0x39, 0x41, 0x42, 0x43, 0x44, 0x45, 0x46]"

text \<open>The digits as the loop stores them, the lowest first. The bases are 10 and 16.\<close>

function itoa_loop :: "nat \<Rightarrow> nat \<Rightarrow> u8 list \<Rightarrow> u8 list" where
  "itoa_loop num base digits =
     (if num > 0 \<and> 2 \<le> base then digits ! (num mod base) # itoa_loop (num div base) base digits else [])"
  by pat_completeness auto
termination
  by (relation "measure fst") (auto intro: div_less_dividend)

declare itoa_loop.simps [simp del]

definition itoa_base :: "u64 \<Rightarrow> nat \<Rightarrow> bool \<Rightarrow> u8 list" where
  "itoa_base num base upper =
     (let digits = (if upper then digits_upper else digits_lower)
      in rev (if num = 0 then [0x30] else itoa_loop (unat num) base digits))"

definition out_num :: "printf_state \<Rightarrow> u64 \<Rightarrow> nat \<Rightarrow> int \<Rightarrow> bool \<Rightarrow> bool \<Rightarrow> bool \<Rightarrow> printf_state" where
  "out_num st num base width zero_pad upper negative =
     (let num_str = itoa_base num base upper;
          num_len = int (length num_str);
          sign_len = (if negative then 1 else 0);
          total_len = num_len + sign_len;
          pad = (if width > total_len then width - total_len else 0);
          st = (if negative then out_char st 0x2D else st);
          st = foldl out_char st (replicate (nat pad) (if \<not> zero_pad then 0x20 else 0x30))
      in out_string st num_str (of_int num_len))"

section \<open>Conversion specifications\<close>

definition peek :: "u8 list \<Rightarrow> u8" where "peek fmt = (case fmt of [] \<Rightarrow> 0 | c # cs \<Rightarrow> c)"

text \<open>An \<^verbatim>\<open>int\<close> that is read digit by digit, in 32 bits.\<close>

fun parse_number :: "u32 \<Rightarrow> u8 list \<Rightarrow> u32 \<times> u8 list" where
  "parse_number n [] = (n, [])"
| "parse_number n (c # cs) =
     (if 0x30 \<le> c \<and> c \<le> 0x39 then parse_number (n * 10 + (ucast c - 0x30)) cs else (n, c # cs))"

datatype length_mod = LM_none | LM_char | LM_short | LM_long | LM_long_long

record fmt_spec =
  left_align :: bool
  zero_pad :: bool
  width :: u32
  precision :: "u32 option"
  lmod :: length_mod

definition parse_flag :: "u8 \<Rightarrow> u8 list \<Rightarrow> bool \<times> u8 list" where
  "parse_flag c fmt = (if peek fmt = c then (True, tl fmt) else (False, fmt))"

definition parse_precision :: "u8 list \<Rightarrow> u32 option \<times> u8 list" where
  "parse_precision fmt =
     (if peek fmt = 0x2E then (let (n, fmt) = parse_number 0 (tl fmt) in (Some n, fmt)) else (None, fmt))"

definition parse_length :: "u8 list \<Rightarrow> length_mod \<times> u8 list" where
  "parse_length fmt =
     (if peek fmt = 0x68 then (let fmt = tl fmt in if peek fmt = 0x68 then (LM_char, tl fmt) else (LM_short, fmt))
      else if peek fmt = 0x6C then (let fmt = tl fmt in if peek fmt = 0x6C then (LM_long_long, tl fmt) else (LM_long, fmt))
      else if peek fmt = 0x7A then (LM_long, tl fmt)
      else (LM_none, fmt))"

definition parse_spec :: "u8 list \<Rightarrow> fmt_spec \<times> u8 list" where
  "parse_spec fmt =
     (let (la, fmt) = parse_flag 0x2D fmt;
          (zp, fmt) = parse_flag 0x30 fmt;
          (w, fmt) = parse_number 0 fmt;
          (p, fmt) = parse_precision fmt;
          (l, fmt) = parse_length fmt
      in (\<lparr>left_align = la, zero_pad = zp, width = w, precision = p, lmod = l\<rparr>, fmt))"

section \<open>Arguments\<close>

datatype va_arg = ArgInt u64 | ArgStr "u8 list option" | ArgDouble u64

fun va_int :: "va_arg list \<Rightarrow> (u64 \<times> va_arg list) option" where
  "va_int (ArgInt v # args) = Some (v, args)"
| "va_int _ = None"

fun va_str :: "va_arg list \<Rightarrow> (u8 list option \<times> va_arg list) option" where
  "va_str (ArgStr s # args) = Some (s, args)"
| "va_str _ = None"

fun va_double :: "va_arg list \<Rightarrow> (u64 \<times> va_arg list) option" where
  "va_double (ArgDouble d # args) = Some (d, args)"
| "va_double _ = None"

fun signed_arg :: "length_mod \<Rightarrow> u64 \<Rightarrow> u64" where
  "signed_arg LM_long_long v = v"
| "signed_arg LM_long v = v"
| "signed_arg LM_short v = scast (ucast v :: u16)"
| "signed_arg LM_char v = scast (ucast v :: u8)"
| "signed_arg LM_none v = scast (ucast v :: u32)"

fun unsigned_arg :: "length_mod \<Rightarrow> u64 \<Rightarrow> u64" where
  "unsigned_arg LM_long_long v = v"
| "unsigned_arg LM_long v = v"
| "unsigned_arg LM_short v = ucast (ucast v :: u16)"
| "unsigned_arg LM_char v = ucast (ucast v :: u8)"
| "unsigned_arg LM_none v = ucast (ucast v :: u32)"

section \<open>Conversions\<close>

type_synonym conv_result = "(printf_state \<times> va_arg list) option"

definition null_text :: "u8 list" where "null_text = [0x28, 0x6E, 0x75, 0x6C, 0x6C, 0x29]"

definition conv_s :: "printf_state \<Rightarrow> fmt_spec \<Rightarrow> va_arg list \<Rightarrow> conv_result" where
  "conv_s st sp args =
     Option.bind (va_str args) (\<lambda>(s, args).
       let s = takeWhile (\<lambda>c. c \<noteq> 0) (case s of None \<Rightarrow> null_text | Some s \<Rightarrow> s);
           n = nat (sint (width sp - of_nat (length s)));
           st = (if \<not> left_align sp then out_spaces n st else st);
           st = out_string st s (- 1);
           st = (if left_align sp then out_spaces n st else st)
       in Some (st, args))"

definition conv_c :: "printf_state \<Rightarrow> fmt_spec \<Rightarrow> va_arg list \<Rightarrow> conv_result" where
  "conv_c st sp args =
     Option.bind (va_int args) (\<lambda>(v, args).
       let n = nat (sint (width sp - 1));
           st = (if \<not> left_align sp then out_spaces n st else st);
           st = out_char st (ucast v);
           st = (if left_align sp then out_spaces n st else st)
       in Some (st, args))"

definition conv_d :: "printf_state \<Rightarrow> fmt_spec \<Rightarrow> va_arg list \<Rightarrow> conv_result" where
  "conv_d st sp args =
     Option.bind (va_int args) (\<lambda>(v, args).
       let n = signed_arg (lmod sp) v;
           negative = (sint n < 0);
           un = (if negative then - n else n);
           w = (if negative then width sp - 1 else width sp)
       in Some (out_num st un 10 (sint w) (zero_pad sp) False negative, args))"

definition conv_u :: "printf_state \<Rightarrow> fmt_spec \<Rightarrow> va_arg list \<Rightarrow> conv_result" where
  "conv_u st sp args =
     Option.bind (va_int args) (\<lambda>(v, args).
       Some (out_num st (unsigned_arg (lmod sp) v) 10 (sint (width sp)) (zero_pad sp) False False, args))"

definition conv_x :: "bool \<Rightarrow> printf_state \<Rightarrow> fmt_spec \<Rightarrow> va_arg list \<Rightarrow> conv_result" where
  "conv_x upper st sp args =
     Option.bind (va_int args) (\<lambda>(v, args).
       Some (out_num st (unsigned_arg (lmod sp) v) 16 (sint (width sp)) (zero_pad sp) upper False, args))"

definition conv_p :: "printf_state \<Rightarrow> va_arg list \<Rightarrow> conv_result" where
  "conv_p st args =
     Option.bind (va_int args) (\<lambda>(v, args).
       let st = out_string st [0x30, 0x78] 2 in Some (out_num st v 16 16 True False False, args))"

definition conv_f :: "(u64 \<Rightarrow> u32 \<Rightarrow> u32 \<times> u32) \<Rightarrow> printf_state \<Rightarrow> fmt_spec \<Rightarrow> va_arg list \<Rightarrow> conv_result" where
  "conv_f fparts st sp args =
     Option.bind (va_double args) (\<lambda>(d, args).
       let prec = (case precision sp of None \<Rightarrow> 2 | Some p \<Rightarrow> if sint p < 0 then 2 else p);
           (int_part, frac_part) = fparts d prec;
           int_str = itoa_base (scast (if sint int_part < 0 then - int_part else int_part)) 10 False;
           st = (if sint int_part < 0 then out_char st 0x2D else st);
           st = out_string st int_str (- 1);
           st = out_char st 0x2E;
           frac_str = itoa_base (scast frac_part) 10 False;
           st = foldl out_char st (replicate (nat (sint prec - int (length frac_str))) 0x30)
       in Some (out_string st frac_str (- 1), args))"

text \<open>The switch on the specifier; the character after it is next unless the format ends here.\<close>

definition convert :: "(u64 \<Rightarrow> u32 \<Rightarrow> u32 \<times> u32) \<Rightarrow> printf_state \<Rightarrow> fmt_spec \<Rightarrow> u8 \<Rightarrow> va_arg list \<Rightarrow> conv_result" where
  "convert fparts st sp c args =
     (if c = 0x73 then conv_s st sp args
      else if c = 0x63 then conv_c st sp args
      else if c = 0x64 \<or> c = 0x69 then conv_d st sp args
      else if c = 0x66 then conv_f fparts st sp args
      else if c = 0x75 then conv_u st sp args
      else if c = 0x78 \<or> c = 0x58 then conv_x (c = 0x58) st sp args
      else if c = 0x70 then conv_p st args
      else if c = 0x25 then Some (out_char st 0x25, args)
      else let st = out_char st 0x25 in Some (if c \<noteq> 0 then out_char st c else st, args))"

lemma parse_number_length: "length (snd (parse_number n fmt)) \<le> length fmt"
  by (induction n fmt rule: parse_number.induct) (auto intro: le_SucI)

lemma parse_spec_length: "length (snd (parse_spec fmt)) \<le> length fmt"
proof -
  have f: "length (snd (parse_flag c fmt)) \<le> length fmt" for c fmt by (simp add: parse_flag_def)
  have p: "length (snd (parse_precision fmt)) \<le> length fmt" for fmt
    using parse_number_length [of 0 "tl fmt"] by (simp add: parse_precision_def split_beta) linarith
  have l: "length (snd (parse_length fmt)) \<le> length fmt" for fmt by (simp add: parse_length_def Let_def)
  show ?thesis
    using l [of "snd (parse_precision (snd (parse_number 0 (snd (parse_flag 0x30 (snd (parse_flag 0x2D fmt)))))))"]
      p [of "snd (parse_number 0 (snd (parse_flag 0x30 (snd (parse_flag 0x2D fmt)))))"]
      parse_number_length [of 0 "snd (parse_flag 0x30 (snd (parse_flag 0x2D fmt)))"]
      f [of "0x30" "snd (parse_flag 0x2D fmt)"] f [of "0x2D" fmt]
    by (simp add: parse_spec_def split_beta Let_def)
qed

section \<open>The interpreter\<close>

function vsnprintf_loop :: "(u64 \<Rightarrow> u32 \<Rightarrow> u32 \<times> u32) \<Rightarrow> printf_state \<Rightarrow> u8 list \<Rightarrow> va_arg list \<Rightarrow> printf_state option" where
  "vsnprintf_loop fparts st fmt args =
     (if fmt = [] \<or> \<not> written st < psize st then Some st
      else if hd fmt \<noteq> 0x25 then vsnprintf_loop fparts (out_char st (hd fmt)) (tl fmt) args
      else let r = parse_spec (tl fmt) in
        case convert fparts st (fst r) (peek (snd r)) args of
          None \<Rightarrow> None
        | Some (st, args) \<Rightarrow> vsnprintf_loop fparts st (tl (snd r)) args)"
  by pat_completeness auto
termination
proof (relation "measure (\<lambda>(fparts, st, fmt, args). length fmt)")
  fix fmt :: "u8 list" and st :: printf_state and r
  assume "\<not> (fmt = [] \<or> \<not> written st < psize st)" "r = parse_spec (tl fmt)"
  then have "length (tl (snd r)) < length fmt"
    using parse_spec_length [of "tl fmt"] by (cases fmt) auto
  then show "\<And>fparts fparts' args st' args'.
      ((fparts, st', tl (snd r), args'), fparts', st, fmt, args) \<in> measure (\<lambda>(fparts, st, fmt, args). length fmt)" by simp
qed simp_all

declare vsnprintf_loop.simps [simp del]

definition vsnprintf :: "(u64 \<Rightarrow> u32 \<Rightarrow> u32 \<times> u32) \<Rightarrow> mem \<Rightarrow> u64 \<Rightarrow> u64 \<Rightarrow> u8 list \<Rightarrow> va_arg list \<Rightarrow> (u32 \<times> mem) option" where
  "vsnprintf fparts mem str n fmt args =
     (if n = 0 then Some (0, mem)
      else case vsnprintf_loop fparts \<lparr>pmem = mem, pstr = str, psize = n, written = 0\<rparr> fmt args of
          None \<Rightarrow> None
        | Some st \<Rightarrow>
            Some (ucast (written st),
              if written st < n then (pmem st)(str + written st := 0) else (pmem st)(str + (n - 1) := 0)))"

definition snprintf :: "(u64 \<Rightarrow> u32 \<Rightarrow> u32 \<times> u32) \<Rightarrow> mem \<Rightarrow> u64 \<Rightarrow> u64 \<Rightarrow> u8 list \<Rightarrow> va_arg list \<Rightarrow> (u32 \<times> mem) option" where
  "snprintf fparts mem str n fmt args = vsnprintf fparts mem str n fmt args"

definition sprintf :: "(u64 \<Rightarrow> u32 \<Rightarrow> u32 \<times> u32) \<Rightarrow> mem \<Rightarrow> u64 \<Rightarrow> u8 list \<Rightarrow> va_arg list \<Rightarrow> (u32 \<times> mem) option" where
  "sprintf fparts mem str fmt args = vsnprintf fparts mem str 0x7FFFFFFF fmt args"

section \<open>Every conversion only emits characters\<close>

definition emits :: "printf_state \<Rightarrow> printf_state \<Rightarrow> bool" where "emits st st' = (\<exists>xs. st' = foldl out_char st xs)"

lemma emits_refl [simp, intro]: "emits st st" unfolding emits_def by (rule exI [of _ "[]"]) simp

lemma emits_foldl [simp, intro]: "emits st (foldl out_char st xs)" by (auto simp: emits_def)

lemma emits_char [simp, intro]: "emits st (out_char st c)" unfolding emits_def by (rule exI [of _ "[c]"]) simp

lemma emits_trans: "emits st st' \<Longrightarrow> emits st' st'' \<Longrightarrow> emits st st''"
  unfolding emits_def by (metis foldl_append)

lemma emits_string [simp, intro]: "emits st (out_string st s len)" by (simp add: out_string_def)

lemma emits_spaces [simp, intro]: "emits st (out_spaces n st)"
proof (induction n arbitrary: st)
  case (Suc n)
  then show ?case using emits_trans [OF emits_char Suc] by simp
qed simp

lemma emits_num [simp, intro]: "emits st (out_num st num base w zp upper negative)"
  unfolding out_num_def Let_def
  by (rule emits_trans [OF _ emits_string], rule emits_trans [OF _ emits_foldl]) simp

lemma emits_convert: "convert fparts st sp c args = Some (st', args') \<Longrightarrow> emits st st'"
proof -
  assume a: "convert fparts st sp c args = Some (st', args')"
  have s: "conv_s st sp args = Some (st', args') \<Longrightarrow> emits st st'"
    by (auto simp: conv_s_def Let_def bind_eq_Some_conv intro: emits_trans [OF emits_spaces emits_string] emits_trans [OF emits_string emits_spaces])
  have ch: "conv_c st sp args = Some (st', args') \<Longrightarrow> emits st st'"
    by (auto simp: conv_c_def Let_def bind_eq_Some_conv intro: emits_trans [OF emits_spaces emits_char] emits_trans [OF emits_char emits_spaces])
  have p: "conv_p st args = Some (st', args') \<Longrightarrow> emits st st'"
    by (auto simp: conv_p_def Let_def bind_eq_Some_conv intro: emits_trans [OF emits_string emits_num])
  have f: "conv_f fparts st sp args = Some (st', args') \<Longrightarrow> emits st st'"
    by (auto simp: conv_f_def Let_def split_beta bind_eq_Some_conv intro!: emits_trans [OF _ emits_string]
        emits_trans [OF _ emits_foldl] emits_trans [OF _ emits_char])
  have n: "conv_d st sp args = Some (st', args') \<Longrightarrow> emits st st'" "conv_u st sp args = Some (st', args') \<Longrightarrow> emits st st'"
    "conv_x u st sp args = Some (st', args') \<Longrightarrow> emits st st'" for u
    by (auto simp: conv_d_def conv_u_def conv_x_def Let_def bind_eq_Some_conv)
  show ?thesis using a s ch p f n emits_trans [OF emits_char emits_char]
    by (auto simp: convert_def Let_def split: if_splits)
qed

lemma emits_loop: "vsnprintf_loop fparts st fmt args = Some st' \<Longrightarrow> emits st st'"
proof (induction fparts st fmt args rule: vsnprintf_loop.induct)
  case (1 fparts st fmt args)
  show ?case
  proof (cases "fmt = [] \<or> \<not> written st < psize st \<or> hd fmt \<noteq> 0x25")
    case True
    then show ?thesis using 1 emits_trans [OF emits_char]
      by (subst (asm) vsnprintf_loop.simps) (auto split: if_splits)
  next
    case False
    let ?r = "parse_spec (tl fmt)"
    obtain st1 args1 where c: "convert fparts st (fst ?r) (peek (snd ?r)) args = Some (st1, args1)"
      using "1.prems" False by (subst (asm) vsnprintf_loop.simps) (auto simp: Let_def split: option.splits)
    have "vsnprintf_loop fparts st1 (tl (snd ?r)) args1 = Some st'"
      using "1.prems" False c by (subst (asm) vsnprintf_loop.simps) (auto simp: Let_def)
    then show ?thesis using "1.IH"(2) [OF _ _ refl c refl] False emits_trans [OF emits_convert [OF c]] by simp
  qed
qed

lemma emits_frame:
  assumes "emits st st'"
  shows "pstr st' = pstr st \<and> psize st' = psize st \<and> (\<forall>a. \<not> a - pstr st < psize st \<longrightarrow> pmem st' a = pmem st a)"
proof -
  obtain xs where "st' = foldl out_char st xs" using assms by (auto simp: emits_def)
  then show ?thesis by (induction xs arbitrary: st) (auto simp: out_char_def Let_def)
qed

section \<open>What is printed\<close>

lemma put_take_snoc:
  assumes "length xs < 2 ^ 64"
  shows "(if of_nat (length xs) < (n :: u64) then (put mem str (take (unat n) xs))(str + of_nat (length xs) := c) else put mem str (take (unat n) xs)) =
    put mem str (take (unat n) (xs @ [c]))"
proof -
  have "(of_nat (length xs) < n) = (length xs < unat n)" using assms by (simp add: word_less_nat_alt unat_of_nat)
  then show ?thesis using put_snoc [of xs mem str c] assms by simp
qed

lemma out_char_state:
  "out_char \<lparr>pmem = mem, pstr = str, psize = n, written = w\<rparr> c =
    \<lparr>pmem = (if w < n then mem(str + w := c) else mem), pstr = str, psize = n, written = w + 1\<rparr>"
  by (simp add: out_char_def)

lemma foldl_out_char:
  "length xs < 2 ^ 64 \<Longrightarrow> foldl out_char \<lparr>pmem = mem, pstr = str, psize = n, written = 0\<rparr> xs =
    \<lparr>pmem = put mem str (take (unat n) xs), pstr = str, psize = n, written = of_nat (length xs)\<rparr>"
proof (induction xs rule: rev_induct)
  case (snoc c xs)
  then have "foldl out_char \<lparr>pmem = mem, pstr = str, psize = n, written = 0\<rparr> xs =
      \<lparr>pmem = put mem str (take (unat n) xs), pstr = str, psize = n, written = of_nat (length xs)\<rparr>" by simp
  then show ?case unfolding foldl_append foldl.simps using put_take_snoc [of xs n mem str c] snoc.prems
    by (simp only: out_char_state) simp
qed simp

lemma loop_end: "vsnprintf_loop fparts st [] args = Some st" by (simp add: vsnprintf_loop.simps)

lemma loop_literal:
  "written st < psize st \<Longrightarrow> c \<noteq> 0x25 \<Longrightarrow> vsnprintf_loop fparts st (c # fmt) args = vsnprintf_loop fparts (out_char st c) fmt args"
  by (simp add: vsnprintf_loop.simps [of _ st])

lemma itoa_loop_length: "m < 2 ^ k \<Longrightarrow> length (itoa_loop m b ds) \<le> k"
proof (induction k arbitrary: m)
  case (Suc k)
  have "m div b < 2 ^ k" if "2 \<le> b"
  proof -
    have "m div b \<le> m div 2" using that by (simp add: div_le_mono2)
    then show ?thesis using Suc.prems by simp
  qed
  then show ?case using Suc.IH [of "m div b"] by (simp add: itoa_loop.simps [of m])
qed (simp add: itoa_loop.simps)

lemma itoa_base_length: "length (itoa_base n b u) \<le> 64"
proof -
  have "unat n < 2 ^ 64" using unsigned_less [of n] by simp
  then have "length (itoa_loop (unat n) b ds) \<le> 64" for ds by (rule itoa_loop_length)
  then show ?thesis by (simp add: itoa_base_def Let_def)
qed

lemma out_string_number: "out_string st (itoa_base n b u) (of_nat (length (itoa_base n b u))) = foldl out_char st (itoa_base n b u)"
proof -
  have "unat (of_nat (length (itoa_base n b u)) :: u64) = length (itoa_base n b u)"
    using itoa_base_length [of n b u] by (simp add: unat_of_nat)
  moreover from this have "of_nat (length (itoa_base n b u)) \<noteq> (- 1 :: u64)"
    using itoa_base_length [of n b u] by (auto simp: unsigned_minus_1_eq_mask mask_eq_exp_minus_1)
  ultimately show ?thesis by (simp add: out_string_def)
qed

lemma out_num_text:
  "out_num st n b w zp u False = foldl out_char st
    (replicate (nat (w - int (length (itoa_base n b u)))) (if zp then 0x30 else 0x20) @ itoa_base n b u)"
  by (simp add: out_num_def Let_def out_string_number)

lemma loop_u:
  assumes "written st < psize st"
  shows "vsnprintf_loop fparts st (0x25 # 0x75 # fmt) (ArgInt v # args) =
    vsnprintf_loop fparts (foldl out_char st (itoa_base (ucast (ucast v :: u32)) 10 False)) fmt args"
proof -
  have "parse_spec (0x75 # fmt) = (\<lparr>left_align = False, zero_pad = False, width = 0, precision = None, lmod = LM_none\<rparr>, 0x75 # fmt)"
    by (simp add: parse_spec_def parse_flag_def parse_precision_def parse_length_def peek_def)
  then show ?thesis using assms
    by (simp add: vsnprintf_loop.simps [of _ st] Let_def convert_def conv_u_def peek_def out_num_text)
qed

lemma loop_02x:
  assumes "written st < psize st"
  shows "vsnprintf_loop fparts st (0x25 # 0x30 # 0x32 # 0x78 # fmt) (ArgInt v # args) =
    vsnprintf_loop fparts (foldl out_char st
      (let s = itoa_base (ucast (ucast v :: u32)) 16 False in replicate (2 - length s) 0x30 @ s)) fmt args"
proof -
  have "parse_spec (0x30 # 0x32 # 0x78 # fmt) = (\<lparr>left_align = False, zero_pad = True, width = 2, precision = None, lmod = LM_none\<rparr>, 0x78 # fmt)"
    by (simp add: parse_spec_def parse_flag_def parse_precision_def parse_length_def peek_def)
  moreover have "nat (2 - int k) = 2 - k" for k by simp
  ultimately show ?thesis using assms
    by (simp add: vsnprintf_loop.simps [of _ st] Let_def convert_def conv_x_def peek_def out_num_text)
qed

text \<open>The sign of a negative number comes before the blanks that fill its width, and they are one too few.\<close>

definition at_text :: "mem \<Rightarrow> u64 \<Rightarrow> nat \<Rightarrow> u8 list" where "at_text mem p n = map (\<lambda>i. mem (p + of_nat i)) [0..<n]"

lemmas fmt_eval = snprintf_def vsnprintf_def vsnprintf_loop.simps parse_spec_def parse_flag_def parse_precision_def parse_length_def peek_def
  convert_def conv_d_def conv_u_def conv_x_def out_num_def itoa_base_def itoa_loop.simps digits_lower_def out_string_def out_char_state Let_def

lemma replicate_3: "replicate 3 c = [c, c, c]" by (simp add: numeral_3_eq_3)

lemma width_of_negative:
  "map_option (\<lambda>(r, mem). (r, at_text mem 0x1000 5))
    (snprintf (\<lambda>_ _. (0, 0)) (\<lambda>_. 0xFF) 0x1000 16 [0x25, 0x35, 0x64] [ArgInt (- 42)]) =
   Some (4, [0x2D, 0x20, 0x34, 0x32, 0])"
  by (simp add: fmt_eval replicate_3, simp add: at_text_def upt_rec)

text \<open>A number is not aligned to the left: \<^verbatim>\<open>%-4u|\<close> prints as \<^verbatim>\<open>%4u|\<close>.\<close>

lemma left_align_ignored:
  "map_option (\<lambda>(r, mem). (r, at_text mem 0x1000 6))
    (snprintf (\<lambda>_ _. (0, 0)) (\<lambda>_. 0xFF) 0x1000 16 [0x25, 0x2D, 0x34, 0x75, 0x7C] [ArgInt 7]) =
   Some (5, [0x20, 0x20, 0x20, 0x37, 0x7C, 0])"
  by (simp add: fmt_eval replicate_3, simp add: at_text_def upt_rec)

section \<open>Properties\<close>

text \<open>
  C0 (safety). A formatted print that is given the arguments its format asks for writes no byte outside the \<open>n\<close> bytes of its buffer, whatever the
  format, the widths and the arguments, and leaves a terminator in it; with \<open>n\<close> zero it writes nothing.
\<close>

theorem vsnprintf_safe:
  assumes "vsnprintf fparts mem str n fmt args = Some (r, mem')"
  shows "(\<forall>a. \<not> a - str < n \<longrightarrow> mem' a = mem a) \<and> (n \<noteq> 0 \<longrightarrow> (\<exists>i < n. mem' (str + i) = 0)) \<and> (n = 0 \<longrightarrow> mem' = mem)"
proof (cases "n = 0")
  case False
  let ?st0 = "\<lparr>pmem = mem, pstr = str, psize = n, written = 0\<rparr>"
  obtain st where l: "vsnprintf_loop fparts ?st0 fmt args = Some st"
    using assms False by (auto simp: vsnprintf_def split: option.splits)
  define k where "k = (if written st < n then written st else n - 1)"
  have k: "k < n" using False by (simp add: k_def word_less_nat_alt unat_minus_one unat_gt_0)
  have m: "mem' = (pmem st)(str + k := 0)" using assms False l by (auto simp: vsnprintf_def k_def)
  have "\<forall>a. \<not> a - str < n \<longrightarrow> pmem st a = mem a" using emits_frame [OF emits_loop [OF l]] by simp
  then show ?thesis using k m False by (auto intro!: exI [of _ k])
qed (use assms in \<open>simp add: vsnprintf_def\<close>)

theorem vsnprintf_safe_witness:
  "let mem' = snd (the (vsnprintf (\<lambda>_ _. (0, 0)) (\<lambda>_. 0xFF) 0x1000 4 [0x25, 0x35, 0x75, 0x21] [ArgInt 42])) in
    (\<forall>a. \<not> a - 0x1000 < 4 \<longrightarrow> mem' a = 0xFF) \<and> (\<exists>i < 4. mem' (0x1000 + i) = 0)"
proof -
  have "vsnprintf (\<lambda>_ _. (0, 0)) (\<lambda>_. 0xFF) 0x1000 4 [0x25, 0x35, 0x75, 0x21] [ArgInt 42] \<noteq> None"
    by (simp add: fmt_eval replicate_3)
  then obtain r mem' where "vsnprintf (\<lambda>_ _. (0, 0)) (\<lambda>_. 0xFF) 0x1000 4 [0x25, 0x35, 0x75, 0x21] [ArgInt 42] = Some (r, mem')" by auto
  from vsnprintf_safe [OF this] this show ?thesis by simp
qed

end
