(* ===== verification/KNet.thy ===== *)
theory KNet
  imports KFormat
begin

text \<open>
  The lower half of the network stack: packet buffers and devices (\<^verbatim>\<open>src/kernel/net/net.c\<close>), Ethernet frames (\<^verbatim>\<open>src/kernel/net/ethernet.c\<close>)
  and address resolution (\<^verbatim>\<open>src/kernel/net/arp.c\<close>).

  A packet buffer is a value that the operations take and return; its pointers lead into the byte memory of the state. Devices are records
  behind their addresses, and the list of devices is the list of these addresses. Blocks of bytes are written by \<open>put\<close>, which is what
  \<open>KString\<close> shows \<^verbatim>\<open>memcpy\<close> and \<^verbatim>\<open>memset\<close> to do. The transmit function of a driver is a parameter that answers a frame; the state
  keeps the frames handed to it. Addresses that \<^verbatim>\<open>malloc\<close> returns and readings of the tick counter are arguments. A packet buffer that is
  passed on is never the null pointer. Console output is left out.

  The lemmas show what the buffer operations keep, which bytes a frame carries, and that the cache finds what was last added to it.
\<close>

section \<open>Byte order\<close>

definition htons :: "u16 \<Rightarrow> u16" where "htons n = drop_bit 8 n OR push_bit 8 n"
definition ntohs :: "u16 \<Rightarrow> u16" where "ntohs n = drop_bit 8 n OR push_bit 8 n"

text \<open>The bytes of a 16-bit and a 32-bit field in memory, and back.\<close>

definition le16 :: "u16 \<Rightarrow> u8 list" where "le16 w = [ucast w, ucast (drop_bit 8 w)]"
definition of_le16 :: "u8 list \<Rightarrow> u16" where "of_le16 bs = ucast (bs ! 0) OR push_bit 8 (ucast (bs ! 1))"
definition octets :: "u32 \<Rightarrow> u8 list" where "octets a = [ucast a, ucast (drop_bit 8 a), ucast (drop_bit 16 a), ucast (drop_bit 24 a)]"

definition of_octets :: "u8 list \<Rightarrow> u32" where
  "of_octets bs = ucast (bs ! 0) OR push_bit 8 (ucast (bs ! 1)) OR push_bit 16 (ucast (bs ! 2)) OR push_bit 24 (ucast (bs ! 3))"

section \<open>Packet buffers\<close>

record net_buf =
  nb_data :: u64
  nb_head :: u64
  nb_tail :: u64
  nb_end :: u64
  nb_len :: u32
  nb_headroom :: u32
  nb_truesize :: u32
  nb_protocol :: u16
  nb_ifindex :: u32
  nb_dev :: u64

abbreviation (input) NET_HEADROOM :: u32 where "NET_HEADROOM \<equiv> 64"

text \<open>\<open>pb\<close> and \<open>ph\<close> are what \<^verbatim>\<open>malloc\<close> returns for the structure and for the bytes.\<close>

definition net_alloc_buf :: "u64 \<Rightarrow> u64 \<Rightarrow> u32 \<Rightarrow> net_buf option" where
  "net_alloc_buf pb ph n =
     (if pb = 0 then None
      else let total_size = n + NET_HEADROOM in
        if ph = 0 then None
        else Some \<lparr>nb_data = ph + ucast NET_HEADROOM, nb_head = ph, nb_tail = ph + ucast NET_HEADROOM, nb_end = ph + ucast total_size,
                   nb_len = 0, nb_headroom = NET_HEADROOM, nb_truesize = total_size, nb_protocol = 0, nb_ifindex = 0, nb_dev = 0\<rparr>)"

definition net_reserve :: "u32 \<Rightarrow> net_buf \<Rightarrow> net_buf" where
  "net_reserve headroom buf =
     (if headroom > nb_headroom buf then buf
      else buf\<lparr>nb_data := nb_data buf + ucast headroom, nb_headroom := nb_headroom buf - headroom\<rparr>)"

definition net_put :: "u32 \<Rightarrow> net_buf \<Rightarrow> net_buf" where
  "net_put len buf =
     (if nb_tail buf + ucast len > nb_end buf then buf
      else buf\<lparr>nb_tail := nb_tail buf + ucast len, nb_len := nb_len buf + len\<rparr>)"

definition net_pull :: "u32 \<Rightarrow> net_buf \<Rightarrow> net_buf" where
  "net_pull len buf =
     (if len > nb_len buf then buf
      else buf\<lparr>nb_data := nb_data buf + ucast len, nb_len := nb_len buf - len\<rparr>)"

section \<open>Devices\<close>

datatype net_device_type = NET_TYPE_NONE | NET_TYPE_ETHERNET | NET_TYPE_WIFI | NET_TYPE_LOOPBACK | NET_TYPE_PPP | NET_TYPE_BRIDGE

record net_device =
  d_name :: "u8 list"
  d_index :: u32
  d_type :: net_device_type
  d_mac :: "u8 list"
  d_ip :: "u8 list"
  d_up :: bool
  d_running :: bool
  d_xmit :: bool

datatype rx_handler = RX_ipv4 | RX_ipv6 | RX_arp | RX_other nat

record arp_cache_entry =
  ae_ip :: u32
  ae_mac :: "u8 list"
  ae_time :: u64
  ae_valid :: bool

record net_state =
  nmem :: mem
  net_devices :: "u64 list"
  devs :: "u64 \<Rightarrow> net_device"
  net_device_count :: u32
  eth_protocols :: "u16 \<Rightarrow> rx_handler option"
  arp_cache :: "arp_cache_entry list"
  pending_ip :: u32
  pending_completed :: bool
  pending_waiting :: bool
  xmitted :: "(u64 \<times> u8 list) list"

definition net_register_device :: "u64 \<Rightarrow> 'a net_state_scheme \<Rightarrow> int \<times> 'a net_state_scheme" where
  "net_register_device dev st =
     (if dev = 0 then (- 1, st)
      else (0, st\<lparr>devs := (devs st)(dev := (devs st dev)\<lparr>d_index := net_device_count st\<rparr>), net_device_count := net_device_count st + 1,
                  net_devices := net_devices st @ [dev]\<rparr>))"

definition net_unregister_device :: "u64 \<Rightarrow> 'a net_state_scheme \<Rightarrow> int \<times> 'a net_state_scheme" where
  "net_unregister_device dev st =
     (if dev = 0 then (- 1, st)
      else (0, st\<lparr>net_devices := remove1 dev (net_devices st), net_device_count := net_device_count st - 1\<rparr>))"

definition first_device :: "(net_device \<Rightarrow> bool) \<Rightarrow> 'a net_state_scheme \<Rightarrow> u64" where
  "first_device P st = (case filter (\<lambda>d. P (devs st d)) (net_devices st) of [] \<Rightarrow> 0 | d # ds \<Rightarrow> d)"

definition net_get_device :: "u32 \<Rightarrow> 'a net_state_scheme \<Rightarrow> u64" where "net_get_device i st = first_device (\<lambda>d. d_index d = i) st"

definition net_get_device_by_name :: "u8 list \<Rightarrow> 'a net_state_scheme \<Rightarrow> u64" where
  "net_get_device_by_name name st = first_device (\<lambda>d. d_name d = name) st"

definition net_get_first_device :: "'a net_state_scheme \<Rightarrow> u64" where
  "net_get_first_device st = (case net_devices st of [] \<Rightarrow> 0 | d # ds \<Rightarrow> d)"

definition net_get_first_active :: "'a net_state_scheme \<Rightarrow> u64" where
  "net_get_first_active st = first_device (\<lambda>d. d_up d \<and> d_running d) st"

definition net_get_devices_by_type :: "net_device_type \<Rightarrow> int \<Rightarrow> 'a net_state_scheme \<Rightarrow> u64 list" where
  "net_get_devices_by_type ty limit st =
     (if limit \<le> 0 then [] else take (nat limit) (filter (\<lambda>d. d_type (devs st d) = ty) (net_devices st)))"

text \<open>The bytes that a driver is given to send.\<close>

definition frame_of :: "mem \<Rightarrow> net_buf \<Rightarrow> u8 list" where "frame_of mem buf = at_text mem (nb_data buf) (unat (nb_len buf))"

definition net_tx :: "(u64 \<Rightarrow> u8 list \<Rightarrow> int) \<Rightarrow> net_buf \<Rightarrow> u64 \<Rightarrow> 'a net_state_scheme \<Rightarrow> int \<times> 'a net_state_scheme" where
  "net_tx xmit buf dev st =
     (if dev = 0 then (- 1, st)
      else if \<not> d_xmit (devs st dev) then (- 1, st)
      else let f = frame_of (nmem st) buf in (xmit dev f, st\<lparr>xmitted := xmitted st @ [(dev, f)]\<rparr>))"

section \<open>Ethernet\<close>

abbreviation (input) ETH_P_IP :: u16 where "ETH_P_IP \<equiv> 0x0800"
abbreviation (input) ETH_P_ARP :: u16 where "ETH_P_ARP \<equiv> 0x0806"
abbreviation (input) ETH_P_IPV6 :: u16 where "ETH_P_IPV6 \<equiv> 0x86DD"

definition ETH_MAC_BROADCAST :: "u8 list" where "ETH_MAC_BROADCAST = replicate 6 0xFF"

definition mac_format :: "u8 list" where
  "mac_format = [0x25, 0x30, 0x32, 0x78, 0x3A, 0x25, 0x30, 0x32, 0x78, 0x3A, 0x25, 0x30, 0x32, 0x78, 0x3A,
                 0x25, 0x30, 0x32, 0x78, 0x3A, 0x25, 0x30, 0x32, 0x78, 0x3A, 0x25, 0x30, 0x32, 0x78]"

definition ethernet_mac_ntop :: "(u64 \<Rightarrow> u32 \<Rightarrow> u32 \<times> u32) \<Rightarrow> mem \<Rightarrow> u8 list \<Rightarrow> u64 \<Rightarrow> u64 \<Rightarrow> (u32 \<times> mem) option" where
  "ethernet_mac_ntop fparts mem mac buf n = snprintf fparts mem buf n mac_format (map (\<lambda>b. ArgInt (ucast b)) (take 6 mac))"

definition hex_digit :: "u8 \<Rightarrow> u32 option" where
  "hex_digit c =
     (if 0x30 \<le> c \<and> c \<le> 0x39 then Some (ucast (c - 0x30))
      else if 0x61 \<le> c \<and> c \<le> 0x66 then Some (ucast (c - 0x61 + 10))
      else if 0x41 \<le> c \<and> c \<le> 0x46 then Some (ucast (c - 0x41 + 10))
      else None)"

text \<open>The loop with \<open>n\<close> bytes to come, on the string up to its terminator; \<open>None\<close> is the result -1.\<close>

fun mac_pton_loop :: "nat \<Rightarrow> u8 list \<Rightarrow> u8 list option" where
  "mac_pton_loop 0 str = Some []"
| "mac_pton_loop (Suc n) str =
     (case hex_digit (peek str) of
        None \<Rightarrow> None
      | Some hi \<Rightarrow>
          case hex_digit (peek (tl str)) of
            None \<Rightarrow> None
          | Some lo \<Rightarrow>
              let str = tl (tl str);
                  str = (if n > 0 \<and> peek str = 0x3A then tl str else str)
              in map_option (\<lambda>mac. ucast ((hi * 16 + lo) AND 0xFF) # mac) (mac_pton_loop n str))"

definition ethernet_mac_pton :: "u8 list \<Rightarrow> u8 list option" where "ethernet_mac_pton str = mac_pton_loop 6 str"

definition ethernet_mac_equal :: "u8 list \<Rightarrow> u8 list \<Rightarrow> bool" where "ethernet_mac_equal mac1 mac2 = (take 6 mac1 = take 6 mac2)"

definition eth_header :: "u8 list \<Rightarrow> u8 list \<Rightarrow> u16 \<Rightarrow> u8 list" where
  "eth_header dst src ty = take 6 dst @ take 6 src @ le16 (htons ty)"

definition ethernet_output ::
    "(u64 \<Rightarrow> u8 list \<Rightarrow> int) \<Rightarrow> net_buf \<Rightarrow> u64 \<Rightarrow> u8 list \<Rightarrow> u16 \<Rightarrow> 'a net_state_scheme \<Rightarrow> int \<times> net_buf \<times> 'a net_state_scheme" where
  "ethernet_output xmit buf dev dst_mac ty st =
     (if dev = 0 then (- 1, buf, st)
      else let buf = net_reserve 14 buf;
               mem = put (nmem st) (nb_data buf) (eth_header dst_mac (d_mac (devs st dev)) ty);
               (mem, buf) = (if nb_len buf < 64 - 14 then
                   let pad = 64 - 14 - nb_len buf
                   in (put mem (nb_data buf + ucast (nb_len buf)) (replicate (unat pad) 0), buf\<lparr>nb_len := nb_len buf + pad\<rparr>)
                 else (mem, buf));
               f = frame_of mem buf
           in (xmit dev f, buf, st\<lparr>nmem := mem, xmitted := xmitted st @ [(dev, f)]\<rparr>))"

text \<open>A received frame: the handler it goes to and the buffer the handler gets, or nothing.\<close>

definition ethernet_input :: "net_buf \<Rightarrow> u64 \<Rightarrow> 'a net_state_scheme \<Rightarrow> (rx_handler \<times> net_buf) option" where
  "ethernet_input buf dev st =
     (if nb_len buf < 14 then None
      else let eth = at_text (nmem st) (nb_data buf) 14;
               ty = ntohs (of_le16 (drop 12 eth));
               buf = net_pull 14 buf
           in if \<not> ethernet_mac_equal (take 6 eth) (d_mac (devs st dev)) \<and> \<not> ethernet_mac_equal (take 6 eth) ETH_MAC_BROADCAST then None
              else case eth_protocols st ty of None \<Rightarrow> None | Some h \<Rightarrow> Some (h, buf))"

definition net_rx :: "net_buf \<Rightarrow> u64 \<Rightarrow> 'a net_state_scheme \<Rightarrow> int \<times> (rx_handler \<times> net_buf) option" where
  "net_rx buf dev st = (if dev = 0 then (- 1, None) else (0, ethernet_input (buf\<lparr>nb_dev := dev\<rparr>) dev st))"

definition ethernet_register_protocol :: "u16 \<Rightarrow> rx_handler \<Rightarrow> 'a net_state_scheme \<Rightarrow> int \<times> 'a net_state_scheme" where
  "ethernet_register_protocol ty h st =
     (if eth_protocols st ty \<noteq> None then (- 1, st) else (0, st\<lparr>eth_protocols := (eth_protocols st)(ty := Some h)\<rparr>))"

definition ethernet_unregister_protocol :: "u16 \<Rightarrow> 'a net_state_scheme \<Rightarrow> 'a net_state_scheme" where
  "ethernet_unregister_protocol ty st = st\<lparr>eth_protocols := (eth_protocols st)(ty := None)\<rparr>"

definition ethernet_init :: "'a net_state_scheme \<Rightarrow> 'a net_state_scheme" where
  "ethernet_init st =
     (let st = st\<lparr>eth_protocols := (\<lambda>_. None)\<rparr>;
          st = snd (ethernet_register_protocol ETH_P_IP RX_ipv4 st);
          st = snd (ethernet_register_protocol ETH_P_IPV6 RX_ipv6 st)
      in snd (ethernet_register_protocol ETH_P_ARP RX_arp st))"

section \<open>The ARP cache\<close>

text \<open>The search loop: the index of the entry for the address, or the entry to overwrite.\<close>

fun arp_scan :: "nat \<Rightarrow> u32 \<Rightarrow> arp_cache_entry list \<Rightarrow> nat option \<Rightarrow> u64 \<Rightarrow> nat + nat option" where
  "arp_scan i ip [] oldest oldest_time = Inr oldest"
| "arp_scan i ip (e # es) oldest oldest_time =
     (if ae_valid e \<and> ae_ip e = ip then Inl i
      else if \<not> ae_valid e then Inr (Some i)
      else if ae_time e < oldest_time then arp_scan (Suc i) ip es (Some i) (ae_time e)
      else arp_scan (Suc i) ip es oldest oldest_time)"

definition arp_cache_add :: "u64 \<Rightarrow> u32 \<Rightarrow> u8 list \<Rightarrow> arp_cache_entry list \<Rightarrow> arp_cache_entry list" where
  "arp_cache_add now ip mac es =
     (case arp_scan 0 ip es None (NOT 0) of
        Inl i \<Rightarrow> es[i := (es ! i)\<lparr>ae_mac := take 6 mac, ae_time := now\<rparr>]
      | Inr None \<Rightarrow> es
      | Inr (Some i) \<Rightarrow> es[i := \<lparr>ae_ip = ip, ae_mac = take 6 mac, ae_time = now, ae_valid = True\<rparr>])"

fun arp_cache_del :: "u32 \<Rightarrow> arp_cache_entry list \<Rightarrow> arp_cache_entry list" where
  "arp_cache_del ip [] = []"
| "arp_cache_del ip (e # es) = (if ae_valid e \<and> ae_ip e = ip then e\<lparr>ae_valid := False\<rparr> # es else e # arp_cache_del ip es)"

definition arp_cache_clear :: "arp_cache_entry list" where
  "arp_cache_clear = replicate 32 \<lparr>ae_ip = 0, ae_mac = replicate 6 0, ae_time = 0, ae_valid = False\<rparr>"

definition arp_cache_purge_expired :: "u64 \<Rightarrow> arp_cache_entry list \<Rightarrow> arp_cache_entry list" where
  "arp_cache_purge_expired now es =
     map (\<lambda>e. if ae_valid e then (if now - ae_time e > 300000 then e\<lparr>ae_valid := False\<rparr> else e) else e) es"

fun arp_find :: "u32 \<Rightarrow> arp_cache_entry list \<Rightarrow> u8 list option" where
  "arp_find ip [] = None"
| "arp_find ip (e # es) = (if ae_valid e \<and> ae_ip e = ip then Some (ae_mac e) else arp_find ip es)"

definition arp_cache_lookup :: "u64 \<Rightarrow> u32 \<Rightarrow> arp_cache_entry list \<Rightarrow> u8 list option \<times> arp_cache_entry list" where
  "arp_cache_lookup now ip es = (let es = arp_cache_purge_expired now es in (arp_find ip es, es))"

section \<open>ARP packets\<close>

definition arp_header :: "u16 \<Rightarrow> u8 list \<Rightarrow> u32 \<Rightarrow> u8 list \<Rightarrow> u32 \<Rightarrow> u8 list" where
  "arp_header op sha spa tha tpa =
     le16 (htons 0x0001) @ le16 (htons 0x0800) @ [6, 4] @ le16 (htons op) @ take 6 sha @ octets spa @ take 6 tha @ octets tpa"

definition arp_request ::
    "(u64 \<Rightarrow> u8 list \<Rightarrow> int) \<Rightarrow> u64 \<Rightarrow> u64 \<Rightarrow> u32 \<Rightarrow> u64 \<Rightarrow> 'a net_state_scheme \<Rightarrow> int \<times> 'a net_state_scheme" where
  "arp_request xmit pb ph ip dev st =
     (case net_alloc_buf pb ph 28 of
        None \<Rightarrow> (- 1, st)
      | Some buf \<Rightarrow>
          let arp = arp_header 0x0001 (d_mac (devs st dev)) (of_octets (d_ip (devs st dev))) (replicate 6 0) ip;
              st = st\<lparr>nmem := put (nmem st) (nb_data buf) arp\<rparr>;
              buf = buf\<lparr>nb_len := 28\<rparr>;
              (r, buf, st) = ethernet_output xmit buf dev ETH_MAC_BROADCAST ETH_P_ARP st
          in (r, st))"

definition arp_input ::
    "(u64 \<Rightarrow> u8 list \<Rightarrow> int) \<Rightarrow> u64 \<Rightarrow> u64 \<Rightarrow> u64 \<Rightarrow> net_buf \<Rightarrow> u64 \<Rightarrow> 'a net_state_scheme \<Rightarrow> 'a net_state_scheme" where
  "arp_input xmit now pb ph buf dev st =
     (if nb_len buf < 28 then st
      else let arp = at_text (nmem st) (nb_data buf) 28;
               sha = take 6 (drop 8 arp);
               spa = of_octets (take 4 (drop 14 arp));
               tpa = of_octets (take 4 (drop 24 arp));
               my_ip = of_octets (d_ip (devs st dev))
           in if ntohs (of_le16 arp) \<noteq> 0x0001 then st
              else if ntohs (of_le16 (drop 2 arp)) \<noteq> 0x0800 then st
              else if arp ! 4 \<noteq> 6 \<or> arp ! 5 \<noteq> 4 then st
              else let st = (if spa \<noteq> 0 then st\<lparr>arp_cache := arp_cache_add now spa sha (arp_cache st)\<rparr> else st) in
                if ntohs (of_le16 (drop 6 arp)) = 0x0001 \<and> tpa = my_ip then
                  (case net_alloc_buf pb ph 28 of
                     None \<Rightarrow> st
                   | Some reply \<Rightarrow>
                       let reply_arp = take 6 arp @ le16 (htons 0x0002) @ take 6 (d_mac (devs st dev)) @ octets my_ip @ sha @ octets spa;
                           st = st\<lparr>nmem := put (nmem st) (nb_data reply) reply_arp\<rparr>
                       in snd (snd (ethernet_output xmit (reply\<lparr>nb_len := 28\<rparr>) dev sha ETH_P_ARP st)))
                else st)"

definition arp_resolve_timeout :: "'a net_state_scheme \<Rightarrow> 'a net_state_scheme" where
  "arp_resolve_timeout st =
     (if \<not> pending_completed st \<and> pending_waiting st then st\<lparr>pending_completed := True, pending_waiting := False\<rparr> else st)"

text \<open>
  The wait loop: \<open>ticks i\<close> is the reading and \<open>env i\<close> what the interrupts before it do to the state. Without an end of the loop there is no value.
\<close>

partial_function (option) arp_wait ::
    "(nat \<Rightarrow> u64) \<Rightarrow> (nat \<Rightarrow> 'a net_state_scheme \<Rightarrow> 'a net_state_scheme) \<Rightarrow> u64 \<Rightarrow> u32 \<Rightarrow> nat \<Rightarrow> 'a net_state_scheme \<Rightarrow> 'a net_state_scheme option" where
  "arp_wait ticks env start timeout_ms i st =
     (let st = env i st
      in if \<not> pending_completed st \<and> ticks i - start < ucast timeout_ms then arp_wait ticks env start timeout_ms (Suc i) st else Some st)"

definition arp_resolve ::
    "(u64 \<Rightarrow> u8 list \<Rightarrow> int) \<Rightarrow> u64 \<Rightarrow> u64 \<Rightarrow> (nat \<Rightarrow> u64) \<Rightarrow> (nat \<Rightarrow> 'a net_state_scheme \<Rightarrow> 'a net_state_scheme) \<Rightarrow> u64 \<Rightarrow> u64 \<Rightarrow> u64 \<Rightarrow>
     u64 \<Rightarrow> u32 \<Rightarrow> u32 \<Rightarrow> 'a net_state_scheme \<Rightarrow> (u8 list option \<times> 'a net_state_scheme) option" where
  "arp_resolve xmit pb ph ticks env now start later dev ip timeout_ms st =
     (let (r, es) = arp_cache_lookup now ip (arp_cache st); st = st\<lparr>arp_cache := es\<rparr> in
      if r \<noteq> None then Some (r, st)
      else let (_, st) = arp_request xmit pb ph ip dev st;
               st = st\<lparr>pending_ip := ip, pending_completed := False, pending_waiting := True\<rparr>
           in case arp_wait ticks env start timeout_ms 0 st of
                None \<Rightarrow> None
              | Some st \<Rightarrow>
                  let st = st\<lparr>pending_waiting := False\<rparr>;
                      (r, es) = arp_cache_lookup later ip (arp_cache st)
                  in Some (r, st\<lparr>arp_cache := es\<rparr>))"

definition arp_init :: "'a net_state_scheme \<Rightarrow> 'a net_state_scheme" where
  "arp_init st = st\<lparr>arp_cache := arp_cache_clear, pending_ip := 0, pending_completed := False, pending_waiting := False\<rparr>"

section \<open>Buffers and frames\<close>

lemma at_text_length [simp]: "length (at_text mem p n) = n" by (simp add: at_text_def)

lemma at_text_nth [simp]: "i < n \<Longrightarrow> at_text mem p n ! i = mem (p + of_nat i)" by (simp add: at_text_def)

lemma put_at:
  assumes "j < 2 ^ 64"
  shows "put mem p xs (p + of_nat j) = (if j < length xs then xs ! j else mem (p + of_nat j))"
  using assms by (simp add: put_def unat_of_nat)

lemma at_text_put: "length xs < 2 ^ 64 \<Longrightarrow> at_text (put mem p xs) p (length xs) = xs"
  by (rule nth_equalityI) (simp_all add: put_at)

lemma ntohs_htons [simp]: "ntohs (htons n) = n"
proof (rule bit_word_eqI)
  fix k assume "k < LENGTH(16)"
  then show "bit (ntohs (htons n)) k = bit n k" by (cases "k < 8") (auto simp: ntohs_def htons_def bit_simps)
qed

lemma of_le16_le16 [simp]: "of_le16 (le16 w @ xs) = w"
  by (rule bit_word_eqI) (auto simp: of_le16_def le16_def bit_simps)

lemma of_octets_octets [simp]: "of_octets (octets a) = a"
proof (rule bit_word_eqI)
  fix k assume "k < LENGTH(32)"
  then show "bit (of_octets (octets a)) k = bit a k" by (cases "k < 24"; cases "k < 16") (auto simp: of_octets_def octets_def bit_simps)
qed

lemma eth_header_length: "6 \<le> length dst \<Longrightarrow> 6 \<le> length src \<Longrightarrow> length (eth_header dst src ty) = 14"
  by (simp add: eth_header_def le16_def)

section \<open>The cache\<close>

definition arp_match :: "u32 \<Rightarrow> arp_cache_entry \<Rightarrow> bool" where "arp_match ip e = (ae_valid e \<and> ae_ip e = ip)"

lemma arp_scan_Inl:
  "arp_scan i ip es oldest t = Inl k \<Longrightarrow> \<exists>j < length es. k = i + j \<and> arp_match ip (es ! j) \<and> (\<forall>m < j. \<not> arp_match ip (es ! m))"
proof (induction i ip es oldest t rule: arp_scan.induct)
  case (2 i ip e es oldest t)
  show ?case
  proof (cases "arp_match ip e")
    case True
    then show ?thesis using "2.prems" by (intro exI [of _ 0]) (simp add: arp_match_def split: if_splits)
  next
    case False
    then have "\<exists>j < length es. k = Suc i + j \<and> arp_match ip (es ! j) \<and> (\<forall>m < j. \<not> arp_match ip (es ! m))"
      using 2 by (simp add: arp_match_def split: if_splits)
    then obtain j where j: "j < length es" "k = Suc i + j" "arp_match ip (es ! j)" "\<forall>m < j. \<not> arp_match ip (es ! m)" by blast
    then have "\<forall>m < Suc j. \<not> arp_match ip ((e # es) ! m)" using False by (auto simp: less_Suc_eq_0_disj)
    then show ?thesis using j by (intro exI [of _ "Suc j"]) simp
  qed
qed simp

lemma arp_scan_Inr:
  "arp_scan i ip es oldest t = Inr r \<Longrightarrow>
    (r = oldest \<and> list_all (\<lambda>e. ae_valid e \<and> ae_ip e \<noteq> ip \<and> \<not> ae_time e < t) es) \<or>
    (\<exists>j < length es. r = Some (i + j) \<and> (\<forall>m < j. \<not> arp_match ip (es ! m)) \<and> \<not> arp_match ip (es ! j) \<and>
      (ae_valid (es ! j) \<longrightarrow> list_all (\<lambda>e. ae_valid e \<and> ae_ip e \<noteq> ip) es))"
proof (induction i ip es oldest t rule: arp_scan.induct)
  case (2 i ip e es oldest t)
  show ?case
  proof (cases "ae_valid e")
    case False
    then show ?thesis using "2.prems" by (intro disjI2 exI [of _ 0]) (simp add: arp_match_def)
  next
    case True
    then have n: "ae_ip e \<noteq> ip" using "2.prems" by auto
    let ?o = "if ae_time e < t then Some i else oldest" and ?t = "if ae_time e < t then ae_time e else t"
    have "arp_scan (Suc i) ip es ?o ?t = Inr r" using "2.prems" True n by (auto split: if_splits)
    then have "(r = ?o \<and> list_all (\<lambda>e. ae_valid e \<and> ae_ip e \<noteq> ip \<and> \<not> ae_time e < ?t) es) \<or>
      (\<exists>j < length es. r = Some (Suc i + j) \<and> (\<forall>m < j. \<not> arp_match ip (es ! m)) \<and> \<not> arp_match ip (es ! j) \<and>
        (ae_valid (es ! j) \<longrightarrow> list_all (\<lambda>e. ae_valid e \<and> ae_ip e \<noteq> ip) es))"
      using "2.IH" True n by (cases "ae_time e < t") simp_all
    then show ?thesis
    proof (elim disjE)
      assume a: "r = ?o \<and> list_all (\<lambda>e. ae_valid e \<and> ae_ip e \<noteq> ip \<and> \<not> ae_time e < ?t) es"
      show ?thesis
      proof (cases "ae_time e < t")
        case lt: True
        have "list_all (\<lambda>e. ae_valid e \<and> ae_ip e \<noteq> ip) es" using a by (auto simp: list_all_iff)
        then show ?thesis using a lt True n by (intro disjI2 exI [of _ 0]) (simp add: arp_match_def)
      qed (use a True n in auto)
    next
      assume "\<exists>j < length es. r = Some (Suc i + j) \<and> (\<forall>m < j. \<not> arp_match ip (es ! m)) \<and> \<not> arp_match ip (es ! j) \<and>
        (ae_valid (es ! j) \<longrightarrow> list_all (\<lambda>e. ae_valid e \<and> ae_ip e \<noteq> ip) es)"
      then obtain j where j: "j < length es" "r = Some (Suc i + j)" "\<forall>m < j. \<not> arp_match ip (es ! m)" "\<not> arp_match ip (es ! j)"
        "ae_valid (es ! j) \<longrightarrow> list_all (\<lambda>e. ae_valid e \<and> ae_ip e \<noteq> ip) es" by blast
      then have "\<forall>m < Suc j. \<not> arp_match ip ((e # es) ! m)" using n by (auto simp: less_Suc_eq_0_disj arp_match_def)
      then show ?thesis using j True n by (intro disjI2 exI [of _ "Suc j"]) simp
    qed
  qed
qed simp

lemma arp_find_first:
  "j < length es \<Longrightarrow> arp_match ip (es ! j) \<Longrightarrow> \<forall>m < j. \<not> arp_match ip (es ! m) \<Longrightarrow> arp_find ip es = Some (ae_mac (es ! j))"
proof (induction es arbitrary: j)
  case (Cons e es)
  show ?case
  proof (cases j)
    case (Suc j')
    then have "\<not> arp_match ip e" using Cons.prems(3) by force
    moreover have "\<forall>m < j'. \<not> arp_match ip (es ! m)" using Cons.prems(3) Suc by force
    ultimately show ?thesis using Cons Suc by (auto simp: arp_match_def)
  qed (use Cons.prems in \<open>simp add: arp_match_def\<close>)
qed simp

lemma arp_find_upd:
  "\<not> arp_match ip (es ! j) \<Longrightarrow> \<not> arp_match ip e \<Longrightarrow> arp_find ip (es[j := e]) = arp_find ip es"
proof (induction es arbitrary: j)
  case (Cons a es)
  then show ?case by (cases j) (auto simp: arp_match_def)
qed simp

lemma arp_find_invalid: "\<not> ae_valid e \<Longrightarrow> arp_find ip (replicate n e) = None" by (induction n) simp_all

text \<open>Adding an address makes it the first match, at the current time; and an address is not lost while there is a free entry.\<close>

lemma arp_cache_add_first:
  fixes now :: u64 and mac :: "u8 list"
  assumes "\<exists>e \<in> set es. \<not> ae_valid e \<or> ae_ip e = ip \<or> ae_time e < NOT 0"
  defines "es' \<equiv> arp_cache_add now ip mac es"
  shows "\<exists>j < length es'. arp_match ip (es' ! j) \<and> ae_mac (es' ! j) = take 6 mac \<and> ae_time (es' ! j) = now \<and>
    (\<forall>m < j. \<not> arp_match ip (es' ! m))"
proof (cases "arp_scan 0 ip es None (NOT 0)")
  case (Inl i)
  then have "i < length es" "arp_match ip (es ! i)" "\<forall>m < i. \<not> arp_match ip (es ! m)" using arp_scan_Inl [OF Inl] by auto
  then show ?thesis using Inl by (intro exI [of _ i]) (simp add: es'_def arp_cache_add_def arp_match_def)
next
  case (Inr r)
  then obtain j where "j < length es" "r = Some j" "\<forall>m < j. \<not> arp_match ip (es ! m)"
    using arp_scan_Inr [OF Inr] assms(1) by (auto simp: list_all_iff)
  then show ?thesis using Inr by (intro exI [of _ j]) (simp add: es'_def arp_cache_add_def arp_match_def)
qed

lemma arp_cache_add_others:
  assumes "ip' \<noteq> ip" "(\<exists>e \<in> set es. \<not> ae_valid e) \<or> (\<exists>e \<in> set es. ae_ip e = ip)"
  shows "arp_find ip' (arp_cache_add now ip mac es) = arp_find ip' es"
proof (cases "arp_scan 0 ip es None (NOT 0)")
  case (Inl i)
  then have "arp_match ip (es ! i)" using arp_scan_Inl [OF Inl] by auto
  then show ?thesis using assms(1) Inl arp_find_upd [of ip' es i] by (simp add: arp_cache_add_def arp_match_def)
next
  case (Inr r)
  have "(\<exists>e \<in> set es. arp_match ip e) \<or> (\<exists>e \<in> set es. \<not> ae_valid e)" using assms(2) by (auto simp: arp_match_def)
  then obtain j where "r = Some j" "\<not> ae_valid (es ! j)"
    using arp_scan_Inr [OF Inr] assms(2) by (auto simp: list_all_iff)
  then show ?thesis using assms(1) Inr arp_find_upd [of ip' es j] by (simp add: arp_cache_add_def arp_match_def)
qed

lemma arp_lookup_added:
  assumes "\<exists>e \<in> set es. \<not> ae_valid e \<or> ae_ip e = ip \<or> ae_time e < NOT 0"
  shows "fst (arp_cache_lookup now ip (arp_cache_add now ip mac es)) = Some (take 6 mac)"
proof -
  let ?es = "arp_cache_add now ip mac es"
  obtain j where j: "j < length ?es" "arp_match ip (?es ! j)" "ae_mac (?es ! j) = take 6 mac" "ae_time (?es ! j) = now"
    "\<forall>m < j. \<not> arp_match ip (?es ! m)" using arp_cache_add_first [OF assms] by blast
  let ?ps = "arp_cache_purge_expired now ?es"
  have keep: "?ps ! j = ?es ! j" using j(1,4) by (simp add: arp_cache_purge_expired_def)
  have "\<forall>m < j. \<not> arp_match ip (?ps ! m)" using j(1,5) by (simp add: arp_cache_purge_expired_def arp_match_def)
  then have "arp_find ip ?ps = Some (ae_mac (?ps ! j))"
    using j(1,2) keep by (intro arp_find_first) (simp_all add: arp_cache_purge_expired_def)
  then show ?thesis using keep j(3) by (simp add: arp_cache_lookup_def Let_def)
qed

text \<open>The tick counter runs from 0 to 999. An entry never gets old in this time; it is dropped when the counter starts again below its time stamp.\<close>

lemma arp_expiry:
  assumes "unat now < 1000" "unat (ae_time e) < 1000"
  shows "(now - ae_time e > 300000) = (now < ae_time e)"
proof (cases "now < ae_time e")
  case True
  then have "unat (now - ae_time e) = 2 ^ 64 + unat now - unat (ae_time e)" by (simp add: unat_sub_if_size word_size word_less_nat_alt)
  then show ?thesis using assms True by (simp add: word_less_nat_alt)
next
  case False
  then have "unat (now - ae_time e) = unat now - unat (ae_time e)" by (simp add: unat_sub not_less)
  then show ?thesis using assms False by (simp add: word_less_nat_alt)
qed

text \<open>The search stops at the first free entry, so an address can get a second entry behind which the old one comes back.\<close>

lemma arp_stale_entry:
  "let e = (\<lambda>ip m. \<lparr>ae_ip = ip, ae_mac = replicate 6 m, ae_time = 0, ae_valid = True\<rparr>);
       es = arp_cache_del 1 [e 1 10, e 2 20];
       es = arp_cache_add 5 2 (replicate 6 99) es;
       es' = arp_cache_del 2 es
   in arp_find 2 es = Some (replicate 6 99) \<and> arp_find 2 es' = Some (replicate 6 20)"
  by (simp add: Let_def arp_cache_add_def)

section \<open>Waiting for an answer\<close>

lemma arp_wait_ends:
  assumes "\<not> ticks k - start < ucast timeout_ms" "i \<le> k"
  shows "\<exists>st'. arp_wait ticks env start timeout_ms i st = Some st'"
  using assms(2)
proof (induction "k - i" arbitrary: i st)
  case 0
  then show ?case using assms(1) by (subst arp_wait.simps) (simp add: Let_def)
next
  case (Suc n)
  then show ?case using Suc.hyps(1) [of "Suc i"] by (subst arp_wait.simps) (simp add: Let_def)
qed

text \<open>No timer sets the flag. When a wait of 1000 ticks starts at tick 0, the counter never shows that it is over.\<close>

lemma arp_wait_forever:
  assumes "\<And>i st. \<not> pending_completed st \<Longrightarrow> \<not> pending_completed (env i st)" "\<And>i. unat (ticks i) < 1000"
    "\<not> pending_completed st"
  shows "arp_wait ticks env 0 1000 i st = None"
proof -
  have t: "ticks i - 0 < ucast (1000 :: u32)" for i using assms(2) [of i] by (simp add: word_less_nat_alt)
  have "ticks = ticks \<and> env = env \<and> (0 :: u64) = 0 \<and> (1000 :: u32) = 1000 \<longrightarrow> pending_completed st"
    if "arp_wait ticks env 0 1000 i st = Some r" for r
    using that
  proof (rule arp_wait.raw_induct [where P = "\<lambda>tk en sta tm i st r. tk = ticks \<and> en = env \<and> sta = 0 \<and> tm = 1000 \<longrightarrow> pending_completed st",
      rotated])
    fix f and tk :: "nat \<Rightarrow> u64" and en and sta :: u64 and tm :: u32 and i and st r :: "'a net_state_scheme"
    assume ih: "\<And>tk en sta tm i st r. f tk en sta tm i st = Some r \<Longrightarrow>
        tk = ticks \<and> en = env \<and> sta = 0 \<and> tm = 1000 \<longrightarrow> pending_completed st"
      and b: "(let st = en i st in if \<not> pending_completed st \<and> tk i - sta < ucast tm then f tk en sta tm (Suc i) st else Some st) = Some r"
    show "tk = ticks \<and> en = env \<and> sta = 0 \<and> tm = 1000 \<longrightarrow> pending_completed st"
      using ih [of tk en sta tm "Suc i" "en i st" r] b assms(1) [of st i] t [of i] by (auto simp: Let_def split: if_splits)
  qed
  then show ?thesis using assms(3) by (cases "arp_wait ticks env 0 1000 i st") auto
qed

section \<open>Frames\<close>

lemma put_off:
  assumes "i < 2 ^ 63" "a < 2 ^ 63" "length xs \<le> 2 ^ 63"
  shows "put mem (p + of_nat a) xs (p + of_nat i) = (if a \<le> i \<and> i - a < length xs then xs ! (i - a) else mem (p + of_nat i))"
proof (cases "a \<le> i")
  case True
  then have "p + of_nat i = (p + of_nat a) + of_nat (i - a)" by (simp add: of_nat_diff)
  then show ?thesis using put_at [of "i - a" mem "p + of_nat a" xs] assms(1) True by simp
next
  case False
  have "(p + of_nat i) - (p + of_nat a) = (of_nat i - of_nat a :: u64)" by simp
  moreover have "unat (of_nat i - of_nat a :: u64) = 2 ^ 64 + i - a"
    using False assms(1,2) by (simp add: unat_sub_if_size word_size unat_of_nat word_le_nat_alt)
  ultimately have "unat ((p + of_nat i) - (p + of_nat a)) = 2 ^ 64 + i - a" by simp
  then show ?thesis using False assms unfolding put_def by auto
qed

lemma frame_bytes:
  assumes "length h = 14" "L < 2 ^ 32"
  shows "at_text (if L < 50 then put (put mem p h) (p + of_nat L) (replicate (50 - L) 0) else put mem p h) p (if L < 50 then 50 else L) =
    take L (h @ at_text mem (p + 14) (L - 14)) @ replicate (50 - L) 0" (is "?l = ?r")
proof (rule nth_equalityI)
  fix i assume i: "i < length ?l"
  then have small: "i < 2 ^ 32" using assms(2) by (simp split: if_splits)
  have base: "put mem p h (p + of_nat i) = (h @ at_text mem (p + 14) (L - 14)) ! i" if "i < L"
  proof (cases "i < 14")
    case False
    then have "p + of_nat i = p + 14 + of_nat (i - 14)" by (simp add: of_nat_diff)
    then show ?thesis using put_at [of i mem p h] small assms(1) False that by (simp add: nth_append)
  qed (use put_at [of i mem p h] small assms(1) in \<open>simp add: nth_append\<close>)
  show "?l ! i = ?r ! i"
  proof (cases "L < 50")
    case True
    then show ?thesis using i base put_off [of i L "replicate (50 - L) 0" "put mem p h" p] small assms(1)
      by (auto simp: nth_append)
  qed (use i base assms(1) in \<open>simp add: nth_append\<close>)
qed (use assms(1) in \<open>auto simp: min_def\<close>)

text \<open>A buffer for an ARP packet ends 92 bytes after its start; the padding of the frame goes up to byte 127.\<close>

lemma arp_request_overruns:
  assumes "pb \<noteq> 0" "ph \<noteq> 0" "dev \<noteq> 0" "91 < i" "106 \<le> i" "i < 128"
  shows "nmem (snd (arp_request xmit pb ph ip dev st)) (ph + of_nat i) = 0" "map_option nb_end (net_alloc_buf pb ph 28) = Some (ph + 92)"
proof -
  have "put m (ph + of_nat 106) (replicate 22 0) (ph + of_nat i) = 0" for m using put_off [of i 106 "replicate 22 0" m ph] assms by auto
  then show "nmem (snd (arp_request xmit pb ph ip dev st)) (ph + of_nat i) = 0"
    using assms(1-3) by (simp add: arp_request_def net_alloc_buf_def ethernet_output_def net_reserve_def Let_def add.assoc)
  show "map_option nb_end (net_alloc_buf pb ph 28) = Some (ph + 92)" using assms(1,2) by (simp add: net_alloc_buf_def Let_def)
qed

section \<open>Properties\<close>

text \<open>
  C0 (functional). What \<open>ethernet_output\<close> sends: it moves the data pointer forward by the 14 bytes of the header and writes the header there, so
  of a packet of \<open>L\<close> bytes the frame has the header and then the packet from its byte 28 on (and as many bytes behind its end), cut to \<open>L\<close> bytes and
  filled with zeros to 50 bytes. The first 28 bytes of the packet are not sent.
\<close>

theorem ethernet_output_frame:
  assumes "dev \<noteq> 0" "nb_headroom buf \<ge> 14" "length dst = 6" "length (d_mac (devs st dev)) = 6" "L = unat (nb_len buf)"
  shows "xmitted (snd (snd (ethernet_output xmit buf dev dst ty st))) = xmitted st @
    [(dev, take L (eth_header dst (d_mac (devs st dev)) ty @ at_text (nmem st) (nb_data buf + 28) (L - 14)) @ replicate (50 - L) 0)]"
proof -
  let ?h = "eth_header dst (d_mac (devs st dev)) ty" and ?p = "nb_data buf + 14"
  have h: "length ?h = 14" using assms(3,4) by (simp add: eth_header_length)
  have L: "L < 2 ^ 32" using unsigned_less [of "nb_len buf"] assms(5) by simp
  have lt: "(nb_len buf < 50) = (L < 50)" by (simp add: word_less_nat_alt assms(5))
  have u: "ucast (nb_len buf) = (of_nat L :: u64)" by (simp add: assms(5))
  have e: "?p + 14 = nb_data buf + 28" by (simp add: add.assoc)
  have pad: "unat (50 - nb_len buf) = 50 - L" if "L < 50" using that lt by (simp add: unat_sub assms(5))
  have "frame_of (if L < 50 then put (put (nmem st) ?p ?h) (?p + of_nat L) (replicate (50 - L) 0) else put (nmem st) ?p ?h)
      (if L < 50 then (net_reserve 14 buf)\<lparr>nb_len := 50\<rparr> else net_reserve 14 buf) =
    take L (?h @ at_text (nmem st) (nb_data buf + 28) (L - 14)) @ replicate (50 - L) 0"
    using frame_bytes [OF h L, of "nmem st" ?p] assms(2,5) unfolding e by (auto simp: frame_of_def net_reserve_def)
  moreover have "xmitted (snd (snd (ethernet_output xmit buf dev dst ty st))) = xmitted st @
      [(dev, frame_of (if L < 50 then put (put (nmem st) ?p ?h) (?p + of_nat L) (replicate (50 - L) 0) else put (nmem st) ?p ?h)
      (if L < 50 then (net_reserve 14 buf)\<lparr>nb_len := 50\<rparr> else net_reserve 14 buf))]"
    using assms(1,2) lt u pad by (auto simp: ethernet_output_def Let_def net_reserve_def)
  ultimately show ?thesis by simp
qed

definition sample_device :: net_device where
  "sample_device = \<lparr>d_name = [0x65], d_index = 0, d_type = NET_TYPE_ETHERNET, d_mac = [2, 0, 0, 0, 0, 1], d_ip = [10, 0, 0, 5],
    d_up = True, d_running = True, d_xmit = True\<rparr>"

definition sample_net :: net_state where
  "sample_net = \<lparr>nmem = (\<lambda>a. ucast a), net_devices = [0x9000], devs = (\<lambda>_. sample_device), net_device_count = 1, eth_protocols = (\<lambda>_. None),
    arp_cache = arp_cache_clear, pending_ip = 0, pending_completed = False, pending_waiting = False, xmitted = []\<rparr>"

definition sample_buf :: net_buf where
  "sample_buf = \<lparr>nb_data = 0x5040, nb_head = 0x5000, nb_tail = 0x5040, nb_end = 0x505C, nb_len = 28, nb_headroom = 64, nb_truesize = 92,
    nb_protocol = 0, nb_ifindex = 0, nb_dev = 0\<rparr>"

theorem ethernet_output_frame_witness:
  "xmitted (snd (snd (ethernet_output (\<lambda>_ _. 0) sample_buf 0x9000 ETH_MAC_BROADCAST 0x0806 sample_net))) =
    [(0x9000, take 28 (eth_header ETH_MAC_BROADCAST [2, 0, 0, 0, 0, 1] 0x0806 @ at_text (\<lambda>a. ucast a) 0x505C 14) @ replicate 22 0)]"
proof -
  have "d_mac (devs sample_net 0x9000) = [2, 0, 0, 0, 0, 1]" "nmem sample_net = (\<lambda>a. ucast a)" "xmitted sample_net = []"
    by (simp_all add: sample_net_def sample_device_def)
  moreover have "nb_data sample_buf + 28 = 0x505C" "28 = unat (nb_len sample_buf)" "nb_headroom sample_buf \<ge> 14"
    by (simp_all add: sample_buf_def)
  moreover have "length ETH_MAC_BROADCAST = 6" by (simp add: ETH_MAC_BROADCAST_def)
  ultimately show ?thesis
    using ethernet_output_frame [of "0x9000" sample_buf ETH_MAC_BROADCAST sample_net 28 "\<lambda>_ _. 0" "0x0806"] by simp
qed

text \<open>
  C0 (roundtrip). An address that was added to the cache is found with its hardware address at the same time, whether its entry was updated, put into
  a free entry or over the oldest one; and while the cache has a free entry or knows the address, no other address is lost by it.
\<close>

theorem arp_cache_correct:
  assumes "\<exists>e \<in> set es. \<not> ae_valid e \<or> ae_ip e = ip \<or> ae_time e < NOT 0"
  shows "fst (arp_cache_lookup now ip (arp_cache_add now ip mac es)) = Some (take 6 mac) \<and>
    (\<forall>ip'. ip' \<noteq> ip \<and> ((\<exists>e \<in> set es. \<not> ae_valid e) \<or> (\<exists>e \<in> set es. ae_ip e = ip)) \<longrightarrow>
      arp_find ip' (arp_cache_add now ip mac es) = arp_find ip' es)"
  by (intro conjI allI impI arp_lookup_added [OF assms] arp_cache_add_others) simp_all

theorem arp_cache_correct_witness:
  "fst (arp_cache_lookup 7 0x0500000A (arp_cache_add 7 0x0500000A [1, 2, 3, 4, 5, 6] arp_cache_clear)) = Some [1, 2, 3, 4, 5, 6] \<and>
   arp_find 0x0600000A (arp_cache_add 7 0x0500000A [1, 2, 3, 4, 5, 6] arp_cache_clear) = None"
proof -
  have f: "\<exists>e \<in> set arp_cache_clear. \<not> ae_valid e" by (simp add: arp_cache_clear_def)
  have "arp_find 0x0600000A arp_cache_clear = None" by (simp add: arp_cache_clear_def arp_find_invalid)
  moreover have g: "\<exists>e \<in> set arp_cache_clear. \<not> ae_valid e \<or> ae_ip e = 0x0500000A \<or> ae_time e < NOT 0" using f by blast
  note c = arp_cache_correct [OF g, of 7 "[1, 2, 3, 4, 5, 6]"]
  have "arp_find 0x0600000A (arp_cache_add 7 0x0500000A [1, 2, 3, 4, 5, 6] arp_cache_clear) = arp_find 0x0600000A arp_cache_clear"
    by (rule c [THEN conjunct2, rule_format]) (use f in simp)
  ultimately show ?thesis using c [THEN conjunct1] by simp
qed

end
