(* ===== verification/Spec2Isabelle.thy ===== *)
theory Spec2Isabelle
  imports KPrelude KTime KPmm KPaging KString KHeap KTss KSched KTimer KHash KCrypto KFormat KNet
begin

text \<open>
  A verification library for the 64OS kernel, a monolithic x86-64 kernel in C. The kernel boots through multiboot, takes the memory map
  into a bitmap allocator of physical pages, builds four-level page tables over it, grows a heap of linked blocks from both, and runs
  kernel and user tasks from that heap on a ring that the APIC timer interrupt walks. Beside these stand the string library, calendar
  time, the crypto functions, the network stack, file systems and drivers.

  \<^bold>\<open>Modelling.\<close> C functions are HOL functions that take and return the state they read and write. Machine integers are words of
  their width, so that arithmetic wraps as in C. Pointers are 64-bit words with 0 for NULL; a structure reached through a pointer lives in
  a typed store, a function from addresses to the record of the structure, and bytes in a memory \<^typ>\<open>mem\<close>. Records keep the field
  names of the structures, suffixed where HOL has the name. A routine that may call \<^verbatim>\<open>panic\<close> has a result of type
  \<^typ>\<open>'a outcome\<close>; one that may not come back has \<^typ>\<open>'a outcome option\<close> with \<open>None\<close> for that. Loops over linked
  structures are partial functions of the option monad, so that ending is a theorem; loops over word counters are total with a measure. No
  definition has fuel but \<^verbatim>\<open>grow_until_fit\<close> of the heap, whose bound of ten attempts is that of the code. Console output,
  port writes and cache or TLB maintenance leave no trace in the state. What the hardware answers is an argument.

  \<^bold>\<open>Theories.\<close>

  \<^item> \<^verbatim>\<open>KPrelude\<close>: integer types, outcomes and their sequencing, facts on words and counters.
  \<^item> \<^verbatim>\<open>KTime\<close> (\<^verbatim>\<open>src/kernel/time/bcd2utime.c, clock.c, rtc.c, rdcmos.c\<close>): date conversions, the CMOS readers over a register file
    and the software clock. The two date conversions agree and invert each other, and a tick advances the time of day by one second.
  \<^item> \<^verbatim>\<open>KPmm\<close> (\<^verbatim>\<open>src/kernel/mm/pmm.c\<close>): the page bitmap, its initialisation from the memory map, allocation of pages and runs,
    release. The locale \<^verbatim>\<open>page_allocator\<close> states the contract; its interpretation gives that no page is handed out twice.
  \<^item> \<^verbatim>\<open>KPaging\<close> (\<^verbatim>\<open>src/kernel/paging.c\<close>): page tables in memory, mapping and unmapping of pages and ranges, task address spaces.
    The tables stay a tree of pages the allocator knows as taken, and the processor's walk finds exactly what was mapped.
  \<^item> \<^verbatim>\<open>KString\<close> (\<^verbatim>\<open>src/libk/string.c\<close>): copying, filling, comparing, searching, tokens and decimal conversion over bytes in memory,
    against specifications on lists.
  \<^item> \<^verbatim>\<open>KHeap\<close> (\<^verbatim>\<open>src/kernel/mm/heap.c\<close>): block headers in a doubly linked list. The list of blocks is the abstraction; \<^verbatim>\<open>malloc\<close> is
    first fit with splitting on it, \<^verbatim>\<open>free\<close> merges neighbours. The locale \<^verbatim>\<open>heap_allocator\<close> carries histories of calls.
  \<^item> \<^verbatim>\<open>KTss\<close> (\<^verbatim>\<open>src/kernel/tss.c\<close>): the task state segment and the descriptor words written for it.
  \<^item> \<^verbatim>\<open>KSched\<close> (\<^verbatim>\<open>src/kernel/sched.c\<close>): tasks on a circular list, the zombie list, creation, selection, exit, stop and reaping,
    with the heap blocks that tasks own. A step relation over these operations refines a specification on lists.
  \<^item> \<^verbatim>\<open>KTimer\<close> (\<^verbatim>\<open>src/kernel/time/timer.c, timer_isr.asm\<close>): calibration, the interrupt handler and its composition with clock and
    scheduler: time is kept, and every ready task runs within a bounded number of interrupts.
  \<^item> \<^verbatim>\<open>KHash\<close> (\<^verbatim>\<open>src/crypto/hash\<close>): MD5, SHA-1 and SHA-256. The locale \<^verbatim>\<open>stream_hash\<close> is their common construction.

  \<^bold>\<open>Where the code falls short.\<close> Statements hold under the conditions they name; some of the conditions are there because the code does not do
  what it means to: the final functions of the hashes overrun an array, \<^verbatim>\<open>utask_create\<close> never releases its lock, the descriptor of the task
  state segment is right for low addresses only, the timer calibration and \<^verbatim>\<open>align_up\<close> wrap.

  \<^bold>\<open>Not modelled.\<close> Boot code, interrupt descriptor tables and controllers, processor start-up, device drivers, block devices and file
  systems, the terminal and the shell: they are register and port input and output, or sequences of calls of other parts. Preemption
  inside a kernel routine is modelled at the granularity of whole calls, which is that of the critical sections the scheduler guards by
  disabling interrupts; there is one processor. A caller that writes outside the blocks it was given is outside the model.
\<close>

end
